(* ===== verification/Gravel_Prelude.thy ===== *)
theory Gravel_Prelude
  imports Main "HOL-Library.Word"
begin

text \<open>
  Shared ground of the Gravel development: the machine integer types of
  kernel/include/types.h, results that carry a kernel failure as a value, the constants
  of config.h and errno.h, and the generic lemmas on words, lists and results that the
  component theories use.
\<close>

unbundle bit_operations_syntax

section \<open>Machine integers\<close>

text \<open>The ARM ABI of the target: char is unsigned, int and long are 32 bits wide.\<close>

type_synonym u8 = "8 word"
type_synonym u32 = "32 word"
type_synonym u64 = "64 word"

text \<open>A signed 32-bit result stored in a register, and a register read as an int.\<close>

definition int_to_reg :: "int \<Rightarrow> u32" where
  "int_to_reg i = word_of_int i"

definition reg_to_int :: "u32 \<Rightarrow> int" where
  "reg_to_int w = sint w"

section \<open>Results\<close>

text \<open>
  What the C code can run into besides returning: a failed assert (assert.h calls panic,
  which disables interrupts and spins), a null or out-of-range access, a division by zero
  (raise.c spins), a loop that never ends, or any other undefined behaviour.
\<close>

datatype kerror = AssertionFailure | NullDeref | OutOfBounds | DivByZero | Diverges | Undefined | KernelPanic

type_synonym 'a res = "kerror + 'a"

definition bind :: "'a res \<Rightarrow> ('a \<Rightarrow> 'b res) \<Rightarrow> 'b res" where
  "bind r f = (case r of Inl e \<Rightarrow> Inl e | Inr x \<Rightarrow> f x)"

lemma bind_Inl [simp]: "bind (Inl e) f = Inl e"
  by (simp add: bind_def)

lemma bind_Inr [simp]: "bind (Inr x) f = f x"
  by (simp add: bind_def)

lemma bind_eq_Inr: "bind r f = Inr y \<longleftrightarrow> (\<exists>x. r = Inr x \<and> f x = Inr y)"
  by (cases r) auto

lemma bind_assoc: "bind (bind r f) g = bind r (\<lambda>x. bind (f x) g)"
  by (cases r) auto

section \<open>Configuration and error numbers\<close>

text \<open>kernel/include/config.h and kernel/include/bits/errno.h.\<close>

definition OS_MAX_TASKS :: nat where "OS_MAX_TASKS = 64"
definition OS_AVAIL_TASKS :: nat where "OS_AVAIL_TASKS = 62"
definition IDLE_PRIO :: nat where "IDLE_PRIO = 63"
definition HIGHEST_PRIO :: u8 where "HIGHEST_PRIO = 0"
definition OS_NUM_MUTEX :: nat where "OS_NUM_MUTEX = 32"
definition USR_START_ADDR :: u32 where "USR_START_ADDR = 0xa0000000"
definition USR_END_ADDR :: u32 where "USR_END_ADDR = 0xa3000000"

definition EPERM :: int where "EPERM = 1"
definition EBADF :: int where "EBADF = 9"
definition ENOMEM :: int where "ENOMEM = 12"
definition EFAULT :: int where "EFAULT = 14"
definition EINVAL :: int where "EINVAL = 22"
definition EDEADLOCK :: int where "EDEADLOCK = 58"
definition EHOLDSLOCK :: int where "EHOLDSLOCK = 60"
definition ESCHED :: int where "ESCHED = 100"

named_theorems config_defs
declare OS_MAX_TASKS_def [config_defs] OS_AVAIL_TASKS_def [config_defs]
  IDLE_PRIO_def [config_defs] HIGHEST_PRIO_def [config_defs] OS_NUM_MUTEX_def [config_defs]
  USR_START_ADDR_def [config_defs] USR_END_ADDR_def [config_defs]

named_theorems errno_defs
declare EPERM_def [errno_defs] EBADF_def [errno_defs] ENOMEM_def [errno_defs]
  EFAULT_def [errno_defs] EINVAL_def [errno_defs] EDEADLOCK_def [errno_defs]
  EHOLDSLOCK_def [errno_defs] ESCHED_def [errno_defs]

section \<open>Words\<close>

lemma bit_unat_iff: "bit (w :: 'a::len word) n \<longleftrightarrow> odd (unat w div 2 ^ n)"
proof -
  have "bit (unat w) n \<longleftrightarrow> bit w n"
    by (simp add: bit_unsigned_iff)
  then show ?thesis by (simp add: bit_iff_odd)
qed

text \<open>A statement about every byte is a statement about 256 numbers.\<close>

lemma u8_range_cases:
  assumes "\<And>n. n \<in> set [0..<256] \<Longrightarrow> P (of_nat n :: u8)"
  shows "P x"
proof -
  have "unat x \<in> set [0..<256]"
    using unsigned_less [of x, where 'a = nat] by simp
  from assms [OF this] show ?thesis by simp
qed

lemma unat_u8_less: "unat (x :: u8) < 256"
  using unsigned_less [of x, where 'a = nat] by simp

lemma unat_u32_max: "unat (w :: u32) = 4294967295 \<longleftrightarrow> w = - 1"
proof -
  have "unat (- 1 :: u32) = 4294967295" by (simp add: unsigned_minus_1_eq_mask mask_eq_exp_minus_1)
  then show ?thesis using unsigned_word_eqI [of w "- 1", where 'a = nat] by metis
qed

lemma sint_of_int_u32: "- (2 ^ 31) \<le> k \<Longrightarrow> k < 2 ^ 31 \<Longrightarrow> sint (word_of_int k :: u32) = k"
  by (simp add: signed_of_int signed_take_bit_int_eq_self)

lemma unat_of_nat_u32: "i < 2 ^ 32 \<Longrightarrow> unat (of_nat i :: u32) = i"
  by (simp add: unat_of_nat take_bit_nat_eq_self)

lemma unat_u32_less: "unat (x :: u32) < 4294967296"
  using unsigned_less [of x, where 'a = nat] by simp

lemma unat_div_mod_8:
  fixes p :: u8
  shows "unat (p mod 8) = unat p mod 8" and "unat (p div 8) = unat p div 8"
  by (simp_all add: unat_mod_distrib unat_div_distrib)


lemma u8_eq_0_iff: "(x :: u8) = 0 \<longleftrightarrow> (\<forall>k<8. \<not> bit x k)"
proof
  assume "\<forall>k<8. \<not> bit x k"
  then show "x = 0" by (intro bit_word_eqI) simp
qed simp

lemma all_less_8: "(\<forall>k<8. P k) \<longleftrightarrow> P 0 \<and> P 1 \<and> P 2 \<and> P 3 \<and> P 4 \<and> P 5 \<and> P 6 \<and> P (7::nat)"
proof -
  have "{..<8} = {0, 1, 2, 3, 4, 5, 6, 7 :: nat}"
    by (auto simp: lessThan_nat_numeral)
  moreover have "(\<forall>k<8. P k) \<longleftrightarrow> (\<forall>k\<in>{..<8}. P k)"
    by auto
  ultimately show ?thesis by simp
qed


lemma div_8_less [simp]: "(p :: nat) < 64 \<Longrightarrow> p div 8 < 8"
  by arith

text \<open>Counting below a bound does not wrap.\<close>

lemma unat_plus_1_u32: "i < (n :: u32) \<Longrightarrow> unat (i + 1) = Suc (unat i)"
proof -
  assume "i < n"
  then have "Suc (unat i) < 4294967296"
    using unat_u32_less [of n] unfolding word_less_nat_alt by linarith
  then show ?thesis by (simp add: unat_word_ariths)
qed

section \<open>Lists\<close>

text \<open>A counted loop that writes every element of a prefix of an array.\<close>

lemma fold_update_prefix:
  "n \<le> length xs \<Longrightarrow> fold (\<lambda>i b. b[i := f i]) [0..<n] xs = map f [0..<n] @ drop n xs"
proof (induction n)
  case (Suc n)
  then have "fold (\<lambda>i b. b[i := f i]) [0..<Suc n] xs = (map f [0..<n] @ drop n xs)[n := f n]"
    by simp
  also have "\<dots> = map f [0..<Suc n] @ drop (Suc n) xs"
    using Suc.prems by (simp add: list_update_append Cons_nth_drop_Suc [symmetric])
  finally show ?case .
qed simp

end
