(* ===== verification/Soft_Float.thy ===== *)
theory Soft_Float
  imports Complex_Main Gravel_Prelude
begin

text \<open>
  The floating point arithmetic of the C code: IEEE rounding to nearest, ties to even, with
  a precision of p bits (24 for float, 53 for double), on the non-negative rationals. The
  values of the kernel stay far from the overflow and the subnormal range, so the exponent
  is not bounded.
\<close>

section \<open>Rounding\<close>

fun nbits :: "nat \<Rightarrow> nat" where
  "nbits n = (if n = 0 then 0 else Suc (nbits (n div 2)))"

declare nbits.simps [simp del]

definition round_even :: "rat \<Rightarrow> int" where
  "round_even x = (let f = \<lfloor>x\<rfloor>; d = x - of_int f
     in if d < 1 / 2 \<or> d = 1 / 2 \<and> even f then f else f + 1)"

text \<open>The exponent of the leading bit of a positive number.\<close>

definition binade :: "rat \<Rightarrow> int" where
  "binade x = (if 1 \<le> x then int (nbits (nat \<lfloor>x\<rfloor>)) - 1 else - int (nbits (nat \<lceil>1 / x\<rceil> - 1)))"

definition pow2 :: "int \<Rightarrow> rat" where
  "pow2 e = (if 0 \<le> e then 2 ^ nat e else 1 / 2 ^ nat (- e))"

definition fl :: "nat \<Rightarrow> rat \<Rightarrow> rat" where
  "fl p x = (if x \<le> 0 then 0
     else let u = pow2 (binade x - int p + 1) in of_int (round_even (x / u)) * u)"

section \<open>Values with infinity and not-a-number\<close>

datatype c_float = Fin rat | PInf | NaN

fun fadd :: "nat \<Rightarrow> c_float \<Rightarrow> c_float \<Rightarrow> c_float" where
  "fadd p (Fin x) (Fin y) = Fin (fl p (x + y))"
| "fadd p NaN _ = NaN"
| "fadd p _ NaN = NaN"
| "fadd p PInf _ = PInf"
| "fadd p _ PInf = PInf"

fun fdiv :: "nat \<Rightarrow> c_float \<Rightarrow> c_float \<Rightarrow> c_float" where
  "fdiv p (Fin x) (Fin y) = (if y = 0 then (if x = 0 then NaN else PInf) else Fin (fl p (x / y)))"
| "fdiv p NaN _ = NaN"
| "fdiv p _ NaN = NaN"
| "fdiv p PInf PInf = NaN"
| "fdiv p PInf (Fin y) = PInf"
| "fdiv p (Fin x) PInf = Fin 0"

text \<open>Comparisons with a NaN are false.\<close>

fun fgt :: "c_float \<Rightarrow> c_float \<Rightarrow> bool" where
  "fgt (Fin x) (Fin y) \<longleftrightarrow> x > y"
| "fgt PInf (Fin y) \<longleftrightarrow> True"
| "fgt _ _ \<longleftrightarrow> False"

text \<open>The number a word stands for, and its conversion.\<close>

definition q32 :: "u32 \<Rightarrow> rat" where
  "q32 w = of_nat (unat w)"

definition float_of_u32 :: "nat \<Rightarrow> u32 \<Rightarrow> c_float" where
  "float_of_u32 p w = Fin (fl p (q32 w))"

section \<open>Error of a rounding\<close>

lemma nbits_numeral:
  "nbits 0 = 0" "nbits 1 = 1" "nbits (Suc 0) = 1"
  "nbits (numeral (Num.Bit0 n)) = Suc (nbits (numeral n))"
  "nbits (numeral (Num.Bit1 n)) = Suc (nbits (numeral n))"
  by (simp_all add: nbits.simps numeral_Bit1_div_2 flip: One_nat_def)

lemma floor_rat_numeral:
  "\<lfloor>numeral a / numeral b :: rat\<rfloor> = numeral a div numeral b"
  "\<lfloor>1 / numeral b :: rat\<rfloor> = 1 div numeral b"
  using floor_divide_of_int_eq [of "numeral a" "numeral b", where ?'a = rat]
    floor_divide_of_int_eq [of 1 "numeral b", where ?'a = rat] by simp_all

lemma ceiling_rat_numeral: "\<lceil>numeral a / numeral b :: rat\<rceil> = - (- numeral a div numeral b)"
  using ceiling_divide_eq_div [of "numeral a" "numeral b", where ?'a = rat] by simp

lemmas fl_eval = fl_def Let_def binade_def nbits_numeral pow2_def round_even_def
  floor_rat_numeral ceiling_rat_numeral

lemma nbits_lt: "n < 2 ^ nbits n"
proof (induction n rule: nbits.induct)
  case (1 n)
  then show ?case by (cases "n = 0") (auto simp: nbits.simps [of n])
qed

lemma nbits_le: "n \<noteq> 0 \<Longrightarrow> 2 ^ nbits n \<le> 2 * n"
proof (induction n rule: nbits.induct)
  case (1 n)
  show ?case
  proof (cases "n = 1")
    case True
    then show ?thesis by (simp add: nbits.simps)
  next
    case False
    then have "n div 2 \<noteq> 0" using 1 by auto
    with 1 have "2 ^ nbits (n div 2) \<le> 2 * (n div 2)" by simp
    then show ?thesis using 1(2) by (subst nbits.simps) simp
  qed
qed

lemma round_even_err: "\<bar>of_int (round_even x) - x\<bar> \<le> 1 / 2"
  by (simp add: round_even_def Let_def abs_if) linarith

lemma round_even_int [simp]: "round_even (of_int i) = i"
  by (simp add: round_even_def)

lemma pow2_pos [simp]: "0 < pow2 e"
  by (simp add: pow2_def)

lemma pow2_nz [simp]: "pow2 e \<noteq> 0"
  using pow2_pos [of e] by linarith

lemma pow2_add: "pow2 (a + b) = pow2 a * pow2 b"
proof -
  have "pow2 e = 2 powi e" for e
    by (simp add: pow2_def power_int_def inverse_eq_divide power_one_over)
  then show ?thesis by (simp add: power_int_add)
qed

lemma binade_le: "0 < x \<Longrightarrow> pow2 (binade x) \<le> x"
proof (cases "1 \<le> x")
  case True
  let ?n = "nat \<lfloor>x\<rfloor>"
  have n: "?n \<noteq> 0" "of_nat ?n \<le> x" using True by (simp, linarith)
  then have pos: "nbits ?n \<noteq> 0" by (subst nbits.simps) simp
  have "(2::nat) ^ (nbits ?n - 1) * 2 = 2 ^ nbits ?n"
    using pos by (metis power_minus_mult mult.commute neq0_conv)
  then have "(2::nat) ^ (nbits ?n - 1) \<le> ?n" using nbits_le [OF n(1)] by linarith
  then have "(2::rat) ^ (nbits ?n - 1) \<le> of_nat ?n"
    by (metis of_nat_le_iff of_nat_numeral of_nat_power)
  moreover have "pow2 (binade x) = 2 ^ (nbits ?n - 1)"
    using True pos by (simp add: binade_def pow2_def nat_diff_distrib)
  ultimately show ?thesis using n(2) by linarith
next
  case False
  assume x: "0 < x"
  let ?m = "nat \<lceil>1 / x\<rceil>"
  have "1 / x \<le> of_nat ?m" using x by linarith
  moreover have "?m \<le> 2 ^ nbits (?m - 1)" using nbits_lt [of "?m - 1"] by linarith
  then have "(of_nat ?m :: rat) \<le> 2 ^ nbits (?m - 1)"
    by (metis of_nat_le_iff of_nat_numeral of_nat_power)
  ultimately have "1 / x \<le> 2 ^ nbits (?m - 1)" by linarith
  then have "1 / 2 ^ nbits (?m - 1) \<le> x"
    using x by (simp add: field_simps)
  moreover have "pow2 (binade x) = 1 / 2 ^ nbits (?m - 1)"
    using False by (simp add: binade_def pow2_def)
  ultimately show ?thesis by simp
qed

lemma fl_err:
  assumes "0 \<le> x" shows "\<bar>fl p x - x\<bar> \<le> x / 2 ^ p"
proof (cases "x = 0")
  case False
  let ?u = "pow2 (binade x - int p + 1)"
  have x: "0 < x" using assms False by simp
  have u: "?u = pow2 (binade x) * (2 / 2 ^ p)"
  proof -
    have "pow2 (1 - int p) = 2 / 2 ^ p"
      by (cases p) (auto simp: pow2_def nat_diff_distrib)
    then show ?thesis using pow2_add [of "binade x" "1 - int p"] by (simp add: algebra_simps)
  qed
  have "\<bar>fl p x - x\<bar> = \<bar>of_int (round_even (x / ?u)) - x / ?u\<bar> * ?u"
  proof -
    have "fl p x - x = (of_int (round_even (x / ?u)) - x / ?u) * ?u"
      using x pow2_pos [of "binade x - int p + 1"] by (simp add: fl_def Let_def left_diff_distrib)
    then show ?thesis by (simp add: abs_mult less_imp_le)
  qed
  also have "\<dots> \<le> 1 / 2 * ?u"
    using round_even_err [of "x / ?u"] by (intro mult_right_mono) (simp_all add: less_imp_le)
  also have "\<dots> = pow2 (binade x) / 2 ^ p" by (simp add: u)
  also have "\<dots> \<le> x / 2 ^ p" using binade_le [OF x] by (simp add: divide_right_mono)
  finally show ?thesis .
qed (simp add: fl_def)

lemma fl_nonneg: "0 \<le> x \<Longrightarrow> 0 \<le> fl p x"
proof (cases "x = 0")
  case False
  assume "0 \<le> x"
  then have "\<lfloor>x / u\<rfloor> \<ge> 0" if "0 < u" for u
    using that by (simp add: divide_nonneg_pos)
  then have "0 \<le> round_even (x / pow2 (binade x - int p + 1))"
    by (simp add: round_even_def Let_def add_increasing2)
  then show ?thesis by (simp add: fl_def Let_def less_imp_le)
qed (simp add: fl_def)

lemma nbits_bound: "n < 2 ^ p \<Longrightarrow> nbits n \<le> p"
proof (cases "n = 0")
  case False
  assume n: "n < 2 ^ p"
  show ?thesis
  proof (rule ccontr)
    assume "\<not> nbits n \<le> p"
    then have "(2::nat) ^ Suc p \<le> 2 ^ nbits n" by (intro power_increasing) auto
    then show False using nbits_le [OF False] n by simp
  qed
qed (simp add: nbits.simps)

lemma fl_exact:
  assumes "n < 2 ^ p" shows "fl p (of_nat n) = of_nat n"
proof (cases "n = 0")
  case False
  have nb: "nbits n \<le> p" by (rule nbits_bound [OF assms])
  have b: "binade (of_nat n) = int (nbits n) - 1"
    using False by (simp add: binade_def)
  let ?u = "pow2 (binade (of_nat n) - int p + 1)"
  have "?u = 1 / 2 ^ (p - nbits n)"
    using nb by (auto simp: b pow2_def nat_diff_distrib)
  then have u: "of_nat n / ?u = of_int (int (n * 2 ^ (p - nbits n)))" by simp
  have "round_even (of_nat n / ?u) = int (n * 2 ^ (p - nbits n))"
    unfolding u by (rule round_even_int)
  then have "of_int (round_even (of_nat n / ?u)) = of_nat n / ?u" by (simp only: u)
  then show ?thesis
    using False pow2_pos [of "binade (of_nat n) - int p + 1"] by (simp add: fl_def Let_def)
qed (simp add: fl_def)


text \<open>A double just below a whole number is rounded to it.\<close>

lemma round_even_near: "\<bar>of_int i - x\<bar> < 1 / 2 \<Longrightarrow> round_even x = i"
  using round_even_err [of x] by linarith

lemma fl_near:
  assumes "n < 2 ^ p" "1 \<le> x" "x \<le> of_nat n" "(of_nat n - x) * 2 ^ Suc p < x"
  shows "fl p x = of_nat n"
proof -
  let ?f = "nat \<lfloor>x\<rfloor>"
  have f: "x < of_nat (?f + 1)" "of_nat ?f \<le> x" using assms(2) of_nat_floor [of x] by (simp, linarith, simp)
  then have "?f \<le> n" using assms(3) of_nat_le_iff [of ?f n, where 'a = rat] by linarith
  then have nb: "nbits ?f \<le> p" using assms(1) by (intro nbits_bound) (rule le_less_trans)
  have "nbits ?f \<noteq> 0" using assms(2) by (subst nbits.simps) simp
  then have b: "binade x - int p + 1 = - int (p - nbits ?f)"
    using assms(2) nb by (simp add: binade_def)
  let ?u = "pow2 (binade x - int p + 1)"
  have u: "?u = 1 / 2 ^ (p - nbits ?f)" unfolding b by (simp add: pow2_def nat_diff_distrib)
  have "?f + 1 \<le> 2 ^ nbits ?f" using nbits_lt [of ?f] by linarith
  then have "(of_nat (?f + 1) :: rat) \<le> 2 ^ nbits ?f" by (metis of_nat_le_iff of_nat_numeral of_nat_power)
  then have "x < 2 ^ nbits ?f" using f(1) by linarith
  then have "x * 2 ^ (p - nbits ?f) < 2 ^ nbits ?f * 2 ^ (p - nbits ?f)" by (intro mult_strict_right_mono) auto
  also have "\<dots> = (2 :: rat) ^ p" using nb by (simp flip: power_add)
  finally have top: "x * 2 ^ (p - nbits ?f) < 2 ^ p" .
  have "(of_nat n - x) * 2 ^ (p - nbits ?f) * 2 ^ Suc p < x * 2 ^ (p - nbits ?f)"
    using mult_strict_right_mono [OF assms(4), of "2 ^ (p - nbits ?f)"] by (simp add: ac_simps)
  then have "((of_nat n - x) * 2 ^ (p - nbits ?f) * 2) * 2 ^ p < 1 * 2 ^ p"
    using top by (simp only: power_Suc mult.assoc mult_1)
  then have "(of_nat n - x) * 2 ^ (p - nbits ?f) < 1 / 2"
    by (subst (asm) mult_less_cancel_right_pos) simp_all
  moreover have "0 \<le> (of_nat n - x) * 2 ^ (p - nbits ?f)" using assms(3) by simp
  ultimately have near: "\<bar>of_int (int (n * 2 ^ (p - nbits ?f))) - x / ?u\<bar> < 1 / 2"
    unfolding u by (simp add: left_diff_distrib)
  have "round_even (x / ?u) = int (n * 2 ^ (p - nbits ?f))" by (rule round_even_near [OF near])
  then have "fl p x = of_int (int (n * 2 ^ (p - nbits ?f))) * ?u"
    using assms(2) by (simp add: fl_def Let_def)
  then show ?thesis unfolding u by simp
qed

lemma q32_nonneg [simp]: "0 \<le> q32 w"
  unfolding q32_def by (rule of_nat_0_le_iff)

lemma q32_0 [simp]: "q32 0 = 0"
  by (simp add: q32_def)

lemma q32_pos [simp]: "0 < q32 w \<longleftrightarrow> w \<noteq> 0"
  unfolding q32_def of_nat_0_less_iff by (rule unat_gt_0)

end
