(* ===== verification/Ready_Queue_Spec.thy ===== *)
theory Ready_Queue_Spec
  imports Gravel_Prelude
begin

text \<open>
  The interface through which the dispatcher uses the ready queue: a map from priorities
  to tcbs whose smallest key is the task to run next. The laws are what run_queue.c
  promises; the dispatcher's facts about taking the most urgent task follow from them.
\<close>

locale ready_queue =
  fixes init :: "'q \<Rightarrow> 'q"
    and add :: "'q \<Rightarrow> nat option \<Rightarrow> u8 \<Rightarrow> 'q res"
    and remove :: "'q \<Rightarrow> u8 \<Rightarrow> (nat option \<times> 'q) res"
    and highest :: "'q \<Rightarrow> u8"
    and shape :: "'q \<Rightarrow> bool"
    and wf :: "'q \<Rightarrow> bool"
    and ready :: "'q \<Rightarrow> nat \<rightharpoonup> nat"
  assumes wf_shape: "wf q \<Longrightarrow> shape q"
    and init_wf: "shape q \<Longrightarrow> wf (init q)"
    and init_ready: "shape q \<Longrightarrow> ready (init q) = Map.empty"
    and ready_bound: "wf q \<Longrightarrow> r \<in> dom (ready q) \<Longrightarrow> r < 64"
    and add_ok: "wf q \<Longrightarrow> unat p < 64 \<Longrightarrow>
      \<exists>q'. add q (Some t) p = Inr q' \<and> wf q' \<and> ready q' = (ready q)(unat p \<mapsto> t)"
    and remove_ok: "wf q \<Longrightarrow> ready q (unat p) = Some t \<Longrightarrow>
      \<exists>q'. remove q p = Inr (Some t, q') \<and> wf q' \<and> ready q' = (ready q)(unat p := None)"
    and remove_absent: "wf q \<Longrightarrow> unat p < 64 \<Longrightarrow> ready q (unat p) = None \<Longrightarrow>
      remove q p = Inl AssertionFailure"
    and highest_in: "wf q \<Longrightarrow> ready q \<noteq> Map.empty \<Longrightarrow> unat (highest q) \<in> dom (ready q)"
    and highest_least: "wf q \<Longrightarrow> r \<in> dom (ready q) \<Longrightarrow> unat (highest q) \<le> r"
    and highest_empty: "wf q \<Longrightarrow> ready q = Map.empty \<Longrightarrow> highest q = 0"
begin

lemma highest_bound: "wf q \<Longrightarrow> unat (highest q) < 64"
  using ready_bound highest_in highest_empty by fastforce

lemma highest_Min: "wf q \<Longrightarrow> ready q \<noteq> Map.empty \<Longrightarrow> unat (highest q) = Min (dom (ready q))"
proof -
  assume *: "wf q" "ready q \<noteq> Map.empty"
  have "finite (dom (ready q))"
    using ready_bound [OF *(1)] by (meson finite_nat_set_iff_bounded)
  then show ?thesis
    using highest_in [OF *] highest_least [OF *(1)] by (intro Min_eqI [symmetric]) auto
qed

text \<open>Taking the most urgent task fails exactly on the empty queue.\<close>

lemma pop_ok:
  assumes "wf q" and "ready q \<noteq> Map.empty"
  shows "\<exists>t q'. remove q (highest q) = Inr (Some t, q') \<and> wf q'
     \<and> ready q (unat (highest q)) = Some t \<and> ready q' = (ready q)(unat (highest q) := None)"
  using highest_in [OF assms] remove_ok [OF assms(1)] by blast

lemma pop_empty:
  assumes "wf q" and "ready q = Map.empty"
  shows "remove q (highest q) = Inl AssertionFailure"
  using assms highest_empty by (intro remove_absent) simp_all

text \<open>A task added below every ready one is the next to be taken.\<close>

lemma add_then_highest:
  assumes "wf q" and "unat p < 64" and "\<And>r. r \<in> dom (ready q) \<Longrightarrow> unat p \<le> r"
    and "add q (Some t) p = Inr q'"
  shows "highest q' = p"
proof -
  have q': "wf q'" "ready q' = (ready q)(unat p \<mapsto> t)"
    using add_ok [OF assms(1,2), of t] assms(4) by auto
  then have "unat (highest q') \<le> unat p"
    by (intro highest_least) auto
  moreover have "unat (highest q') \<in> insert (unat p) (dom (ready q))"
    using highest_in [of q'] q' by auto
  then have "unat p \<le> unat (highest q')"
    using assms(3) by auto
  ultimately show ?thesis by (simp add: word_unat_eq_iff)
qed

end

end
