(* ===== verification/Run_Queue.thy ===== *)
theory Run_Queue
  imports Ready_Queue_Spec
begin

text \<open>
  kernel/sched/run_queue.c: the bitmap trie of runnable priorities. The three static
  arrays are one record; a tcb pointer is the index of the tcb in system_tcb, or None for
  NULL. The abstraction of a queue is the map from priorities to tcbs it represents.
\<close>

section \<open>State and operations\<close>

type_synonym tcb_ptr = "nat option"

definition NUM_RUN_GROUP :: u8 where "NUM_RUN_GROUP = 8"

record run_queue =
  run_list :: "tcb_ptr list"
  run_bits :: "u8 list"
  group_run_bits :: u8

text \<open>The macros: the shifted int is truncated to the byte it is combined with.\<close>

definition SET_BIT :: "u8 \<Rightarrow> u8 \<Rightarrow> u8" where
  "SET_BIT x y = x OR push_bit (unat y) 1"

definition CLEAR_BIT :: "u8 \<Rightarrow> u8 \<Rightarrow> u8" where
  "CLEAR_BIT x y = x AND NOT (push_bit (unat y) 1)"

definition prio_unmap_table :: "u8 list" where
  "prio_unmap_table = [
     0, 0, 1, 0, 2, 0, 1, 0, 3, 0, 1, 0, 2, 0, 1, 0,
     4, 0, 1, 0, 2, 0, 1, 0, 3, 0, 1, 0, 2, 0, 1, 0,
     5, 0, 1, 0, 2, 0, 1, 0, 3, 0, 1, 0, 2, 0, 1, 0,
     4, 0, 1, 0, 2, 0, 1, 0, 3, 0, 1, 0, 2, 0, 1, 0,
     6, 0, 1, 0, 2, 0, 1, 0, 3, 0, 1, 0, 2, 0, 1, 0,
     4, 0, 1, 0, 2, 0, 1, 0, 3, 0, 1, 0, 2, 0, 1, 0,
     5, 0, 1, 0, 2, 0, 1, 0, 3, 0, 1, 0, 2, 0, 1, 0,
     4, 0, 1, 0, 2, 0, 1, 0, 3, 0, 1, 0, 2, 0, 1, 0,
     7, 0, 1, 0, 2, 0, 1, 0, 3, 0, 1, 0, 2, 0, 1, 0,
     4, 0, 1, 0, 2, 0, 1, 0, 3, 0, 1, 0, 2, 0, 1, 0,
     5, 0, 1, 0, 2, 0, 1, 0, 3, 0, 1, 0, 2, 0, 1, 0,
     4, 0, 1, 0, 2, 0, 1, 0, 3, 0, 1, 0, 2, 0, 1, 0,
     6, 0, 1, 0, 2, 0, 1, 0, 3, 0, 1, 0, 2, 0, 1, 0,
     4, 0, 1, 0, 2, 0, 1, 0, 3, 0, 1, 0, 2, 0, 1, 0,
     5, 0, 1, 0, 2, 0, 1, 0, 3, 0, 1, 0, 2, 0, 1, 0,
     4, 0, 1, 0, 2, 0, 1, 0, 3, 0, 1, 0, 2, 0, 1, 0]"

text \<open>Clears the bitmaps only: the pointers in run_list stay as they are.\<close>

definition clear_run_bits :: "u8 list \<Rightarrow> u8 list" where
  "clear_run_bits bits = fold (\<lambda>i b. b[i := 0]) [0..<OS_MAX_TASKS div 8] bits"

definition runqueue_init :: "run_queue \<Rightarrow> run_queue" where
  "runqueue_init rq =
     (let rq1 = rq\<lparr>group_run_bits := 0\<rparr>
      in rq1\<lparr>run_bits := clear_run_bits (run_bits rq1)\<rparr>)"

definition runqueue_add :: "run_queue \<Rightarrow> tcb_ptr \<Rightarrow> u8 \<Rightarrow> run_queue res" where
  "runqueue_add rq tcb prio =
     (let group_id = prio div NUM_RUN_GROUP;
          bt = prio mod NUM_RUN_GROUP
      in if length (run_bits rq) \<le> unat group_id \<or> length (run_list rq) \<le> unat prio
         then Inl OutOfBounds
         else Inr (rq\<lparr>group_run_bits := SET_BIT (group_run_bits rq) group_id,
                      run_bits := (run_bits rq)[unat group_id :=
                                     SET_BIT (run_bits rq ! unat group_id) bt],
                      run_list := (run_list rq)[unat prio := tcb]\<rparr>))"

definition runqueue_remove :: "run_queue \<Rightarrow> u8 \<Rightarrow> (tcb_ptr \<times> run_queue) res" where
  "runqueue_remove rq prio =
     (let group_id = prio div NUM_RUN_GROUP;
          bt = prio mod NUM_RUN_GROUP
      in if length (run_bits rq) \<le> unat group_id \<or> length (run_list rq) \<le> unat prio
         then Inl OutOfBounds
         else if run_bits rq ! unat group_id AND push_bit (unat bt) 1 = 0
         then Inl AssertionFailure
         else if run_list rq ! unat prio = None
         then Inl AssertionFailure
         else
           let cleared = CLEAR_BIT (run_bits rq ! unat group_id) bt;
               rq1 = rq\<lparr>run_bits := (run_bits rq)[unat group_id := cleared]\<rparr>;
               rq2 = (if cleared = 0
                      then rq1\<lparr>group_run_bits := CLEAR_BIT (group_run_bits rq1) group_id\<rparr>
                      else rq1);
               ret = run_list rq2 ! unat prio
           in Inr (ret, rq2\<lparr>run_list := (run_list rq2)[unat prio := None]\<rparr>))"

definition highest_prio :: "run_queue \<Rightarrow> u8" where
  "highest_prio rq =
     (let group_id = prio_unmap_table ! unat (group_run_bits rq);
          bt = prio_unmap_table ! unat (run_bits rq ! unat group_id)
      in group_id * NUM_RUN_GROUP + bt)"


section \<open>Invariant and abstraction\<close>

definition prio_bit :: "run_queue \<Rightarrow> nat \<Rightarrow> bool" where
  "prio_bit rq p \<longleftrightarrow> p < 64 \<and> bit (run_bits rq ! (p div 8)) (p mod 8)"

definition rq_wf :: "run_queue \<Rightarrow> bool" where
  "rq_wf rq \<longleftrightarrow> length (run_list rq) = 64 \<and> length (run_bits rq) = 8
     \<and> (\<forall>g<8. bit (group_run_bits rq) g \<longleftrightarrow> run_bits rq ! g \<noteq> 0)
     \<and> (\<forall>p. prio_bit rq p \<longrightarrow> run_list rq ! p \<noteq> None)"

text \<open>The queue a well-formed trie stands for: priority to tcb index.\<close>

definition rq_abs :: "run_queue \<Rightarrow> nat \<rightharpoonup> nat" where
  "rq_abs rq p = (if prio_bit rq p then run_list rq ! p else None)"

subsection \<open>Bits\<close>

lemma bit_SET_BIT: "k < 8 \<Longrightarrow> bit (SET_BIT x y) k \<longleftrightarrow> bit x k \<or> k = unat y"
  by (auto simp: SET_BIT_def bit_simps)

lemma bit_CLEAR_BIT: "k < 8 \<Longrightarrow> bit (CLEAR_BIT x y) k \<longleftrightarrow> bit x k \<and> k \<noteq> unat y"
  by (auto simp: CLEAR_BIT_def bit_simps)

lemma SET_BIT_nonzero: "unat y < 8 \<Longrightarrow> SET_BIT x y \<noteq> 0"
  using bit_SET_BIT [of "unat y" x y] by auto

text \<open>The unmap table gives the lowest set bit of a byte, and 0 for 0.\<close>

definition lowest_bit :: "nat \<Rightarrow> nat" where
  "lowest_bit n = (if odd n then 0 else if odd (n div 2) then 1 else if odd (n div 4) then 2
     else if odd (n div 8) then 3 else if odd (n div 16) then 4 else if odd (n div 32) then 5
     else if odd (n div 64) then 6 else if odd (n div 128) then 7 else 0)"

lemma unmap_table_eq: "map unat prio_unmap_table = map lowest_bit [0..<256]"
  by (simp add: prio_unmap_table_def lowest_bit_def upt_rec)

lemma length_unmap_table: "length prio_unmap_table = 256"
  by (simp add: prio_unmap_table_def)

lemma unmap_table_nth:
  assumes "n < 256" shows "unat (prio_unmap_table ! n) = lowest_bit n"
  using arg_cong [OF unmap_table_eq, of "\<lambda>xs. xs ! n"] assms
  by (simp add: length_unmap_table)

lemma lowest_bit_word:
  "lowest_bit (unat (x :: u8)) = (if bit x 0 then 0 else if bit x 1 then 1 else if bit x 2 then 2
     else if bit x 3 then 3 else if bit x 4 then 4 else if bit x 5 then 5
     else if bit x 6 then 6 else if bit x 7 then 7 else 0)"
  by (simp add: lowest_bit_def bit_unat_iff)

lemma unmap_table_lowest:
  fixes x :: u8
  assumes "x \<noteq> 0"
  shows "unat (prio_unmap_table ! unat x) < 8"
    and "bit x (unat (prio_unmap_table ! unat x))"
    and "k < unat (prio_unmap_table ! unat x) \<Longrightarrow> \<not> bit x k"
proof -
  have eq: "unat (prio_unmap_table ! unat x) = lowest_bit (unat x)"
    using unsigned_less [of x, where 'a = nat] by (simp add: unmap_table_nth)
  have ex: "\<not> (\<not> bit x 0 \<and> \<not> bit x 1 \<and> \<not> bit x 2 \<and> \<not> bit x 3 \<and> \<not> bit x 4 \<and> \<not> bit x 5 \<and> \<not> bit x 6 \<and> \<not> bit x 7)"
    using assms by (simp add: u8_eq_0_iff all_less_8)
  show "unat (prio_unmap_table ! unat x) < 8"
    unfolding eq lowest_bit_word by simp
  show "bit x (unat (prio_unmap_table ! unat x))"
    unfolding eq lowest_bit_word using ex by auto
  have "\<forall>k<8. k < lowest_bit (unat x) \<longrightarrow> \<not> bit x k"
    unfolding all_less_8 lowest_bit_word by simp
  then show "k < unat (prio_unmap_table ! unat x) \<Longrightarrow> \<not> bit x k"
    using \<open>unat (prio_unmap_table ! unat x) < 8\<close> unfolding eq by simp
qed

lemma unmap_table_0: "prio_unmap_table ! 0 = 0"
  by (simp add: prio_unmap_table_def)

subsection \<open>The operations on the represented map\<close>

definition rq_shape :: "run_queue \<Rightarrow> bool" where
  "rq_shape rq \<longleftrightarrow> length (run_list rq) = 64 \<and> length (run_bits rq) = 8"

lemma rq_wf_shape: "rq_wf rq \<Longrightarrow> rq_shape rq"
  by (simp add: rq_wf_def rq_shape_def)

lemma dom_rq_abs: "rq_wf rq \<Longrightarrow> dom (rq_abs rq) = {p. prio_bit rq p}"
  by (auto simp: rq_wf_def rq_abs_def dom_def)

lemma prio_bit_lt: "prio_bit rq p \<Longrightarrow> p < 64"
  by (simp add: prio_bit_def)

lemma div_mod_8_eq: "(p :: nat) div 8 = q div 8 \<and> p mod 8 = q mod 8 \<longleftrightarrow> p = q"
  by (metis div_mult_mod_eq)

lemma clear_run_bits_eq: "length bits = 8 \<Longrightarrow> clear_run_bits bits = replicate 8 0"
  using fold_update_prefix [of 8 bits "\<lambda>_. 0"]
  by (simp add: clear_run_bits_def OS_MAX_TASKS_def map_replicate_const)

lemma runqueue_init_bits:
  "rq_shape rq \<Longrightarrow> run_bits (runqueue_init rq) = replicate 8 0
     \<and> group_run_bits (runqueue_init rq) = 0 \<and> run_list (runqueue_init rq) = run_list rq"
  by (simp add: rq_shape_def runqueue_init_def clear_run_bits_eq)

lemma prio_bit_init: "rq_shape rq \<Longrightarrow> \<not> prio_bit (runqueue_init rq) p"
  by (auto simp: prio_bit_def runqueue_init_bits)

lemma runqueue_init_wf: "rq_shape rq \<Longrightarrow> rq_wf (runqueue_init rq)"
  by (simp add: rq_wf_def prio_bit_init runqueue_init_bits rq_shape_def)

lemma runqueue_init_abs: "rq_shape rq \<Longrightarrow> rq_abs (runqueue_init rq) = Map.empty"
  by (simp add: rq_abs_def prio_bit_init fun_eq_iff)

lemma runqueue_add_ok:
  assumes wf: "rq_wf rq" and p: "unat p < 64"
  shows "\<exists>rq'. runqueue_add rq (Some t) p = Inr rq' \<and> rq_wf rq'
           \<and> rq_abs rq' = (rq_abs rq)(unat p \<mapsto> t)"
proof -
  let ?g = "unat p div 8" and ?b = "unat p mod 8"
  define rq' where "rq' = rq\<lparr>group_run_bits := SET_BIT (group_run_bits rq) (p div 8),
      run_bits := (run_bits rq)[?g := SET_BIT (run_bits rq ! ?g) (p mod 8)],
      run_list := (run_list rq)[unat p := Some t]\<rparr>"
  have g: "?g < 8" using p by simp
  have len: "length (run_list rq) = 64" "length (run_bits rq) = 8"
    using wf by (simp_all add: rq_wf_def)
  have run: "runqueue_add rq (Some t) p = Inr rq'"
    using g p len by (simp add: runqueue_add_def rq'_def Let_def NUM_RUN_GROUP_def unat_div_mod_8)
  have bits: "prio_bit rq' q \<longleftrightarrow> prio_bit rq q \<or> q = unat p" for q
    using g p len div_mod_8_eq [of q "unat p"]
    by (auto simp: prio_bit_def rq'_def bit_SET_BIT unat_div_mod_8 nth_list_update)
  have "rq_wf rq'"
    unfolding rq_wf_def
  proof (intro conjI allI impI)
    show "length (run_list rq') = 64" "length (run_bits rq') = 8"
      using len by (simp_all add: rq'_def)
  next
    fix k :: nat assume "k < 8"
    then show "bit (group_run_bits rq') k \<longleftrightarrow> run_bits rq' ! k \<noteq> 0"
      using wf g len
      by (auto simp: rq'_def rq_wf_def bit_SET_BIT unat_div_mod_8 nth_list_update SET_BIT_nonzero)
  next
    fix q assume "prio_bit rq' q"
    then show "run_list rq' ! q \<noteq> None"
      using wf p len unfolding bits by (auto simp: rq_wf_def rq'_def nth_list_update)
  qed
  moreover have "rq_abs rq' = (rq_abs rq)(unat p \<mapsto> t)"
    using p len by (auto simp: fun_eq_iff rq_abs_def bits) (auto simp: rq'_def)
  ultimately show ?thesis using run by blast
qed


lemma runqueue_remove_ok:
  assumes wf: "rq_wf rq" and mem: "rq_abs rq (unat p) = Some t"
  shows "\<exists>rq'. runqueue_remove rq p = Inr (Some t, rq') \<and> rq_wf rq'
           \<and> rq_abs rq' = (rq_abs rq)(unat p := None)"
proof -
  let ?g = "unat p div 8" and ?b = "unat p mod 8"
  let ?cl = "CLEAR_BIT (run_bits rq ! ?g) (p mod 8)"
  have set: "prio_bit rq (unat p)" and t: "run_list rq ! unat p = Some t"
    using mem by (auto simp: rq_abs_def split: if_splits)
  have p: "unat p < 64" and g: "?g < 8"
    using prio_bit_lt [OF set] by auto
  have len: "length (run_list rq) = 64" "length (run_bits rq) = 8"
    using wf by (simp_all add: rq_wf_def)
  define rq' where "rq' = rq\<lparr>run_bits := (run_bits rq)[?g := ?cl],
      group_run_bits := (if ?cl = 0 then CLEAR_BIT (group_run_bits rq) (p div 8)
                         else group_run_bits rq),
      run_list := (run_list rq)[unat p := None]\<rparr>"
  have run: "runqueue_remove rq p = Inr (Some t, rq')"
    using g p len t set
    by (simp add: runqueue_remove_def rq'_def Let_def NUM_RUN_GROUP_def unat_div_mod_8
        and_exp_eq_0_iff_not_bit not_le prio_bit_def)
  have bits: "prio_bit rq' q \<longleftrightarrow> prio_bit rq q \<and> q \<noteq> unat p" for q
    using g p len div_mod_8_eq [of q "unat p"]
    by (auto simp: prio_bit_def rq'_def bit_CLEAR_BIT unat_div_mod_8 nth_list_update)
  have "rq_wf rq'"
    unfolding rq_wf_def
  proof (intro conjI allI impI)
    show "length (run_list rq') = 64" "length (run_bits rq') = 8"
      using len by (simp_all add: rq'_def)
  next
    fix k :: nat assume k: "k < 8"
    have "bit (group_run_bits rq) k \<longleftrightarrow> run_bits rq ! k \<noteq> 0"
      using wf k by (simp add: rq_wf_def)
    moreover have "run_bits rq ! ?g \<noteq> 0"
      using set by (auto simp: prio_bit_def)
    ultimately show "bit (group_run_bits rq') k \<longleftrightarrow> run_bits rq' ! k \<noteq> 0"
      using k g len
      by (auto simp: rq'_def bit_CLEAR_BIT unat_div_mod_8 nth_list_update)
  next
    fix q assume "prio_bit rq' q"
    then show "run_list rq' ! q \<noteq> None"
      using wf p len unfolding bits by (auto simp: rq_wf_def rq'_def nth_list_update)
  qed
  moreover have "rq_abs rq' = (rq_abs rq)(unat p := None)"
    by (auto simp: fun_eq_iff rq_abs_def bits) (auto simp: rq'_def)
  ultimately show ?thesis using run by blast
qed

lemma runqueue_remove_absent:
  assumes wf: "rq_wf rq" and p: "unat p < 64" and "rq_abs rq (unat p) = None"
  shows "runqueue_remove rq p = Inl AssertionFailure"
proof -
  have "\<not> prio_bit rq (unat p)"
    using assms by (auto simp: rq_abs_def rq_wf_def split: if_splits)
  then show ?thesis
    using wf p
    by (simp add: runqueue_remove_def Let_def NUM_RUN_GROUP_def unat_div_mod_8 and_exp_eq_0_iff_not_bit not_le
        prio_bit_def rq_wf_def)
qed

lemma highest_prio_split:
  assumes wf: "rq_wf rq" and ne: "rq_abs rq \<noteq> Map.empty"
  obtains g b where "g < 8" "b < 8" "unat (highest_prio rq) = 8 * g + b"
    "bit (run_bits rq ! g) b"
    "\<And>k. k < g \<Longrightarrow> run_bits rq ! k = 0" "\<And>k. k < b \<Longrightarrow> \<not> bit (run_bits rq ! g) k"
proof -
  define g where "g = unat (prio_unmap_table ! unat (group_run_bits rq))"
  define b where "b = unat (prio_unmap_table ! unat (run_bits rq ! g))"
  have groups: "\<And>k. k < 8 \<Longrightarrow> bit (group_run_bits rq) k \<longleftrightarrow> run_bits rq ! k \<noteq> 0"
    using wf by (simp add: rq_wf_def)
  obtain q where q: "prio_bit rq q"
    using ne wf by (auto simp: rq_abs_def fun_eq_iff split: if_splits)
  then have "run_bits rq ! (q div 8) \<noteq> 0" and "q div 8 < 8"
    by (auto simp: prio_bit_def)
  then have nz: "group_run_bits rq \<noteq> 0"
    using groups [of "q div 8"] by auto
  note gl = unmap_table_lowest [OF nz, folded g_def]
  have nzb: "run_bits rq ! g \<noteq> 0"
    using groups gl by blast
  note bl = unmap_table_lowest [OF nzb, folded b_def]
  have "unat (highest_prio rq) = 8 * g + b"
    using gl(1) bl(1)
    by (simp add: highest_prio_def Let_def NUM_RUN_GROUP_def unat_word_ariths g_def [symmetric]
        b_def [symmetric])
  moreover have "run_bits rq ! k = 0" if "k < g" for k
    using groups [of k] gl(1) gl(3) [OF that] that by auto
  ultimately show ?thesis
    using gl bl that by blast
qed

lemma highest_prio_in:
  assumes "rq_wf rq" and "rq_abs rq \<noteq> Map.empty"
  shows "unat (highest_prio rq) \<in> dom (rq_abs rq)"
  using assms by (rule highest_prio_split) (auto simp: dom_rq_abs [OF assms(1)] prio_bit_def)

lemma highest_prio_least:
  assumes wf: "rq_wf rq" and q: "q \<in> dom (rq_abs rq)"
  shows "unat (highest_prio rq) \<le> q"
proof -
  have ne: "rq_abs rq \<noteq> Map.empty" using q by auto
  have bitq: "bit (run_bits rq ! (q div 8)) (q mod 8)"
    using q wf by (auto simp: dom_rq_abs prio_bit_def)
  obtain g b where gb: "g < 8" "b < 8" "unat (highest_prio rq) = 8 * g + b"
    and low: "\<And>k. k < g \<Longrightarrow> run_bits rq ! k = 0" "\<And>k. k < b \<Longrightarrow> \<not> bit (run_bits rq ! g) k"
    using highest_prio_split [OF wf ne] by metis
  have "g \<le> q div 8"
    using low(1) [of "q div 8"] bitq by (metis bit_0_eq bot_apply bot_bool_def not_le)
  moreover have "q div 8 = g \<Longrightarrow> b \<le> q mod 8"
    using low(2) [of "q mod 8"] bitq by (metis not_le)
  ultimately show ?thesis
    using gb by (cases "q div 8 = g") (metis add_mono_thms_linordered_semiring(2) div_mult_mod_eq mult.commute, linarith)
qed

lemma highest_prio_empty:
  assumes wf: "rq_wf rq" and "rq_abs rq = Map.empty"
  shows "highest_prio rq = 0"
proof -
  have none: "\<not> prio_bit rq p" for p
    using assms dom_rq_abs [OF wf] by auto
  have zero: "run_bits rq ! g = 0" if "g < 8" for g
    unfolding u8_eq_0_iff
  proof (intro allI impI)
    fix k :: nat assume "k < 8"
    then show "\<not> bit (run_bits rq ! g) k"
      using none [of "8 * g + k"] that by (simp add: prio_bit_def)
  qed
  have "group_run_bits rq = 0"
    using wf zero by (simp add: u8_eq_0_iff [of "group_run_bits rq"] rq_wf_def)
  then show ?thesis
    using zero [of 0] by (simp add: highest_prio_def unmap_table_0)
qed

lemma rq_abs_bound: "rq_wf rq \<Longrightarrow> p \<in> dom (rq_abs rq) \<Longrightarrow> p < 64"
  by (simp add: dom_rq_abs prio_bit_lt)

interpretation rq: ready_queue runqueue_init runqueue_add runqueue_remove highest_prio
  rq_shape rq_wf rq_abs
  by unfold_locales
    (simp_all add: rq_wf_shape runqueue_init_wf runqueue_init_abs rq_abs_bound runqueue_add_ok
      runqueue_remove_ok runqueue_remove_absent highest_prio_in highest_prio_least
      highest_prio_empty)

end
