(* ===== verification/Kernel_State.thy ===== *)
theory Kernel_State
  imports Run_Queue
begin

text \<open>
  The global state of the kernel: the structs of task.h, lock.h and device.c, every static
  variable of the C files, the interrupt bits of the CPSR, the memory-mapped registers of
  arm/reg.h, the memory and the serial line of U-Boot. All tcb pointers of the code point
  into system_tcb, so a pointer is an index, and the sleep queues are linked lists through
  the sleep_queue field of the tcbs.
\<close>

section \<open>Contexts and tasks\<close>

text \<open>
  A saved context resumes where its lr points, on the kernel stack its sp points to. The
  places a thread of this kernel can be suspended at are few: a task that never ran
  (launch_task), the idle loop, the sleep inside mutex_lock with its two locals, the sleep
  inside dev_wait, and dispatch_save called by the timer interrupt, either over user code
  or over the window of dev_wait between queueing and sleeping.
\<close>

datatype resume_point =
    At_launch_task
  | At_idle
  | In_mutex_lock (lk_mutex: nat) (lk_tcb: nat)
  | In_dev_wait
  | In_irq_over_user
  | In_irq_over_dev_wait

record sched_context =
  r4 :: u32
  r5 :: u32
  r6 :: u32
  r7 :: u32
  r8 :: u32
  r9 :: u32
  r10 :: u32
  r11 :: u32
  sp_lr :: resume_point

record tcb =
  native_prio :: u8
  cur_prio :: u8
  kcontext :: sched_context
  holds_lock :: int
  sleep_queue :: tcb_ptr

text \<open>The descriptor a user program passes to task_create.\<close>

record task_t =
  lambda :: u32
  data :: u32
  stack_pos :: u32
  C_time :: u32
  T_period :: u32
  B_time :: u32

section \<open>Mutexes and devices\<close>

record mutex_t =
  bAvailable :: bool
  pHolding_Tcb :: tcb_ptr
  bLock :: bool
  pSleep_queue :: tcb_ptr

record dev_t =
  dev_sleep_queue :: tcb_ptr
  next_match :: u32

section \<open>The kernel\<close>

record kstate =
  system_tcb :: "tcb list"
  run_q :: run_queue
  cur_tcb :: tcb_ptr
  gtMutex :: "mutex_t list"
  cur_mutex_num :: int
  devices :: "dev_t list"
  sys_time :: u32
  last_clock :: u32
  global_data :: u32
  uboot_handler_addr :: "u32 list"
  instruction_backup :: "(u32 \<times> u32) list"
  cpu :: sched_context
  cpsr :: u32
  periph :: "u32 \<Rightarrow> u32"
  mem :: "u32 \<Rightarrow> u8"
  uart_in :: "u8 list"
  uart_out :: "u8 list"

text \<open>The bss at the start of kmain, after app_startup cleared it.\<close>

definition zero_context :: sched_context where
  "zero_context = \<lparr>r4 = 0, r5 = 0, r6 = 0, r7 = 0, r8 = 0, r9 = 0, r10 = 0, r11 = 0,
     sp_lr = At_launch_task\<rparr>"

definition zero_tcb :: tcb where
  "zero_tcb = \<lparr>native_prio = 0, cur_prio = 0, kcontext = zero_context, holds_lock = 0,
     sleep_queue = None\<rparr>"

definition zero_mutex :: mutex_t where
  "zero_mutex = \<lparr>bAvailable = False, pHolding_Tcb = None, bLock = False, pSleep_queue = None\<rparr>"

definition zero_dev :: dev_t where
  "zero_dev = \<lparr>dev_sleep_queue = None, next_match = 0\<rparr>"

definition zero_run_queue :: run_queue where
  "zero_run_queue = \<lparr>run_list = replicate 64 None, run_bits = replicate 8 0, group_run_bits = 0\<rparr>"

definition app_startup :: "kstate \<Rightarrow> kstate" where
  "app_startup s = s\<lparr>system_tcb := replicate OS_MAX_TASKS zero_tcb, run_q := zero_run_queue,
     cur_tcb := None, gtMutex := replicate OS_NUM_MUTEX zero_mutex, cur_mutex_num := 0,
     devices := replicate 4 zero_dev, sys_time := 0, last_clock := 0, global_data := 0,
     uboot_handler_addr := replicate 7 0, instruction_backup := replicate 7 (0, 0)\<rparr>"

text \<open>A machine with blank memory and no input, for concrete runs.\<close>

definition blank_machine :: kstate where
  "blank_machine = \<lparr>system_tcb = [], run_q = zero_run_queue, cur_tcb = None, gtMutex = [],
     cur_mutex_num = 0, devices = [], sys_time = 0, last_clock = 0, global_data = 0,
     uboot_handler_addr = [], instruction_backup = [], cpu = zero_context, cpsr = 0xd3,
     periph = (\<lambda>_. 0), mem = (\<lambda>_. 0), uart_in = [], uart_out = []\<rparr>"

section \<open>Pointers and fields\<close>

definition deref :: "kstate \<Rightarrow> tcb_ptr \<Rightarrow> nat res" where
  "deref s p = (case p of None \<Rightarrow> Inl NullDeref
     | Some i \<Rightarrow> if i < length (system_tcb s) then Inr i else Inl OutOfBounds)"

definition upd_tcb :: "kstate \<Rightarrow> nat \<Rightarrow> (tcb \<Rightarrow> tcb) \<Rightarrow> kstate" where
  "upd_tcb s i f = s\<lparr>system_tcb := (system_tcb s)[i := f (system_tcb s ! i)]\<rparr>"

definition upd_mutex :: "kstate \<Rightarrow> nat \<Rightarrow> (mutex_t \<Rightarrow> mutex_t) \<Rightarrow> kstate" where
  "upd_mutex s m f = s\<lparr>gtMutex := (gtMutex s)[m := f (gtMutex s ! m)]\<rparr>"

definition upd_dev :: "kstate \<Rightarrow> nat \<Rightarrow> (dev_t \<Rightarrow> dev_t) \<Rightarrow> kstate" where
  "upd_dev s d f = s\<lparr>devices := (devices s)[d := f (devices s ! d)]\<rparr>"

section \<open>Interrupts and registers\<close>

definition PSR_IRQ :: u32 where "PSR_IRQ = 0x80"
definition PSR_FIQ :: u32 where "PSR_FIQ = 0x40"
definition PSR_MODE_USR :: u32 where "PSR_MODE_USR = 0x10"

definition enable_interrupts :: "kstate \<Rightarrow> kstate" where
  "enable_interrupts s = s\<lparr>cpsr := cpsr s AND NOT (PSR_IRQ OR PSR_FIQ)\<rparr>"

definition disable_interrupts :: "kstate \<Rightarrow> kstate" where
  "disable_interrupts s = s\<lparr>cpsr := cpsr s OR (PSR_IRQ OR PSR_FIQ)\<rparr>"

definition irq_enabled :: "kstate \<Rightarrow> bool" where
  "irq_enabled s \<longleftrightarrow> cpsr s AND (PSR_IRQ OR PSR_FIQ) = 0"

definition PERIPHERAL_BASE :: u32 where "PERIPHERAL_BASE = 0x40000000"

definition reg_read :: "kstate \<Rightarrow> u32 \<Rightarrow> u32" where
  "reg_read s addr = periph s (PERIPHERAL_BASE + addr)"

definition reg_write :: "kstate \<Rightarrow> u32 \<Rightarrow> u32 \<Rightarrow> kstate" where
  "reg_write s addr d = s\<lparr>periph := (periph s)(PERIPHERAL_BASE + addr := d)\<rparr>"

definition reg_set :: "kstate \<Rightarrow> u32 \<Rightarrow> u32 \<Rightarrow> kstate" where
  "reg_set s addr flags =
     s\<lparr>periph := (periph s)(PERIPHERAL_BASE + addr := periph s (PERIPHERAL_BASE + addr) OR flags)\<rparr>"

definition reg_clear :: "kstate \<Rightarrow> u32 \<Rightarrow> u32 \<Rightarrow> kstate" where
  "reg_clear s addr flags =
     s\<lparr>periph := (periph s)(PERIPHERAL_BASE + addr :=
        periph s (PERIPHERAL_BASE + addr) AND NOT flags)\<rparr>"

lemma irq_enabled_enable [simp]: "irq_enabled (enable_interrupts s)"
  unfolding irq_enabled_def enable_interrupts_def
  by (auto simp: and.assoc bit_eq_iff bit_simps)

lemma irq_enabled_disable [simp]: "\<not> irq_enabled (disable_interrupts s)"
proof
  assume "irq_enabled (disable_interrupts s)"
  then have "bit ((cpsr s OR (PSR_IRQ OR PSR_FIQ)) AND (PSR_IRQ OR PSR_FIQ)) 7 \<longleftrightarrow> bit (0 :: u32) 7"
    by (simp add: irq_enabled_def disable_interrupts_def)
  then show False
    by (simp add: bit_simps PSR_IRQ_def PSR_FIQ_def)
qed

section \<open>Sleep queues\<close>

text \<open>The tasks on a sleep queue, from its head along the sleep_queue links.\<close>

fun sleep_list :: "tcb list \<Rightarrow> tcb_ptr \<Rightarrow> nat list \<Rightarrow> bool" where
  "sleep_list tcbs p [] \<longleftrightarrow> p = None"
| "sleep_list tcbs p (x # xs) \<longleftrightarrow>
     p = Some x \<and> x < length tcbs \<and> sleep_list tcbs (sleep_queue (tcbs ! x)) xs"

lemma sleep_list_None [simp]: "sleep_list tcbs None xs \<longleftrightarrow> xs = []"
  by (cases xs) auto

lemma sleep_list_Some:
  "sleep_list tcbs (Some x) xs \<longleftrightarrow>
     (\<exists>ys. xs = x # ys \<and> x < length tcbs \<and> sleep_list tcbs (sleep_queue (tcbs ! x)) ys)"
  by (cases xs) auto

lemma sleep_list_bound: "sleep_list tcbs p xs \<Longrightarrow> x \<in> set xs \<Longrightarrow> x < length tcbs"
  by (induction xs arbitrary: p) auto

lemma sleep_list_cong:
  assumes "length tcbs' = length tcbs"
    and "\<And>x. x \<in> set xs \<Longrightarrow> sleep_queue (tcbs' ! x) = sleep_queue (tcbs ! x)"
  shows "sleep_list tcbs' p xs \<longleftrightarrow> sleep_list tcbs p xs"
  using assms(2) by (induction xs arbitrary: p) (auto simp: assms(1))

lemma sleep_list_update:
  "t \<notin> set xs \<Longrightarrow> sleep_list (tcbs[t := u]) p xs \<longleftrightarrow> sleep_list tcbs p xs"
  by (rule sleep_list_cong) (simp, metis nth_list_update_neq)

lemma sleep_list_unique: "sleep_list tcbs p xs \<Longrightarrow> sleep_list tcbs p ys \<Longrightarrow> xs = ys"
proof (induction xs arbitrary: p ys)
  case Nil
  then show ?case by (cases ys) auto
next
  case (Cons x xs)
  then obtain zs where "ys = x # zs" by (cases ys) auto
  with Cons show ?case by auto
qed

lemma sleep_list_suffix:
  "sleep_list tcbs p (xs @ y # ys) \<Longrightarrow> sleep_list tcbs (Some y) (y # ys)"
  by (induction xs arbitrary: p) auto

lemma sleep_list_distinct: "sleep_list tcbs p xs \<Longrightarrow> distinct xs"
proof (induction xs arbitrary: p)
  case (Cons x xs)
  have "x \<notin> set xs"
  proof
    assume "x \<in> set xs"
    then obtain us vs where xs: "xs = us @ x # vs"
      by (auto dest: split_list)
    with Cons.prems have "sleep_list tcbs (Some x) (x # vs)" and p: "p = Some x"
      using sleep_list_suffix [of tcbs p "x # us" x vs] by auto
    with Cons.prems have "x # xs = x # vs"
      by (intro sleep_list_unique [of tcbs p]) (simp_all only: p)
    with xs show False by simp
  qed
  with Cons show ?case by auto
qed simp

end
