(* ===== verification/Timer.thy ===== *)
theory Timer
  imports Soft_Float Kernel_State
begin

text \<open>
  kernel/syscall/time.c with arm/timer.h: system time in milliseconds, the match register
  of the OS timer and the sleep system call. sys_time is volatile: it moves while sleep
  runs, so a sleep is given the list of the values its reads will see.
\<close>

section \<open>Registers\<close>

definition OSTMR_OSMR_ADDR :: "u32 \<Rightarrow> u32" where "OSTMR_OSMR_ADDR x = 0x00A00000 + x * 4"
definition OSTMR_OSCR_ADDR :: u32 where "OSTMR_OSCR_ADDR = 0x00A00010"
definition OSTMR_OSSR_ADDR :: u32 where "OSTMR_OSSR_ADDR = 0x00A00014"
definition OSTMR_OSSR_M0 :: u32 where "OSTMR_OSSR_M0 = 1"
definition OSTMR_OIER_ADDR :: u32 where "OSTMR_OIER_ADDR = 0x00A0001C"
definition OSTMR_OIER_E0 :: u32 where "OSTMR_OIER_E0 = 1"
definition TIMER_0 :: u32 where "TIMER_0 = 0"
definition TIME_RESOLUTION :: u32 where "TIME_RESOLUTION = 5"
definition OSTMR_FREQ_KHZ :: rat where "OSTMR_FREQ_KHZ = 36864 / 10"

definition INT_ICMR_ADDR :: u32 where "INT_ICMR_ADDR = 0x00D00004"
definition INT_ICLR_ADDR :: u32 where "INT_ICLR_ADDR = 0x00D00008"
definition INT_ICPR_ADDR :: u32 where "INT_ICPR_ADDR = 0x00D00010"
definition INT_OSTMR_0 :: nat where "INT_OSTMR_0 = 26"

section \<open>Operations\<close>

definition time_syscall :: "kstate \<Rightarrow> u32" where
  "time_syscall s = sys_time s"

text \<open>
  The loop of sleep_syscall over the readings of the clock: the rest of the readings when it
  returns, None while it still spins.
\<close>

fun sleep_loop :: "u32 \<Rightarrow> u32 \<Rightarrow> u32 list \<Rightarrow> u32 list option" where
  "sleep_loop deadline now [] = (if deadline > now then None else Some [])"
| "sleep_loop deadline now (r # rs) =
     (if deadline > now then sleep_loop deadline r rs else Some (r # rs))"

fun sleep_syscall :: "u32 \<Rightarrow> u32 list \<Rightarrow> u32 list option" where
  "sleep_syscall millis (r0 # r1 # rs) =
     (let deadline = r0 + millis; now = r1 in sleep_loop deadline now rs)"
| "sleep_syscall millis _ = None"

text \<open>
  The match time is computed in double precision. Converting a double outside the range of
  uint32_t is undefined in C.
\<close>

definition update_timer :: "kstate \<Rightarrow> u32 \<Rightarrow> kstate res" where
  "update_timer s millis =
     (let freq = fl 53 OSTMR_FREQ_KHZ;
          delta = fl 53 (q32 millis * freq);
          final_time = fl 53 (q32 (reg_read s OSTMR_OSCR_ADDR) + delta)
      in if \<lfloor>final_time\<rfloor> < 2 ^ 32
         then Inr (reg_write s (OSTMR_OSMR_ADDR TIMER_0) (word_of_int \<lfloor>final_time\<rfloor>))
         else Inl Undefined)"

definition init_timer :: "kstate \<Rightarrow> kstate res" where
  "init_timer s0 =
     (let s = s0\<lparr>sys_time := 0\<rparr>;
          s1 = s\<lparr>last_clock := reg_read s OSTMR_OSCR_ADDR\<rparr>
      in bind (update_timer s1 TIME_RESOLUTION) (\<lambda>s2.
           let s3 = reg_set s2 OSTMR_OIER_ADDR OSTMR_OIER_E0;
               s4 = reg_clear s3 INT_ICLR_ADDR (push_bit INT_OSTMR_0 1)
           in Inr (reg_set s4 INT_ICMR_ADDR (push_bit INT_OSTMR_0 1))))"

text \<open>The name sub of the source, which no code calls.\<close>

definition sub_clock :: "u32 \<Rightarrow> u32 \<Rightarrow> u32" where
  "sub_clock this that =
     (if this < that then (0xffffffff - that) + 1 + this else this - that)"

section \<open>The timer\<close>

text \<open>Five milliseconds are 18432 ticks; the double product has no rounding error.\<close>

lemma five_millis: "fl 53 (q32 TIME_RESOLUTION * fl 53 OSTMR_FREQ_KHZ) = 18432"
proof -
  have freq: "fl 53 OSTMR_FREQ_KHZ = 8106479329266893 / 2199023255552"
    by (simp add: OSTMR_FREQ_KHZ_def fl_eval)
  have "fl 53 (5 * (8106479329266893 / 2199023255552)) = 18432"
    by (simp add: fl_eval)
  then show ?thesis unfolding freq by (simp add: q32_def TIME_RESOLUTION_def)
qed

lemma final_time_exact:
  "fl 53 (q32 w + 18432) = of_nat (unat w + 18432)"
proof -
  have "unat w + 18432 < 2 ^ 53" using unat_u32_less [of w] by simp
  then show ?thesis using fl_exact [of "unat w + 18432" 53] unfolding q32_def by simp
qed

lemma update_timer_eq:
  "update_timer s TIME_RESOLUTION =
    (if unat (reg_read s OSTMR_OSCR_ADDR) + 18432 < 2 ^ 32
     then Inr (reg_write s (OSTMR_OSMR_ADDR TIMER_0) (reg_read s OSTMR_OSCR_ADDR + 18432))
     else Inl Undefined)"
proof -
  let ?w = "reg_read s OSTMR_OSCR_ADDR"
  have "\<lfloor>fl 53 (q32 ?w + 18432)\<rfloor> = int (unat ?w + 18432)"
    unfolding final_time_exact by (rule floor_of_nat)
  moreover have "(word_of_int (int (unat ?w + 18432)) :: u32) = ?w + 18432"
    by simp
  moreover have "int (unat ?w + 18432) < 2 ^ 32 \<longleftrightarrow> unat ?w + 18432 < 2 ^ 32"
    using of_nat_less_iff [of "unat ?w + 18432" "2 ^ 32", where 'a = int] by (simp del: of_nat_add)
  ultimately show ?thesis
    unfolding update_timer_def Let_def five_millis by (simp only: if_cancel)
qed

text \<open>
  C27: Setting the timer for the next tick is exact as long as the counter has a tick left
  before it wraps: the match register is 18432 counts, five milliseconds, ahead. In the last
  18432 counts the conversion from double is undefined.
\<close>

theorem update_timer_exact:
  "update_timer s TIME_RESOLUTION =
    (if unat (reg_read s OSTMR_OSCR_ADDR) < 2 ^ 32 - 18432
     then Inr (reg_write s (OSTMR_OSMR_ADDR TIMER_0) (reg_read s OSTMR_OSCR_ADDR + 18432))
     else Inl Undefined)"
  unfolding update_timer_eq by (rule if_cong) auto

text \<open>The subtraction that avoids an underflow is the word subtraction.\<close>

theorem sub_clock_eq: "sub_clock this that = this - that"
  by (simp add: sub_clock_def)

section \<open>Sleep\<close>

lemma sleep_loop_spec:
  "sleep_loop deadline now rs = Some rest \<longleftrightarrow>
     (\<exists>k\<le>length rs. rest = drop k rs \<and> (now # rs) ! k \<ge> deadline \<and> (\<forall>j<k. (now # rs) ! j < deadline))"
proof (induction rs arbitrary: now)
  case Nil
  then show ?case by (auto simp: not_less)
next
  case (Cons r rs)
  show ?case
  proof (cases "deadline > now")
    case True
    have "(\<exists>k\<le>length rs. rest = drop k rs \<and> (r # rs) ! k \<ge> deadline \<and> (\<forall>j<k. (r # rs) ! j < deadline))
      \<longleftrightarrow> (\<exists>k\<le>length (r # rs). rest = drop k (r # rs) \<and> (now # r # rs) ! k \<ge> deadline
            \<and> (\<forall>j<k. (now # r # rs) ! j < deadline))" (is "?l \<longleftrightarrow> ?r")
    proof
      assume ?l
      then obtain k where "k \<le> length rs" "rest = drop k rs" "(r # rs) ! k \<ge> deadline"
        "\<forall>j<k. (r # rs) ! j < deadline" by blast
      then show ?r using True by (intro exI [of _ "Suc k"]) (auto simp: less_Suc_eq_0_disj)
    next
      assume ?r
      then obtain k where k: "k \<le> length (r # rs)" "rest = drop k (r # rs)"
        "(now # r # rs) ! k \<ge> deadline" "\<forall>j<k. (now # r # rs) ! j < deadline" by blast
      then obtain k' where "k = Suc k'" using True by (cases k) auto
      then show ?l using k by (intro exI [of _ k']) (auto dest: spec [of _ "Suc _"])
    qed
    then show ?thesis using True Cons.IH [of r] by simp
  next
    case False
    have zero: "(\<forall>j<k. (now # r # rs) ! j < deadline) \<longleftrightarrow> k = 0" for k
      using False by (cases k) auto
    show ?thesis using False unfolding zero by (auto simp: not_less)
  qed
qed



text \<open>
  A sleep whose deadline wraps around 2 to the 32 returns at once.
\<close>

theorem sleep_syscall_wraps:
  assumes "unat t0 + unat millis \<ge> 2 ^ 32"
  shows "sleep_syscall millis (t0 # t0 # rs) = Some rs"
proof -
  have "unat (t0 + millis) = unat t0 + unat millis - 2 ^ 32"
    using assms unat_u32_less [of t0] unat_u32_less [of millis]
    by (simp add: unat_word_ariths mod_if)
  then have "\<not> t0 < t0 + millis"
    using unat_u32_less [of millis] by (simp add: word_less_nat_alt)
  then show ?thesis by (cases rs) simp_all
qed

theorem sleep_syscall_wraps_witness:
  "sleep_syscall 0xffffffff [5, 5, 6, 7] = Some [6, 7]"
  by (rule sleep_syscall_wraps) simp

end
