(* ===== verification/Sched.thy ===== *)
theory Sched
  imports Kernel_State
begin

text \<open>
  kernel/sched/sched.c, ctx_switch.c and ctx_switch_asm.S: setting up the tcbs of a task
  set, and the three dispatchers. A context switch stores the live registers in the
  context of one tcb and loads them from another; what runs next is the resume point now
  in the registers.
\<close>

section \<open>Context switch\<close>

definition ctx_switch_full :: "kstate \<Rightarrow> nat \<Rightarrow> nat \<Rightarrow> kstate" where
  "ctx_switch_full s next_t cur_t =
     (let s1 = upd_tcb s cur_t (\<lambda>t. t\<lparr>kcontext := cpu s\<rparr>)
      in s1\<lparr>cpu := kcontext (system_tcb s1 ! next_t)\<rparr>)"

definition ctx_switch_half :: "kstate \<Rightarrow> nat \<Rightarrow> kstate" where
  "ctx_switch_half s next_t = s\<lparr>cpu := kcontext (system_tcb s ! next_t)\<rparr>"

text \<open>The call of a dispatcher leaves its return address and stack in lr and sp.\<close>

definition calling_from :: "kstate \<Rightarrow> resume_point \<Rightarrow> kstate" where
  "calling_from s k = s\<lparr>cpu := (cpu s)\<lparr>sp_lr := k\<rparr>\<rparr>"

section \<open>Dispatchers\<close>

text \<open>dispatch_init only prints.\<close>

definition dispatch_init :: "kstate \<Rightarrow> tcb_ptr \<Rightarrow> kstate" where
  "dispatch_init s idle = s"

text \<open>The flag says whether a context switch took place.\<close>

definition dispatch_save :: "kstate \<Rightarrow> resume_point \<Rightarrow> (bool \<times> kstate) res" where
  "dispatch_save s k =
     bind (deref s (cur_tcb s)) (\<lambda>c.
       if cur_prio (system_tcb s ! c) > highest_prio (run_q s)
       then bind (runqueue_add (run_q s) (cur_tcb s) (cur_prio (system_tcb s ! c))) (\<lambda>q1.
            bind (runqueue_remove q1 (highest_prio q1)) (\<lambda>(task_to_switch, q2).
              let s1 = s\<lparr>run_q := q2\<rparr>;
                  s2 = s1\<lparr>cur_tcb := task_to_switch\<rparr>
              in bind (deref s2 task_to_switch) (\<lambda>n.
                   Inr (True, ctx_switch_full (calling_from s2 k) n c))))
       else Inr (False, s))"

definition dispatch_nosave :: "kstate \<Rightarrow> kstate res" where
  "dispatch_nosave s =
     bind (runqueue_remove (run_q s) (highest_prio (run_q s))) (\<lambda>(task_to_switch, q1).
       let s1 = s\<lparr>run_q := q1, cur_tcb := task_to_switch\<rparr>
       in bind (deref s1 task_to_switch) (\<lambda>n. Inr (ctx_switch_half s1 n)))"

definition dispatch_sleep :: "kstate \<Rightarrow> resume_point \<Rightarrow> kstate res" where
  "dispatch_sleep s k =
     bind (runqueue_remove (run_q s) (highest_prio (run_q s))) (\<lambda>(task_to_switch, q1).
       let tmp = cur_tcb s;
           s1 = s\<lparr>run_q := q1, cur_tcb := task_to_switch\<rparr>
       in bind (deref s1 task_to_switch) (\<lambda>n.
          bind (deref s1 tmp) (\<lambda>c.
            Inr (ctx_switch_full (calling_from s1 k) n c))))"

definition get_cur_prio :: "kstate \<Rightarrow> u8 res" where
  "get_cur_prio s = bind (deref s (cur_tcb s)) (\<lambda>c. Inr (cur_prio (system_tcb s ! c)))"

definition get_cur_tcb :: "kstate \<Rightarrow> tcb_ptr" where
  "get_cur_tcb s = cur_tcb s"

definition sched_init :: "kstate \<Rightarrow> kstate res" where
  "sched_init s = dispatch_nosave s"

section \<open>Setting up the tasks\<close>

text \<open>
  One turn of the loop over the task descriptors, for index j: the tcb is the one after,
  because priority 0 is kept for the holder of a mutex.
\<close>

definition task_tcb :: "u32 \<Rightarrow> task_t \<Rightarrow> nat \<Rightarrow> tcb \<Rightarrow> tcb" where
  "task_tcb gd t i x = x\<lparr>native_prio := of_nat i, cur_prio := of_nat i,
     kcontext := (kcontext x)\<lparr>r4 := lambda t, r5 := data t, r6 := stack_pos t, r8 := gd,
                    sp_lr := At_launch_task\<rparr>,
     holds_lock := 0, sleep_queue := None\<rparr>"

definition allocate_task :: "(u32 \<Rightarrow> task_t) \<Rightarrow> u32 list \<Rightarrow> nat \<Rightarrow> kstate \<Rightarrow> kstate res" where
  "allocate_task rd tasks j s =
     (let i = j + 1 in
      if i \<ge> length (system_tcb s) \<or> j \<ge> length tasks then Inl OutOfBounds
      else
        let s1 = upd_tcb s i (task_tcb (global_data s) (rd (tasks ! j)) i)
        in bind (runqueue_add (run_q s1) (Some i) (of_nat i)) (\<lambda>q. Inr (s1\<lparr>run_q := q\<rparr>)))"

fun allocate_loop :: "(u32 \<Rightarrow> task_t) \<Rightarrow> u32 list \<Rightarrow> nat \<Rightarrow> kstate \<Rightarrow> kstate res" where
  "allocate_loop rd tasks 0 s = Inr s"
| "allocate_loop rd tasks (Suc j) s =
     bind (allocate_task rd tasks j s) (allocate_loop rd tasks j)"

definition idle_tcb :: "u32 \<Rightarrow> tcb \<Rightarrow> tcb" where
  "idle_tcb gd x = x\<lparr>native_prio := of_nat IDLE_PRIO, cur_prio := of_nat IDLE_PRIO, holds_lock := 0,
     kcontext := \<lparr>r4 = 0, r5 = 0, r6 = 0, r7 = 0, r8 = gd, r9 = 0, r10 = 0, r11 = 0,
                  sp_lr = At_idle\<rparr>\<rparr>"

definition allocate_idle :: "kstate \<Rightarrow> kstate res" where
  "allocate_idle s =
     (if IDLE_PRIO \<ge> length (system_tcb s) then Inl OutOfBounds
      else
        let s1 = upd_tcb s IDLE_PRIO (idle_tcb (global_data s))
        in bind (runqueue_add (run_q s1) (Some IDLE_PRIO) (of_nat IDLE_PRIO))
             (\<lambda>q. Inr (s1\<lparr>run_q := q\<rparr>)))"

definition allocate_tasks :: "(u32 \<Rightarrow> task_t) \<Rightarrow> u32 list \<Rightarrow> nat \<Rightarrow> kstate \<Rightarrow> kstate res" where
  "allocate_tasks rd tasks num_tasks s =
     bind (allocate_loop rd tasks num_tasks (s\<lparr>run_q := runqueue_init (run_q s)\<rparr>)) allocate_idle"

section \<open>Where control continues\<close>

text \<open>
  launch_task moves the three registers it was given to the entry point, the argument and
  the user stack pointer, and enters user mode with interrupts on; idle enables interrupts
  and spins.
\<close>

definition launch_task :: "kstate \<Rightarrow> kstate \<times> u32 \<times> u32 \<times> u32" where
  "launch_task s =
     (let c = cpu s
      in (s\<lparr>cpsr := (cpsr s AND NOT 0xff) OR PSR_MODE_USR,
            cpu := c\<lparr>r5 := 0, r6 := 0, r8 := 0\<rparr>\<rparr>, r4 c, r5 c, r6 c))"

definition idle :: "kstate \<Rightarrow> kstate" where
  "idle s = enable_interrupts s"


section \<open>Lemmas\<close>

lemma unat_of_nat_u8: "i < 256 \<Longrightarrow> unat (of_nat i :: u8) = i"
  by (simp add: unat_of_nat)

lemma deref_Some: "i < length (system_tcb s) \<Longrightarrow> deref s (Some i) = Inr i"
  by (simp add: deref_def)

lemma deref_eq_Inr: "deref s p = Inr i \<longleftrightarrow> p = Some i \<and> i < length (system_tcb s)"
  by (auto simp: deref_def split: option.splits)

lemma deref_cong: "system_tcb s' = system_tcb s \<Longrightarrow> deref s' p = deref s p"
  by (simp add: deref_def split: option.split)

text \<open>The tcbs and the queue after the loop: every task is ready at its own priority.\<close>

lemma allocate_loop_ok:
  assumes "rq_wf (run_q s)" and "length (system_tcb s) = 64"
    and "n \<le> 62" and "n \<le> length tasks"
  shows "\<exists>s'. allocate_loop rd tasks n s = Inr s'
    \<and> s' = s\<lparr>system_tcb := system_tcb s', run_q := run_q s'\<rparr>
    \<and> rq_wf (run_q s') \<and> length (system_tcb s') = 64
    \<and> rq_abs (run_q s') = (\<lambda>p. if 1 \<le> p \<and> p \<le> n then Some p else rq_abs (run_q s) p)
    \<and> (\<forall>i. system_tcb s' ! i = (if 1 \<le> i \<and> i \<le> n
         then task_tcb (global_data s) (rd (tasks ! (i - 1))) i (system_tcb s ! i)
         else system_tcb s ! i))"
  using assms
proof (induction n arbitrary: s)
  case 0
  then show ?case by auto
next
  case (Suc n)
  let ?i = "Suc n"
  define s1 where "s1 = upd_tcb s ?i (task_tcb (global_data s) (rd (tasks ! n)) ?i)"
  have i: "unat (of_nat ?i :: u8) = ?i"
    using Suc.prems(3) by (intro unat_of_nat_u8) simp
  then obtain q where q: "runqueue_add (run_q s) (Some ?i) (of_nat ?i) = Inr q" "rq_wf q"
    "rq_abs q = (rq_abs (run_q s))(?i \<mapsto> ?i)"
    using runqueue_add_ok [OF Suc.prems(1), of "of_nat ?i" ?i] Suc.prems(3) by auto
  define s2 where "s2 = s1\<lparr>run_q := q\<rparr>"
  have step: "allocate_task rd tasks n s = Inr s2"
    using Suc.prems q(1) by (simp add: allocate_task_def Let_def upd_tcb_def s1_def s2_def)
  have s2: "run_q s2 = q" "length (system_tcb s2) = 64" "global_data s2 = global_data s"
    using Suc.prems(2) by (simp_all add: s1_def s2_def upd_tcb_def)
  have tcbs: "system_tcb s2 = (system_tcb s)[?i := task_tcb (global_data s) (rd (tasks ! n)) ?i (system_tcb s ! ?i)]"
    by (simp add: s1_def s2_def upd_tcb_def)
  obtain s' where s': "allocate_loop rd tasks n s2 = Inr s'"
    "s' = s2\<lparr>system_tcb := system_tcb s', run_q := run_q s'\<rparr>"
    "rq_wf (run_q s')" "length (system_tcb s') = 64"
    "rq_abs (run_q s') = (\<lambda>p. if 1 \<le> p \<and> p \<le> n then Some p else rq_abs q p)"
    "\<forall>i. system_tcb s' ! i = (if 1 \<le> i \<and> i \<le> n
         then task_tcb (global_data s) (rd (tasks ! (i - 1))) i (system_tcb s2 ! i)
         else system_tcb s2 ! i)"
    using Suc.IH [of s2, unfolded s2] Suc.prems q(2) by (auto simp del: One_nat_def)
  have "allocate_loop rd tasks (Suc n) s = Inr s'"
    using step s'(1) by simp
  moreover have "s' = s\<lparr>system_tcb := system_tcb s', run_q := run_q s'\<rparr>"
    using s'(2) by (simp add: s1_def s2_def upd_tcb_def)
  moreover have "rq_abs (run_q s') = (\<lambda>p. if 1 \<le> p \<and> p \<le> Suc n then Some p else rq_abs (run_q s) p)"
    using s'(5) q(3) by (auto simp: fun_eq_iff)
  moreover have "\<forall>i. system_tcb s' ! i = (if 1 \<le> i \<and> i \<le> Suc n
         then task_tcb (global_data s) (rd (tasks ! (i - 1))) i (system_tcb s ! i)
         else system_tcb s ! i)"
    using s'(6) Suc.prems(2,3) by (auto simp: tcbs nth_list_update)
  ultimately show ?case using s'(3,4) by blast
qed


lemma allocate_idle_ok:
  assumes "rq_wf (run_q s)" and "length (system_tcb s) = 64"
  shows "\<exists>q. allocate_idle s = Inr (s\<lparr>
      system_tcb := (system_tcb s)[63 := idle_tcb (global_data s) (system_tcb s ! 63)], run_q := q\<rparr>)
    \<and> rq_wf q \<and> rq_abs q = (rq_abs (run_q s))(63 \<mapsto> 63)"
proof -
  obtain q where "runqueue_add (run_q s) (Some 63) 63 = Inr q" "rq_wf q"
    "rq_abs q = (rq_abs (run_q s))(63 \<mapsto> 63)"
    using runqueue_add_ok [OF assms(1), of 63 63] by auto
  then show ?thesis
    using assms(2) by (auto simp: allocate_idle_def IDLE_PRIO_def upd_tcb_def)
qed

text \<open>The ready map that allocate_tasks leaves: the n tasks and the idle task.\<close>

definition fresh_ready :: "nat \<Rightarrow> nat \<rightharpoonup> nat" where
  "fresh_ready n p = (if 1 \<le> p \<and> p \<le> n \<or> p = 63 then Some p else None)"

lemma allocate_tasks_ok:
  assumes "rq_shape (run_q s)" and "length (system_tcb s) = 64"
    and "n \<le> 62" and "n \<le> length tasks"
  shows "\<exists>s'. allocate_tasks rd tasks n s = Inr s'
    \<and> s' = s\<lparr>system_tcb := system_tcb s', run_q := run_q s'\<rparr>
    \<and> rq_wf (run_q s') \<and> length (system_tcb s') = 64 \<and> rq_abs (run_q s') = fresh_ready n
    \<and> (\<forall>i<64. system_tcb s' ! i = (if 1 \<le> i \<and> i \<le> n
         then task_tcb (global_data s) (rd (tasks ! (i - 1))) i (system_tcb s ! i)
         else if i = 63 then idle_tcb (global_data s) (system_tcb s ! i)
         else system_tcb s ! i))"
proof -
  define s1 where "s1 = s\<lparr>run_q := runqueue_init (run_q s)\<rparr>"
  have s1: "rq_wf (run_q s1)" "rq_abs (run_q s1) = Map.empty" "length (system_tcb s1) = 64"
    "system_tcb s1 = system_tcb s" "global_data s1 = global_data s"
    using assms(1,2) by (simp_all add: s1_def runqueue_init_wf runqueue_init_abs)
  obtain s2 where s2: "allocate_loop rd tasks n s1 = Inr s2"
    "s2 = s1\<lparr>system_tcb := system_tcb s2, run_q := run_q s2\<rparr>" "rq_wf (run_q s2)"
    "length (system_tcb s2) = 64"
    "rq_abs (run_q s2) = (\<lambda>p. if 1 \<le> p \<and> p \<le> n then Some p else None)"
    "\<forall>i. system_tcb s2 ! i = (if 1 \<le> i \<and> i \<le> n
         then task_tcb (global_data s) (rd (tasks ! (i - 1))) i (system_tcb s ! i)
         else system_tcb s ! i)"
    using allocate_loop_ok [OF s1(1,3) assms(3,4), of rd] unfolding s1(2,4,5) by auto
  obtain q where q: "allocate_idle s2 = Inr (s2\<lparr>
      system_tcb := (system_tcb s2)[63 := idle_tcb (global_data s2) (system_tcb s2 ! 63)], run_q := q\<rparr>)"
    "rq_wf q" "rq_abs q = (rq_abs (run_q s2))(63 \<mapsto> 63)"
    using allocate_idle_ok [OF s2(3,4)] by blast
  obtain tcbs2 q2 where s2_eq: "s2 = s1\<lparr>system_tcb := tcbs2, run_q := q2\<rparr>"
    using s2(2) by blast
  have gd: "global_data s2 = global_data s" "tcbs2 = system_tcb s2" "q2 = run_q s2"
    unfolding s2_eq by (simp_all add: s1_def)
  let ?s' = "s2\<lparr>
      system_tcb := (system_tcb s2)[63 := idle_tcb (global_data s2) (system_tcb s2 ! 63)], run_q := q\<rparr>"
  have "allocate_tasks rd tasks n s = Inr ?s'"
    using s2(1) q(1) by (simp add: allocate_tasks_def s1_def)
  moreover have "?s' = s\<lparr>system_tcb := system_tcb ?s', run_q := run_q ?s'\<rparr>"
    unfolding s2_eq by (simp add: s1_def)
  moreover have "rq_abs (run_q ?s') = fresh_ready n"
    using q(3) s2(5) assms(3) by (auto simp: fresh_ready_def fun_eq_iff)
  moreover have "\<forall>i<64. system_tcb ?s' ! i = (if 1 \<le> i \<and> i \<le> n
         then task_tcb (global_data s) (rd (tasks ! (i - 1))) i (system_tcb s ! i)
         else if i = 63 then idle_tcb (global_data s) (system_tcb s ! i)
         else system_tcb s ! i)"
    using s2(4,6) assms(3) by (auto simp: gd nth_list_update)
  ultimately show ?thesis
    using q(2) s2(4) by (intro exI [of _ ?s']) simp
qed

text \<open>Every task the queue holds has a tcb.\<close>

definition ready_valid :: "kstate \<Rightarrow> bool" where
  "ready_valid s \<longleftrightarrow> (\<forall>p t. rq_abs (run_q s) p = Some t \<longrightarrow> t < length (system_tcb s))"

lemma dispatch_sleep_ok:
  assumes wf: "rq_wf (run_q s)" and ne: "rq_abs (run_q s) \<noteq> Map.empty" and val: "ready_valid s"
    and c: "cur_tcb s = Some c" "c < length (system_tcb s)"
  shows "\<exists>n q. rq_abs (run_q s) (unat (highest_prio (run_q s))) = Some n \<and> n < length (system_tcb s)
    \<and> dispatch_sleep s k = Inr (ctx_switch_full (calling_from (s\<lparr>run_q := q, cur_tcb := Some n\<rparr>) k) n c)
    \<and> rq_wf q \<and> rq_abs q = (rq_abs (run_q s))(unat (highest_prio (run_q s)) := None)"
proof -
  obtain n q where nq: "runqueue_remove (run_q s) (highest_prio (run_q s)) = Inr (Some n, q)"
    "rq_wf q" "rq_abs (run_q s) (unat (highest_prio (run_q s))) = Some n"
    "rq_abs q = (rq_abs (run_q s))(unat (highest_prio (run_q s)) := None)"
    using rq.pop_ok [OF wf ne] by blast
  have "n < length (system_tcb s)" using val nq(3) by (auto simp: ready_valid_def)
  then show ?thesis
    using nq c by (auto simp: dispatch_sleep_def deref_def)
qed

lemma dispatch_nosave_ok:
  assumes wf: "rq_wf (run_q s)" and ne: "rq_abs (run_q s) \<noteq> Map.empty" and val: "ready_valid s"
  shows "\<exists>n q. rq_abs (run_q s) (unat (highest_prio (run_q s))) = Some n \<and> n < length (system_tcb s)
    \<and> dispatch_nosave s = Inr (ctx_switch_half (s\<lparr>run_q := q, cur_tcb := Some n\<rparr>) n)
    \<and> rq_wf q \<and> rq_abs q = (rq_abs (run_q s))(unat (highest_prio (run_q s)) := None)"
proof -
  obtain n q where nq: "runqueue_remove (run_q s) (highest_prio (run_q s)) = Inr (Some n, q)"
    "rq_wf q" "rq_abs (run_q s) (unat (highest_prio (run_q s))) = Some n"
    "rq_abs q = (rq_abs (run_q s))(unat (highest_prio (run_q s)) := None)"
    using rq.pop_ok [OF wf ne] by blast
  have "n < length (system_tcb s)" using val nq(3) by (auto simp: ready_valid_def)
  then show ?thesis
    using nq by (auto simp: dispatch_nosave_def deref_def)
qed

lemma dispatch_save_ok:
  assumes wf: "rq_wf (run_q s)" and ne: "rq_abs (run_q s) \<noteq> Map.empty" and val: "ready_valid s"
    and c: "cur_tcb s = Some c" "c < length (system_tcb s)"
    and p: "unat (cur_prio (system_tcb s ! c)) < 64"
    and gt: "highest_prio (run_q s) < cur_prio (system_tcb s ! c)"
  shows "\<exists>n q. rq_abs (run_q s) (unat (highest_prio (run_q s))) = Some n \<and> n < length (system_tcb s)
    \<and> dispatch_save s k =
        Inr (True, ctx_switch_full (calling_from (s\<lparr>run_q := q, cur_tcb := Some n\<rparr>) k) n c)
    \<and> rq_wf q \<and> rq_abs q = (rq_abs (run_q s))(unat (cur_prio (system_tcb s ! c)) \<mapsto> c,
                                 unat (highest_prio (run_q s)) := None)"
proof -
  let ?p = "cur_prio (system_tcb s ! c)" and ?h = "highest_prio (run_q s)"
  obtain q1 where q1: "runqueue_add (run_q s) (Some c) ?p = Inr q1" "rq_wf q1"
    "rq_abs q1 = (rq_abs (run_q s))(unat ?p \<mapsto> c)"
    using runqueue_add_ok [OF wf p] by blast
  have lt: "unat ?h < unat ?p" using gt by (simp add: word_less_nat_alt)
  have in1: "unat ?h \<in> dom (rq_abs q1)"
    using rq.highest_in [OF wf ne] q1(3) by auto
  have "unat (highest_prio q1) \<le> unat ?h"
    using rq.highest_least [OF q1(2) in1] .
  moreover have "unat ?h \<le> unat (highest_prio q1)"
  proof -
    have "unat (highest_prio q1) \<in> dom (rq_abs q1)"
      using rq.highest_in [OF q1(2)] in1 by (metis domIff)
    then show ?thesis
      using q1(3) lt rq.highest_least [OF wf] by (auto split: if_splits) 
  qed
  ultimately have h: "highest_prio q1 = ?h"
    by (simp add: word_unat_eq_iff)
  obtain n q where nq: "runqueue_remove q1 ?h = Inr (Some n, q)"
    "rq_wf q" "rq_abs q1 (unat ?h) = Some n" "rq_abs q = (rq_abs q1)(unat ?h := None)"
    using rq.pop_ok [OF q1(2)] in1 unfolding h by (metis domIff)
  have n: "rq_abs (run_q s) (unat ?h) = Some n" using nq(3) lt q1(3) by simp
  then have "n < length (system_tcb s)" using val by (auto simp: ready_valid_def)
  then show ?thesis
    using nq c q1 gt n h by (auto simp: dispatch_save_def deref_def)
qed

lemma dispatch_save_keep:
  assumes "cur_tcb s = Some c" and "c < length (system_tcb s)"
    and "\<not> highest_prio (run_q s) < cur_prio (system_tcb s ! c)"
  shows "dispatch_save s k = Inr (False, s)"
  using assms by (simp add: dispatch_save_def deref_def)

end
