(* ===== verification/Waiting_Line_Spec.thy ===== *)
theory Waiting_Line_Spec
  imports Gravel_Prelude
begin

text \<open>
  The interface of a first-come first-served line of tasks, as the mutex code keeps one
  for each mutex: joining puts a task at the end, serving takes the first one out. The
  order in which tasks are served follows from the laws of the two operations alone.
\<close>

fun join_all :: "('s \<Rightarrow> nat \<Rightarrow> 's res) \<Rightarrow> 's \<Rightarrow> nat list \<Rightarrow> 's res" where
  "join_all join s [] = Inr s"
| "join_all join s (t # ts) = bind (join s t) (\<lambda>s'. join_all join s' ts)"

text \<open>Serves n times and collects who was first each time.\<close>

fun serve_n :: "('s \<Rightarrow> 's res) \<Rightarrow> ('s \<Rightarrow> nat option) \<Rightarrow> nat \<Rightarrow> 's \<Rightarrow> (nat option list \<times> 's) res" where
  "serve_n serve first 0 s = Inr ([], s)"
| "serve_n serve first (Suc n) s = bind (serve s) (\<lambda>s'.
     bind (serve_n serve first n s') (\<lambda>(os, s''). Inr (first s # os, s'')))"

locale waiting_line =
  fixes join :: "'s \<Rightarrow> nat \<Rightarrow> 's res"
    and serve :: "'s \<Rightarrow> 's res"
    and first :: "'s \<Rightarrow> nat option"
    and line :: "'s \<Rightarrow> nat list \<Rightarrow> bool"
    and ok :: "'s \<Rightarrow> bool"
    and task :: "'s \<Rightarrow> nat \<Rightarrow> bool"
  assumes join_line: "ok s \<Longrightarrow> line s xs \<Longrightarrow> task s t \<Longrightarrow> t \<notin> set xs \<Longrightarrow>
      \<exists>s'. join s t = Inr s' \<and> ok s' \<and> line s' (xs @ [t]) \<and> task s' = task s"
    and serve_line: "ok s \<Longrightarrow> line s (x # xs) \<Longrightarrow>
      \<exists>s'. serve s = Inr s' \<and> ok s' \<and> line s' xs \<and> task s' = task s"
    and first_line: "line s xs \<Longrightarrow> first s = (case xs of [] \<Rightarrow> None | x # _ \<Rightarrow> Some x)"
begin

lemma join_all_line:
  assumes "ok s" and "line s xs" and "\<forall>t\<in>set ts. task s t" and "distinct (xs @ ts)"
  shows "\<exists>s'. join_all join s ts = Inr s' \<and> ok s' \<and> line s' (xs @ ts)"
  using assms
proof (induction ts arbitrary: s xs)
  case (Cons t ts)
  then obtain s' where s': "join s t = Inr s'" "ok s'" "line s' (xs @ [t])" "task s' = task s"
    using join_line [of s xs t] by auto
  with Cons.prems Cons.IH [of s' "xs @ [t]"] show ?case by auto
qed auto

lemma serve_n_order:
  assumes "ok s" and "line s (xs @ ys)"
  shows "\<exists>s'. serve_n serve first (length xs) s = Inr (map Some xs, s') \<and> ok s' \<and> line s' ys"
  using assms
proof (induction xs arbitrary: s)
  case (Cons x xs)
  then obtain s' where s': "serve s = Inr s'" "ok s'" "line s' (xs @ ys)"
    using serve_line [of s x "xs @ ys"] by auto
  obtain s'' where "serve_n serve first (length xs) s' = Inr (map Some xs, s'')" "ok s''" "line s'' ys"
    using Cons.IH [OF s'(2,3)] by blast
  moreover have "first s = Some x"
    using first_line [OF Cons.prems(2)] by simp
  ultimately show ?case using s'(1) by simp
qed auto

text \<open>Tasks are served in the order in which they joined.\<close>

lemma first_come_first_served:
  assumes "ok s" and "line s []" and "\<forall>t\<in>set ts. task s t" and "distinct ts"
  shows "\<exists>s1 s2. join_all join s ts = Inr s1 \<and> serve_n serve first (length ts) s1 = Inr (map Some ts, s2) \<and> line s2 []"
proof -
  obtain s1 where s1: "join_all join s ts = Inr s1" "ok s1" "line s1 ([] @ ts)"
    using join_all_line [of s "[]" ts] assms by auto
  then show ?thesis
    using serve_n_order [of s1 ts "[]"] by auto
qed

end

end
