(* ===== verification/Mutex.thy ===== *)
theory Mutex
  imports Sched Waiting_Line_Spec
begin

text \<open>
  kernel/lock/mutex.c: the table of mutexes, a FIFO sleep queue per mutex threaded through
  the tcbs, and the highest locker protocol (a holder runs at priority 0). Where a call
  blocks, the context switch leaves it unfinished: the result says Switched, and the rest
  of mutex_lock runs when the tcb is resumed.
\<close>

datatype 'a outcome = Returned 'a | Switched

section \<open>mutex_init and mutex_create\<close>

definition init_mutex :: "mutex_t \<Rightarrow> mutex_t" where
  "init_mutex m = m\<lparr>bAvailable := True, pHolding_Tcb := None, bLock := False, pSleep_queue := None\<rparr>"

definition mutex_init :: "kstate \<Rightarrow> kstate" where
  "mutex_init s =
     (fold (\<lambda>i s. upd_mutex s i init_mutex) [0..<OS_NUM_MUTEX] s)\<lparr>cur_mutex_num := 0\<rparr>"

definition mutex_create :: "kstate \<Rightarrow> int \<times> kstate" where
  "mutex_create s0 =
     (let s = disable_interrupts s0 in
      if cur_mutex_num s = int OS_NUM_MUTEX
      then (- ENOMEM, enable_interrupts s)
      else
        let s1 = upd_mutex s (nat (cur_mutex_num s)) (\<lambda>m. m\<lparr>bAvailable := False\<rparr>);
            s2 = s1\<lparr>cur_mutex_num := cur_mutex_num s1 + 1\<rparr>;
            s3 = enable_interrupts s2
        in (cur_mutex_num s3 - 1, s3))"

section \<open>mutex_lock\<close>

text \<open>The check both calls start with: bAvailable set means the mutex was never created.\<close>

definition bad_mutex :: "kstate \<Rightarrow> int \<Rightarrow> bool" where
  "bad_mutex s mutex \<longleftrightarrow>
     mutex < 0 \<or> mutex \<ge> int OS_NUM_MUTEX \<or> bAvailable (gtMutex s ! nat mutex)"

text \<open>The walk to the last waiter. On a cyclic queue it never returns, which is None.\<close>

partial_function (option) last_waiter :: "tcb list \<Rightarrow> nat \<Rightarrow> nat option" where
  "last_waiter tcbs it =
     (case sleep_queue (tcbs ! it) of None \<Rightarrow> Some it | Some nxt \<Rightarrow> last_waiter tcbs nxt)"

definition enqueue_waiter :: "kstate \<Rightarrow> nat \<Rightarrow> nat \<Rightarrow> kstate res" where
  "enqueue_waiter s m c =
     (let s1 = upd_tcb s c (\<lambda>t. t\<lparr>sleep_queue := None\<rparr>)
      in case pSleep_queue (gtMutex s1 ! m) of
           None \<Rightarrow> Inr (upd_mutex s1 m (\<lambda>x. x\<lparr>pSleep_queue := Some c\<rparr>))
         | Some it \<Rightarrow>
             (case last_waiter (system_tcb s1) it of
                None \<Rightarrow> Inl Diverges
              | Some l \<Rightarrow> Inr (upd_tcb s1 l (\<lambda>t. t\<lparr>sleep_queue := Some c\<rparr>))))"

text \<open>The end of mutex_lock, reached at once on a free mutex and on resumption otherwise.\<close>

definition mutex_lock_tail :: "kstate \<Rightarrow> nat \<Rightarrow> nat \<Rightarrow> int \<times> kstate" where
  "mutex_lock_tail s m c =
     (let s1 = upd_mutex s m (\<lambda>x. x\<lparr>pHolding_Tcb := Some c\<rparr>);
          s2 = upd_tcb s1 c (\<lambda>t. t\<lparr>holds_lock := holds_lock t + 1, cur_prio := HIGHEST_PRIO\<rparr>)
      in (0, enable_interrupts s2))"

definition mutex_lock :: "kstate \<Rightarrow> int \<Rightarrow> (int outcome \<times> kstate) res" where
  "mutex_lock s0 mutex =
     (let s = disable_interrupts s0 in
      if bad_mutex s mutex then Inr (Returned (- EINVAL), enable_interrupts s)
      else
        let m = nat mutex; cur = get_cur_tcb s in
        if cur = pHolding_Tcb (gtMutex s ! m)
        then Inr (Returned (- EDEADLOCK), enable_interrupts s)
        else if bLock (gtMutex s ! m)
        then bind (deref s cur) (\<lambda>c.
             bind (enqueue_waiter s m c) (\<lambda>s1.
             bind (dispatch_sleep s1 (In_mutex_lock m c)) (\<lambda>s2.
               Inr (Switched, s2))))
        else bind (deref s cur) (\<lambda>c.
               let s1 = upd_mutex s m (\<lambda>x. x\<lparr>bLock := True\<rparr>);
                   (r, s2) = mutex_lock_tail s1 m c
               in Inr (Returned r, s2)))"

section \<open>mutex_unlock\<close>

definition wake_first :: "kstate \<Rightarrow> nat \<Rightarrow> kstate res" where
  "wake_first s m =
     (case pSleep_queue (gtMutex s ! m) of
        Some w \<Rightarrow>
          bind (deref s (Some w)) (\<lambda>t.
            let s1 = upd_mutex s m (\<lambda>x. x\<lparr>pSleep_queue := sleep_queue (system_tcb s ! t)\<rparr>);
                s2 = upd_tcb s1 t (\<lambda>x. x\<lparr>sleep_queue := None\<rparr>)
            in bind (runqueue_add (run_q s2) (Some t) (cur_prio (system_tcb s2 ! t)))
                 (\<lambda>q. Inr (s2\<lparr>run_q := q\<rparr>)))
      | None \<Rightarrow> Inr (upd_mutex s m (\<lambda>x. x\<lparr>bLock := False\<rparr>)))"

definition mutex_unlock :: "kstate \<Rightarrow> int \<Rightarrow> (int \<times> kstate) res" where
  "mutex_unlock s0 mutex =
     (let s = disable_interrupts s0 in
      if bad_mutex s mutex then Inr (- EINVAL, enable_interrupts s)
      else
        let m = nat mutex; cur = get_cur_tcb s in
        if cur \<noteq> pHolding_Tcb (gtMutex s ! m)
        then Inr (- EPERM, enable_interrupts s)
        else
          let task_to_waken = pSleep_queue (gtMutex s ! m) in
          bind (wake_first s m) (\<lambda>s1.
            let s2 = upd_mutex s1 m (\<lambda>x. x\<lparr>pHolding_Tcb := task_to_waken\<rparr>) in
            bind (deref s2 cur) (\<lambda>c.
              let s3 = upd_tcb s2 c (\<lambda>t. t\<lparr>holds_lock := holds_lock t - 1\<rparr>);
                  s4 = (if holds_lock (system_tcb s3 ! c) = 0
                        then upd_tcb s3 c (\<lambda>t. t\<lparr>cur_prio := native_prio t\<rparr>)
                        else s3)
              in Inr (0, enable_interrupts s4))))"

section \<open>The waiters as a list\<close>

definition waiters :: "kstate \<Rightarrow> nat \<Rightarrow> nat list \<Rightarrow> bool" where
  "waiters s m xs \<longleftrightarrow> sleep_list (system_tcb s) (pSleep_queue (gtMutex s ! m)) xs"

lemma last_waiter_list:
  "sleep_list tcbs (Some it) xs \<Longrightarrow> last_waiter tcbs it = Some (last xs)"
proof (induction xs arbitrary: it)
  case (Cons x xs)
  then have x: "it = x" "sleep_list tcbs (sleep_queue (tcbs ! x)) xs" by auto
  show ?case
  proof (cases xs)
    case Nil
    with x have "sleep_queue (tcbs ! x) = None" by simp
    then show ?thesis using x Nil by (subst last_waiter.simps) simp
  next
    case (Cons y ys)
    with x have "sleep_queue (tcbs ! x) = Some y" by simp
    then show ?thesis
      using x Cons Cons.IH [of y] by (subst last_waiter.simps) simp
  qed
qed simp


text \<open>Linking a new node behind the last one appends it to the list.\<close>

lemma sleep_list_append:
  assumes "sleep_list tcbs p xs" and "xs \<noteq> []" and "c \<notin> set xs" and "c < length tcbs"
    and "sleep_queue (tcbs ! c) = None"
  shows "sleep_list (tcbs[last xs := (tcbs ! last xs)\<lparr>sleep_queue := Some c\<rparr>]) p (xs @ [c])"
  using assms
proof (induction xs arbitrary: p)
  case (Cons x xs)
  have dist: "distinct (x # xs)" using Cons.prems(1) by (rule sleep_list_distinct)
  show ?case
  proof (cases xs)
    case Nil
    with Cons.prems show ?thesis by (auto simp: nth_list_update)
  next
    case (Cons y ys)
    then have "last (x # xs) = last xs" "x \<noteq> last xs"
      using dist by auto
    with Cons.prems Cons.IH [of "sleep_queue (tcbs ! x)"] Cons show ?thesis
      by auto
  qed
qed simp

lemma enqueue_waiter_ok:
  assumes "waiters s m xs" and "c \<notin> set xs" and "c < length (system_tcb s)"
    and m: "m < length (gtMutex s)"
  shows "\<exists>s'. enqueue_waiter s m c = Inr s' \<and> waiters s' m (xs @ [c])
    \<and> s' = s\<lparr>system_tcb := system_tcb s', gtMutex := gtMutex s'\<rparr>
    \<and> length (system_tcb s') = length (system_tcb s)
    \<and> (\<forall>i. system_tcb s' ! i = (system_tcb s ! i)\<lparr>sleep_queue := sleep_queue (system_tcb s' ! i)\<rparr>)
    \<and> (\<exists>p. gtMutex s' = (gtMutex s)[m := (gtMutex s ! m)\<lparr>pSleep_queue := p\<rparr>])"
proof -
  define s1 where "s1 = upd_tcb s c (\<lambda>t. t\<lparr>sleep_queue := None\<rparr>)"
  have s1: "gtMutex s1 = gtMutex s" "length (system_tcb s1) = length (system_tcb s)"
    "sleep_queue (system_tcb s1 ! c) = None"
    "sleep_list (system_tcb s1) (pSleep_queue (gtMutex s ! m)) xs"
    using assms by (simp_all add: s1_def upd_tcb_def waiters_def sleep_list_update)
  show ?thesis
  proof (cases "pSleep_queue (gtMutex s ! m)")
    case None
    then have "xs = []" using s1(4) by simp
    with None s1 m assms(3) show ?thesis
      by (auto simp: enqueue_waiter_def s1_def [symmetric] waiters_def upd_mutex_def)
        (auto simp: s1_def upd_tcb_def nth_list_update)
  next
    case (Some it)
    then have ne: "xs \<noteq> []" using s1(4) by auto
    have l: "last_waiter (system_tcb s1) it = Some (last xs)"
      using s1(4) Some by (simp add: last_waiter_list)
    have lb: "last xs < length (system_tcb s)"
      using sleep_list_bound [OF s1(4), of "last xs"] ne s1(2) by simp
    let ?s2 = "upd_tcb s1 (last xs) (\<lambda>t. t\<lparr>sleep_queue := Some c\<rparr>)"
    have "enqueue_waiter s m c = Inr ?s2"
      using Some l s1(1) by (simp add: enqueue_waiter_def s1_def [symmetric])
    moreover have "waiters ?s2 m (xs @ [c])"
      using sleep_list_append [OF s1(4) ne assms(2)] s1 assms(3)
      by (simp add: waiters_def upd_tcb_def)
    ultimately show ?thesis
      using s1 lb assms(3) by (intro exI [of _ ?s2])
        (auto simp: upd_tcb_def s1_def nth_list_update intro: exI [of _ "pSleep_queue (gtMutex s ! m)"])
  qed
qed


lemma wake_first_ok:
  assumes w: "waiters s m (w # xs)" and wf: "rq_wf (run_q s)" and m: "m < length (gtMutex s)"
    and p: "unat (cur_prio (system_tcb s ! w)) < 64"
  shows "\<exists>q. wake_first s m = Inr (s\<lparr>
        gtMutex := (gtMutex s)[m := (gtMutex s ! m)\<lparr>pSleep_queue := sleep_queue (system_tcb s ! w)\<rparr>],
        system_tcb := (system_tcb s)[w := (system_tcb s ! w)\<lparr>sleep_queue := None\<rparr>],
        run_q := q\<rparr>)
    \<and> rq_wf q \<and> rq_abs q = (rq_abs (run_q s))(unat (cur_prio (system_tcb s ! w)) \<mapsto> w)
    \<and> sleep_list ((system_tcb s)[w := (system_tcb s ! w)\<lparr>sleep_queue := None\<rparr>])
        (sleep_queue (system_tcb s ! w)) xs"
proof -
  have head: "pSleep_queue (gtMutex s ! m) = Some w" "w < length (system_tcb s)"
    "sleep_list (system_tcb s) (sleep_queue (system_tcb s ! w)) xs"
    using w by (simp_all add: waiters_def)
  have "w \<notin> set xs"
    using sleep_list_distinct [of "system_tcb s" "Some w" "w # xs"] head by simp
  then have rest: "sleep_list ((system_tcb s)[w := (system_tcb s ! w)\<lparr>sleep_queue := None\<rparr>])
        (sleep_queue (system_tcb s ! w)) xs"
    using head(3) by (simp add: sleep_list_update)
  obtain q where "runqueue_add (run_q s) (Some w) (cur_prio (system_tcb s ! w)) = Inr q" "rq_wf q"
    "rq_abs q = (rq_abs (run_q s))(unat (cur_prio (system_tcb s ! w)) \<mapsto> w)"
    using runqueue_add_ok [OF wf p] by blast
  then show ?thesis
    using head rest by (auto simp: wake_first_def deref_def upd_mutex_def upd_tcb_def)
qed

definition prios_ok :: "kstate \<Rightarrow> bool" where
  "prios_ok s \<longleftrightarrow> (\<forall>t<length (system_tcb s). unat (cur_prio (system_tcb s ! t)) < 64)"

definition line_ok :: "nat \<Rightarrow> kstate \<Rightarrow> bool" where
  "line_ok m s \<longleftrightarrow> rq_wf (run_q s) \<and> prios_ok s \<and> m < length (gtMutex s)"

lemma enqueue_waiter_line:
  assumes "line_ok m s" and "waiters s m xs" and "t < length (system_tcb s)" and "t \<notin> set xs"
  shows "\<exists>s'. enqueue_waiter s m t = Inr s' \<and> line_ok m s' \<and> waiters s' m (xs @ [t])
    \<and> (\<lambda>u. u < length (system_tcb s')) = (\<lambda>u. u < length (system_tcb s))"
proof -
  obtain s' where s': "enqueue_waiter s m t = Inr s'" "waiters s' m (xs @ [t])"
    "s' = s\<lparr>system_tcb := system_tcb s', gtMutex := gtMutex s'\<rparr>"
    "length (system_tcb s') = length (system_tcb s)"
    "\<forall>i. system_tcb s' ! i = (system_tcb s ! i)\<lparr>sleep_queue := sleep_queue (system_tcb s' ! i)\<rparr>"
    "\<exists>p. gtMutex s' = (gtMutex s)[m := (gtMutex s ! m)\<lparr>pSleep_queue := p\<rparr>]"
    using enqueue_waiter_ok [OF assms(2,4,3)] assms(1) by (auto simp: line_ok_def)
  have "cur_prio (system_tcb s' ! i) = cur_prio (system_tcb s ! i)" for i
    using s'(5) by (metis tcb.select_convs(2) tcb.surjective tcb.update_convs(5))
  moreover have "run_q s' = run_q s"
    using s'(3) by (metis kstate.select_convs(2) kstate.surjective kstate.update_convs(1,4))
  ultimately have "line_ok m s'"
    using assms(1) s'(4,6) by (auto simp: line_ok_def prios_ok_def)
  then show ?thesis using s' by auto
qed

lemma wake_first_line:
  assumes "line_ok m s" and "waiters s m (x # xs)"
  shows "\<exists>s'. wake_first s m = Inr s' \<and> line_ok m s' \<and> waiters s' m xs
    \<and> (\<lambda>u. u < length (system_tcb s')) = (\<lambda>u. u < length (system_tcb s))"
proof -
  have "x < length (system_tcb s)"
    using assms(2) by (simp add: waiters_def)
  then show ?thesis
    using wake_first_ok [OF assms(2)] assms(1)
    by (auto simp: line_ok_def prios_ok_def waiters_def nth_list_update)
qed

interpretation mutex_line: waiting_line "\<lambda>s t. enqueue_waiter s m t" "\<lambda>s. wake_first s m"
    "\<lambda>s. pSleep_queue (gtMutex s ! m)" "\<lambda>s. waiters s m" "line_ok m"
    "\<lambda>s u. u < length (system_tcb s)" for m
proof
  fix s xs t
  assume "line_ok m s" "waiters s m xs" "t < length (system_tcb s)" "t \<notin> set xs"
  then show "\<exists>s'. enqueue_waiter s m t = Inr s' \<and> line_ok m s' \<and> waiters s' m (xs @ [t])
      \<and> (\<lambda>u. u < length (system_tcb s')) = (\<lambda>u. u < length (system_tcb s))"
    by (rule enqueue_waiter_line)
next
  fix s x xs
  assume "line_ok m s" "waiters s m (x # xs)"
  then show "\<exists>s'. wake_first s m = Inr s' \<and> line_ok m s' \<and> waiters s' m xs
      \<and> (\<lambda>u. u < length (system_tcb s')) = (\<lambda>u. u < length (system_tcb s))"
    by (rule wake_first_line)
next
  fix s xs
  assume "waiters s m xs"
  then show "pSleep_queue (gtMutex s ! m) = (case xs of [] \<Rightarrow> None | x # _ \<Rightarrow> Some x)"
    by (auto simp: waiters_def split: list.split)
qed


section \<open>Properties\<close>

lemma cur_tcb_irq [simp]:
  "cur_tcb (disable_interrupts s) = cur_tcb s" "system_tcb (disable_interrupts s) = system_tcb s"
  "gtMutex (disable_interrupts s) = gtMutex s" "run_q (disable_interrupts s) = run_q s"
  "cur_mutex_num (disable_interrupts s) = cur_mutex_num s"
  "cur_tcb (enable_interrupts s) = cur_tcb s" "system_tcb (enable_interrupts s) = system_tcb s"
  "gtMutex (enable_interrupts s) = gtMutex s" "run_q (enable_interrupts s) = run_q s"
  "cur_mutex_num (enable_interrupts s) = cur_mutex_num s"
  "devices (enable_interrupts s) = devices s" "devices (disable_interrupts s) = devices s"
  "sys_time (enable_interrupts s) = sys_time s" "sys_time (disable_interrupts s) = sys_time s"
  "cpu (enable_interrupts s) = cpu s" "cpu (disable_interrupts s) = cpu s"
  by (simp_all add: disable_interrupts_def enable_interrupts_def)

lemma bad_mutex_irq [simp]: "bad_mutex (disable_interrupts s) i = bad_mutex s i"
  by (simp add: bad_mutex_def)

lemma not_bad_mutex: "\<not> bad_mutex s i \<Longrightarrow> nat i < 32 \<and> 0 \<le> i"
  by (auto simp: bad_mutex_def OS_NUM_MUTEX_def)

lemma irq_masks: "((x :: u32) OR a OR b) AND NOT a AND NOT b = x AND NOT a AND NOT b"
  by (rule bit_word_eqI) (auto simp: bit_simps)

lemma enable_disable [simp]: "enable_interrupts (disable_interrupts s) = enable_interrupts s"
  by (simp add: enable_interrupts_def disable_interrupts_def irq_masks)

text \<open>
  C23: The waiters of a mutex are served first come first served. However many tasks join
  the line of mutex m through the code of mutex_lock, waking them through the code of
  mutex_unlock takes them out in the order in which they joined and leaves the line empty.
\<close>

theorem mutex_first_come_first_served:
  assumes "line_ok m s" and "waiters s m []"
    and "\<forall>t\<in>set ts. t < length (system_tcb s)" and "distinct ts"
  shows "\<exists>s1 s2. join_all (\<lambda>s t. enqueue_waiter s m t) s ts = Inr s1
    \<and> serve_n (\<lambda>s. wake_first s m) (\<lambda>s. pSleep_queue (gtMutex s ! m)) (length ts) s1
        = Inr (map Some ts, s2)
    \<and> waiters s2 m []"
  using mutex_line.first_come_first_served [OF assms] .

theorem mutex_first_come_first_served_witness:
  "\<exists>s1 s2. join_all (\<lambda>s t. enqueue_waiter s 3 t) (app_startup blank_machine) [5, 2, 9] = Inr s1
    \<and> serve_n (\<lambda>s. wake_first s 3) (\<lambda>s. pSleep_queue (gtMutex s ! 3)) (length [5, 2, 9 :: nat]) s1
        = Inr (map Some [5, 2, 9], s2)
    \<and> waiters s2 3 []"
proof (rule mutex_first_come_first_served)
  show "line_ok 3 (app_startup blank_machine)"
    by (auto simp: line_ok_def prios_ok_def app_startup_def zero_run_queue_def zero_tcb_def
        rq_wf_def prio_bit_def config_defs)
qed (simp_all add: waiters_def app_startup_def zero_mutex_def config_defs)

text \<open>
  C22: A task that locks a mutex held by another task joins the end of its line, keeps the
  holder unchanged, and the processor goes to the ready task with the smallest priority
  number; the sleeping thread will resume inside mutex_lock.
\<close>

theorem mutex_lock_blocks:
  assumes "\<not> bad_mutex s i" and "length (gtMutex s) = 32"
    and cur: "cur_tcb s = Some c" "c < length (system_tcb s)"
    and "pHolding_Tcb (gtMutex s ! nat i) \<noteq> Some c" and "bLock (gtMutex s ! nat i)"
    and w: "waiters s (nat i) xs" "c \<notin> set xs"
    and rq: "rq_wf (run_q s)" "rq_abs (run_q s) \<noteq> Map.empty" "ready_valid s"
  shows "\<exists>s' n. mutex_lock s i = Inr (Switched, s') \<and> waiters s' (nat i) (xs @ [c])
    \<and> pHolding_Tcb (gtMutex s' ! nat i) = pHolding_Tcb (gtMutex s ! nat i)
    \<and> cur_tcb s' = Some n \<and> rq_abs (run_q s) (Min (dom (rq_abs (run_q s)))) = Some n
    \<and> sp_lr (kcontext (system_tcb s' ! c)) = In_mutex_lock (nat i) c"
proof -
  let ?m = "nat i" and ?d = "disable_interrupts s"
  have m: "?m < length (gtMutex ?d)" using not_bad_mutex [OF assms(1)] assms(2) by simp
  have wd: "waiters ?d ?m xs" using w(1) by (simp add: waiters_def)
  obtain s1 where s1: "enqueue_waiter ?d ?m c = Inr s1" "waiters s1 ?m (xs @ [c])"
    "s1 = ?d\<lparr>system_tcb := system_tcb s1, gtMutex := gtMutex s1\<rparr>"
    "length (system_tcb s1) = length (system_tcb s)"
    and mx: "\<exists>p. gtMutex s1 = (gtMutex ?d)[?m := (gtMutex ?d ! ?m)\<lparr>pSleep_queue := p\<rparr>]"
    using enqueue_waiter_ok [OF wd w(2) _ m] cur(2) by auto
  have same: "run_q s1 = run_q s" "cur_tcb s1 = cur_tcb s"
    by (subst s1(3), simp)+
  have c1: "c < length (system_tcb s1)" "cur_tcb s1 = Some c"
    using s1(4) cur same by auto
  have "ready_valid s1" using rq(3) s1(4) same by (simp add: ready_valid_def)
  then obtain n q where n: "rq_abs (run_q s) (unat (highest_prio (run_q s))) = Some n"
    "n < length (system_tcb s1)"
    "dispatch_sleep s1 (In_mutex_lock ?m c) =
       Inr (ctx_switch_full (calling_from (s1\<lparr>run_q := q, cur_tcb := Some n\<rparr>) (In_mutex_lock ?m c)) n c)"
    using dispatch_sleep_ok [of s1 c "In_mutex_lock ?m c"] rq c1 unfolding same by blast
  let ?s' = "ctx_switch_full (calling_from (s1\<lparr>run_q := q, cur_tcb := Some n\<rparr>) (In_mutex_lock ?m c)) n c"
  have "mutex_lock s i = Inr (Switched, ?s')"
    using assms(1,5,6) cur s1(1) n(3)
    by (simp add: mutex_lock_def get_cur_tcb_def deref_def Let_def)
  moreover have "waiters ?s' ?m (xs @ [c])"
  proof -
    have "sleep_list (system_tcb ?s') p ys \<longleftrightarrow> sleep_list (system_tcb s1) p ys" for p ys
      by (rule sleep_list_cong)
        (use c1 in \<open>auto simp: ctx_switch_full_def calling_from_def upd_tcb_def nth_list_update\<close>)
    then show ?thesis
      using s1(2) by (simp add: waiters_def ctx_switch_full_def calling_from_def upd_tcb_def)
  qed
  moreover have "pHolding_Tcb (gtMutex ?s' ! ?m) = pHolding_Tcb (gtMutex s ! ?m)"
    using mx m by (auto simp: ctx_switch_full_def calling_from_def upd_tcb_def)
  moreover have "unat (highest_prio (run_q s)) = Min (dom (rq_abs (run_q s)))"
    by (rule rq.highest_Min [OF rq(1,2)])
  moreover have "sp_lr (kcontext (system_tcb ?s' ! c)) = In_mutex_lock ?m c"
    using c1 by (simp add: ctx_switch_full_def calling_from_def upd_tcb_def)
  moreover have "cur_tcb ?s' = Some n"
    by (simp add: ctx_switch_full_def calling_from_def upd_tcb_def)
  ultimately show ?thesis using n(1) by auto
qed


text \<open>A queue that holds the idle task only, and a state in which task 5 holds mutex 0.\<close>

definition idle_queue :: run_queue where
  "idle_queue = \<lparr>run_list = (replicate 64 None)[63 := Some 63],
     run_bits = (replicate 8 0)[7 := 0x80], group_run_bits = 0x80\<rparr>"

lemma idle_queue_wf: "rq_wf idle_queue" and idle_queue_abs: "rq_abs idle_queue = [63 \<mapsto> 63]"
proof -
  have pb: "prio_bit idle_queue p \<longleftrightarrow> p = 63" for p
  proof -
    have "bit ((replicate 8 0)[7 := 0x80 :: u8] ! (p div 8)) (p mod 8) \<longleftrightarrow> p div 8 = 7 \<and> p mod 8 = 7"
      if "p < 64"
    proof -
      have "(0x80 :: u8) = 2 ^ 7" by simp
      then have "bit (0x80 :: u8) k \<longleftrightarrow> k = 7" for k
        by (simp only: bit_exp_iff) auto
      then have "bit (((replicate 8 0)[7 := 0x80 :: u8]) ! k) j \<longleftrightarrow> k = 7 \<and> j = 7" if "k < 8" for k j
        using that by (cases "k = 7") (simp_all add: nth_list_update)
      then show ?thesis using div_8_less [OF that] by blast
    qed
    moreover have "p div 8 = 7 \<and> p mod 8 = 7 \<longleftrightarrow> p = 63" using div_mod_8_eq [of p 63] by simp
    ultimately show ?thesis by (cases "p < 64") (simp_all add: prio_bit_def idle_queue_def)
  qed
  show "rq_wf idle_queue"
    unfolding rq_wf_def pb unfolding all_less_8 by (simp add: idle_queue_def bit_simps)
  show "rq_abs idle_queue = [63 \<mapsto> 63]"
    unfolding rq_abs_def pb by (simp add: idle_queue_def fun_eq_iff)
qed

definition contended :: kstate where
  "contended = (app_startup blank_machine)\<lparr>cur_tcb := Some 2, run_q := idle_queue,
     gtMutex := (replicate 32 zero_mutex)[0 := zero_mutex\<lparr>pHolding_Tcb := Some 5, bLock := True\<rparr>]\<rparr>"

theorem mutex_lock_blocks_witness:
  "\<exists>s' n. mutex_lock contended 0 = Inr (Switched, s') \<and> waiters s' (nat 0) ([] @ [2])
    \<and> pHolding_Tcb (gtMutex s' ! nat 0) = pHolding_Tcb (gtMutex contended ! nat 0)
    \<and> cur_tcb s' = Some n
    \<and> rq_abs (run_q contended) (Min (dom (rq_abs (run_q contended)))) = Some n
    \<and> sp_lr (kcontext (system_tcb s' ! 2)) = In_mutex_lock (nat 0) 2"
  by (rule mutex_lock_blocks)
    (simp_all add: contended_def idle_queue_wf idle_queue_abs ready_valid_def bad_mutex_def
      waiters_def app_startup_def zero_mutex_def config_defs)

text \<open>
  C12: A task that unlocks a contended mutex hands it over: the first waiter becomes the
  holder without the lock ever being free, it is made ready at its own priority, the others
  keep their order, and the call returns 0 to the old holder with interrupts on.
\<close>

theorem mutex_unlock_handover:
  assumes "\<not> bad_mutex s i" and "length (gtMutex s) = 32"
    and cur: "cur_tcb s = Some c" "c < length (system_tcb s)"
    and hold: "pHolding_Tcb (gtMutex s ! nat i) = Some c" "bLock (gtMutex s ! nat i)"
    and w: "waiters s (nat i) (x # xs)" "c \<notin> set (x # xs)"
    and ok: "rq_wf (run_q s)" "prios_ok s"
  shows "\<exists>s'. mutex_unlock s i = Inr (0, s') \<and> irq_enabled s' \<and> cur_tcb s' = Some c
    \<and> pHolding_Tcb (gtMutex s' ! nat i) = Some x \<and> bLock (gtMutex s' ! nat i)
    \<and> waiters s' (nat i) xs
    \<and> rq_abs (run_q s') = (rq_abs (run_q s))(unat (cur_prio (system_tcb s ! x)) \<mapsto> x)"
proof -
  let ?m = "nat i" and ?d = "disable_interrupts s"
  have m: "?m < 32" using not_bad_mutex [OF assms(1)] by simp
  have x: "pSleep_queue (gtMutex s ! ?m) = Some x" "x < length (system_tcb s)" "x \<noteq> c"
    using w by (auto simp: waiters_def)
  have wd: "waiters ?d ?m (x # xs)" using w(1) by (simp add: waiters_def)
  obtain q where q: "runqueue_add (run_q s) (Some x) (cur_prio (system_tcb s ! x)) = Inr q"
    "rq_abs q = (rq_abs (run_q s))(unat (cur_prio (system_tcb s ! x)) \<mapsto> x)"
    using runqueue_add_ok [OF ok(1), of "cur_prio (system_tcb s ! x)" x] ok(2) x(2)
    by (auto simp: prios_ok_def)
  have wake: "wake_first ?d ?m = Inr ((upd_tcb (upd_mutex ?d ?m
      (\<lambda>y. y\<lparr>pSleep_queue := sleep_queue (system_tcb s ! x)\<rparr>)) x (\<lambda>t. t\<lparr>sleep_queue := None\<rparr>))\<lparr>run_q := q\<rparr>)"
    using x q(1) by (simp add: wake_first_def deref_def upd_mutex_def upd_tcb_def)
  have xs: "sleep_list (system_tcb s) (sleep_queue (system_tcb s ! x)) xs"
    using w(1) by (simp add: waiters_def)
  have tail: "sleep_list tcbs (sleep_queue (system_tcb s ! x)) xs"
    if "length tcbs = length (system_tcb s)"
      "\<forall>j. j \<noteq> x \<longrightarrow> sleep_queue (tcbs ! j) = sleep_queue (system_tcb s ! j)" for tcbs
  proof -
    have "x \<notin> set xs" using sleep_list_distinct [OF w(1) [unfolded waiters_def]] by simp
    then show ?thesis using xs sleep_list_cong [of tcbs "system_tcb s" xs] that by metis
  qed
  show ?thesis
    using assms(1,2) cur hold m x q(2)
    by (simp add: mutex_unlock_def get_cur_tcb_def Let_def wake deref_def)
      (auto simp: waiters_def upd_tcb_def upd_mutex_def nth_list_update intro!: tail)
qed

definition handing_over :: kstate where
  "handing_over = contended\<lparr>cur_tcb := Some 5,
     gtMutex := (replicate 32 zero_mutex)[0 := zero_mutex\<lparr>pHolding_Tcb := Some 5, bLock := True,
       pSleep_queue := Some 2\<rparr>]\<rparr>"

theorem mutex_unlock_handover_witness:
  "\<exists>s'. mutex_unlock handing_over 0 = Inr (0, s') \<and> irq_enabled s' \<and> cur_tcb s' = Some 5
    \<and> pHolding_Tcb (gtMutex s' ! nat 0) = Some 2 \<and> bLock (gtMutex s' ! nat 0)
    \<and> waiters s' (nat 0) []
    \<and> rq_abs (run_q s') = (rq_abs (run_q handing_over))(unat (cur_prio (system_tcb handing_over ! 2)) \<mapsto> 2)"
  by (rule mutex_unlock_handover)
    (auto simp: handing_over_def contended_def idle_queue_wf prios_ok_def bad_mutex_def
      waiters_def app_startup_def zero_mutex_def zero_tcb_def config_defs)


lemma lock_unlock_restores:
  assumes "\<not> bad_mutex s i" and "length (gtMutex s) = 32"
    and cur: "cur_tcb s = Some c" "c < length (system_tcb s)"
    and free: "pHolding_Tcb (gtMutex s ! nat i) = None" "\<not> bLock (gtMutex s ! nat i)"
      "pSleep_queue (gtMutex s ! nat i) = None"
    and prio: "holds_lock (system_tcb s ! c) = 0"
      "cur_prio (system_tcb s ! c) = native_prio (system_tcb s ! c)"
  shows "\<exists>s1. mutex_lock s i = Inr (Returned 0, s1)
    \<and> pHolding_Tcb (gtMutex s1 ! nat i) = Some c \<and> cur_prio (system_tcb s1 ! c) = HIGHEST_PRIO
    \<and> mutex_unlock s1 i = Inr (0, enable_interrupts s)"
proof -
  let ?m = "nat i" and ?d = "disable_interrupts s"
  have m: "?m < 32" "?m < length (gtMutex s)" using not_bad_mutex [OF assms(1)] assms(2) by auto
  define s1 where "s1 = snd (mutex_lock_tail (upd_mutex ?d ?m (\<lambda>x. x\<lparr>bLock := True\<rparr>)) ?m c)"
  have lock: "mutex_lock s i = Inr (Returned 0, s1)"
    using assms(1) cur free
    by (simp add: mutex_lock_def get_cur_tcb_def Let_def deref_def s1_def mutex_lock_tail_def)
  have mx: "gtMutex s1 = (gtMutex s)[?m := (gtMutex s ! ?m)\<lparr>bLock := True, pHolding_Tcb := Some c\<rparr>]"
    and tc: "system_tcb s1 = (system_tcb s)[c :=
        (system_tcb s ! c)\<lparr>holds_lock := 1, cur_prio := HIGHEST_PRIO\<rparr>]"
    and s1: "s1 = (enable_interrupts s)\<lparr>system_tcb := system_tcb s1, gtMutex := gtMutex s1\<rparr>"
    using m cur prio
    by (simp_all add: s1_def mutex_lock_tail_def upd_mutex_def upd_tcb_def Let_def
        enable_interrupts_def disable_interrupts_def irq_masks)
  have "\<not> bad_mutex s1 i"
    using assms(1) m by (simp add: bad_mutex_def mx)
  moreover have "cur_tcb s1 = Some c" by (subst s1) (simp add: cur)
  moreover have "(gtMutex s)[?m := (gtMutex s ! ?m)\<lparr>bLock := False, pHolding_Tcb := None\<rparr>] = gtMutex s"
    using free by (intro list_update_same_conv [THEN iffD2]) (auto simp: m)
  moreover have "(system_tcb s)[c := (system_tcb s ! c)\<lparr>holds_lock := 0,
      cur_prio := native_prio (system_tcb s ! c)\<rparr>] = system_tcb s"
    using prio by (intro list_update_same_conv [THEN iffD2]) (auto simp: cur)
  ultimately have "mutex_unlock s1 i = Inr (0, enable_interrupts
      (s1\<lparr>gtMutex := gtMutex s, system_tcb := system_tcb s\<rparr>))"
    using m cur free prio
    by (simp add: mutex_unlock_def bad_mutex_def get_cur_tcb_def Let_def wake_first_def deref_def mx tc
        upd_mutex_def upd_tcb_def disable_interrupts_def enable_interrupts_def irq_masks)
  moreover have "enable_interrupts (s1\<lparr>gtMutex := gtMutex s, system_tcb := system_tcb s\<rparr>)
      = enable_interrupts s"
    by (subst s1) (simp add: enable_interrupts_def)
  ultimately show ?thesis using lock m cur mx tc by simp
qed



text \<open>
  mutex_create hands out the numbers 0 to 31 once each, in order, and reports ENOMEM
  from then on; only the created mutex changes.
\<close>

theorem mutex_create_spec:
  "mutex_create s =
    (if cur_mutex_num s = 32 then (- ENOMEM, enable_interrupts s)
     else (cur_mutex_num s, (enable_interrupts s)\<lparr>gtMutex := (gtMutex s)[nat (cur_mutex_num s) :=
             (gtMutex s ! nat (cur_mutex_num s))\<lparr>bAvailable := False\<rparr>],
           cur_mutex_num := cur_mutex_num s + 1\<rparr>))"
  by (simp add: mutex_create_def Let_def OS_NUM_MUTEX_def upd_mutex_def enable_interrupts_def
      disable_interrupts_def irq_masks)

end
