(* ===== verification/Device.thy ===== *)
theory Device
  imports Mutex
begin

text \<open>
  kernel/device.c: four periodic devices, each with a LIFO sleep queue and the time of its
  next event. dev_wait is split where its interrupts are on between queueing the task and
  putting it to sleep; dev_update runs on every timer interrupt.
\<close>

section \<open>Operations\<close>

definition NUM_DEVICES :: nat where "NUM_DEVICES = 4"

definition dev_freq :: "u32 list" where
  "dev_freq = [100, 200, 500, 50]"

definition dev_init :: "kstate \<Rightarrow> kstate" where
  "dev_init s = fold (\<lambda>i s. upd_dev s i
     (\<lambda>d. d\<lparr>dev_sleep_queue := None, next_match := sys_time s + dev_freq ! i\<rparr>)) [0..<NUM_DEVICES] s"

definition dev_wait_enqueue :: "kstate \<Rightarrow> nat \<Rightarrow> kstate res" where
  "dev_wait_enqueue s0 dev =
     (let s = disable_interrupts s0 in
      if dev \<ge> length (devices s) then Inl OutOfBounds
      else bind (deref s (get_cur_tcb s)) (\<lambda>c.
        let s1 = upd_tcb s c (\<lambda>t. t\<lparr>sleep_queue := dev_sleep_queue (devices s ! dev)\<rparr>);
            s2 = upd_dev s1 dev (\<lambda>d. d\<lparr>dev_sleep_queue := Some c\<rparr>)
        in Inr (enable_interrupts s2)))"

definition dev_wait_sleep :: "kstate \<Rightarrow> kstate res" where
  "dev_wait_sleep s = dispatch_sleep s In_dev_wait"

definition dev_wait :: "kstate \<Rightarrow> nat \<Rightarrow> kstate res" where
  "dev_wait s dev = bind (dev_wait_enqueue s dev) dev_wait_sleep"

text \<open>
  The loop over the sleep queue of a device. It ends on every queue, also on a cyclic one,
  because it clears each link it follows.
\<close>

definition links :: "tcb list \<Rightarrow> nat" where
  "links tcbs = length (filter (\<lambda>t. sleep_queue t \<noteq> None) tcbs)"

lemma links_clear:
  "t < length tcbs \<Longrightarrow> sleep_queue (tcbs ! t) \<noteq> None
     \<Longrightarrow> links (tcbs[t := (tcbs ! t)\<lparr>sleep_queue := None\<rparr>]) < links tcbs"
proof (induction tcbs arbitrary: t)
  case (Cons x xs)
  then show ?case by (cases t) (auto simp: links_def)
qed simp

lemma links_keep:
  "t < length tcbs \<Longrightarrow> sleep_queue (tcbs ! t) = None
     \<Longrightarrow> links (tcbs[t := (tcbs ! t)\<lparr>sleep_queue := None\<rparr>]) = links tcbs"
proof (induction tcbs arbitrary: t)
  case (Cons x xs)
  then show ?case by (cases t) (auto simp: links_def)
qed simp

function dev_wake :: "kstate \<Rightarrow> tcb_ptr \<Rightarrow> kstate res" where
  "dev_wake s None = Inr s"
| "dev_wake s (Some t) =
     (if t \<ge> length (system_tcb s) then Inl OutOfBounds
      else case runqueue_add (run_q s) (Some t) (cur_prio (system_tcb s ! t)) of
             Inl e \<Rightarrow> Inl e
           | Inr q \<Rightarrow>
               let s1 = s\<lparr>run_q := q\<rparr>;
                   nxt = sleep_queue (system_tcb s1 ! t);
                   s2 = upd_tcb s1 t (\<lambda>x. x\<lparr>sleep_queue := None\<rparr>)
               in dev_wake s2 nxt)"
  by pat_completeness auto
termination
proof (relation "measure (\<lambda>(s, p). 2 * links (system_tcb s) + (if p = None then 0 else 1))",
    goal_cases)
  case (2 s t q s1 nxt s2)
  then show ?case
    by (cases "sleep_queue (system_tcb s ! t)")
      (auto simp: upd_tcb_def links_keep links_clear dest: links_clear [of t "system_tcb s"])
qed simp

declare dev_wake.simps [simp del]

definition dev_update_one :: "u32 \<Rightarrow> nat \<Rightarrow> bool \<times> kstate \<Rightarrow> (bool \<times> kstate) res" where
  "dev_update_one millis i ns =
     (let (need_ctx, s) = ns in
      if next_match (devices s ! i) \<le> millis
      then bind (dev_wake s (dev_sleep_queue (devices s ! i))) (\<lambda>s1.
             Inr (need_ctx \<or> dev_sleep_queue (devices s ! i) \<noteq> None,
                  upd_dev s1 i (\<lambda>d. d\<lparr>dev_sleep_queue := None,
                                      next_match := next_match d + dev_freq ! i\<rparr>)))
      else Inr (need_ctx, s))"

fun dev_update_loop :: "u32 \<Rightarrow> nat list \<Rightarrow> bool \<times> kstate \<Rightarrow> (bool \<times> kstate) res" where
  "dev_update_loop millis [] ns = Inr ns"
| "dev_update_loop millis (i # is) ns = bind (dev_update_one millis i ns) (dev_update_loop millis is)"

definition dev_update :: "kstate \<Rightarrow> u32 \<Rightarrow> resume_point \<Rightarrow> (unit outcome \<times> kstate) res" where
  "dev_update s0 millis k =
     bind (dev_update_loop millis [0..<NUM_DEVICES] (False, disable_interrupts s0)) (\<lambda>(need_ctx, s).
       if need_ctx
       then bind (dispatch_save s k) (\<lambda>(switched, s1).
              Inr (if switched then (Switched, s1) else (Returned (), enable_interrupts s1)))
       else Inr (Returned (), enable_interrupts s))"

section \<open>Lemmas\<close>

text \<open>The ready map after a list of tasks was made ready.\<close>

definition wake_map :: "tcb list \<Rightarrow> nat list \<Rightarrow> (nat \<rightharpoonup> nat) \<Rightarrow> nat \<rightharpoonup> nat" where
  "wake_map tcbs xs m = fold (\<lambda>x m. m(unat (cur_prio (tcbs ! x)) \<mapsto> x)) xs m"

lemma wake_map_simps [simp]:
  "wake_map tcbs [] m = m"
  "wake_map tcbs (x # xs) m = wake_map tcbs xs (m(unat (cur_prio (tcbs ! x)) \<mapsto> x))"
  by (simp_all add: wake_map_def)

lemma wake_map_cong:
  "(\<And>x. x \<in> set xs \<Longrightarrow> cur_prio (tcbs' ! x) = cur_prio (tcbs ! x)) \<Longrightarrow> wake_map tcbs' xs m = wake_map tcbs xs m"
  by (induction xs arbitrary: m) auto

lemma dev_wake_ok:
  assumes "sleep_list (system_tcb s) p xs" and "rq_wf (run_q s)" and "prios_ok s"
  shows "\<exists>tcbs q. dev_wake s p = Inr (s\<lparr>run_q := q, system_tcb := tcbs\<rparr>) \<and> rq_wf q
    \<and> rq_abs q = wake_map (system_tcb s) xs (rq_abs (run_q s))
    \<and> length tcbs = length (system_tcb s)
    \<and> (\<forall>i. tcbs ! i = (if i \<in> set xs then (system_tcb s ! i)\<lparr>sleep_queue := None\<rparr> else system_tcb s ! i))"
  using assms
proof (induction xs arbitrary: s p)
  case Nil
  then show ?case
    by (intro exI [of _ "system_tcb s"] exI [of _ "run_q s"]) (simp add: dev_wake.simps)
next
  case (Cons x xs)
  then have p: "p = Some x" and x: "x < length (system_tcb s)"
    and tl: "sleep_list (system_tcb s) (sleep_queue (system_tcb s ! x)) xs" by auto
  have nin: "x \<notin> set xs" using sleep_list_distinct [OF Cons.prems(1)] by simp
  obtain q where q: "runqueue_add (run_q s) (Some x) (cur_prio (system_tcb s ! x)) = Inr q" "rq_wf q"
    "rq_abs q = (rq_abs (run_q s))(unat (cur_prio (system_tcb s ! x)) \<mapsto> x)"
    using runqueue_add_ok [OF Cons.prems(2), of "cur_prio (system_tcb s ! x)" x] Cons.prems(3) x
    by (auto simp: prios_ok_def)
  let ?t = "(system_tcb s)[x := (system_tcb s ! x)\<lparr>sleep_queue := None\<rparr>]"
  let ?s = "s\<lparr>run_q := q, system_tcb := ?t\<rparr>"
  have step: "dev_wake s p = dev_wake ?s (sleep_queue (system_tcb s ! x))"
    using x q(1) unfolding p by (subst dev_wake.simps) (simp add: Let_def upd_tcb_def)
  have "sleep_list (system_tcb ?s) (sleep_queue (system_tcb s ! x)) xs"
    using tl nin by (simp add: sleep_list_update)
  moreover have "prios_ok ?s"
    using Cons.prems(3) x by (simp add: prios_ok_def nth_list_update)
  ultimately obtain tcbs q' where *: "dev_wake ?s (sleep_queue (system_tcb s ! x))
      = Inr (?s\<lparr>run_q := q', system_tcb := tcbs\<rparr>)" "rq_wf q'"
    "rq_abs q' = wake_map ?t xs (rq_abs q)" "length tcbs = length (system_tcb s)"
    "\<forall>i. tcbs ! i = (if i \<in> set xs then (?t ! i)\<lparr>sleep_queue := None\<rparr> else ?t ! i)"
    using Cons.IH [of ?s "sleep_queue (system_tcb s ! x)"] q(2) by auto
  have "wake_map ?t xs (rq_abs q) = wake_map (system_tcb s) xs (rq_abs q)"
    using nin x by (intro wake_map_cong) (auto simp: nth_list_update)
  then show ?case
    using * q x unfolding step
    by (intro exI [of _ tcbs] exI [of _ q']) (auto simp: nth_list_update)
qed


lemma wake_map_own:
  "(\<And>x. x \<in> set xs \<Longrightarrow> unat (cur_prio (tcbs ! x)) = x)
     \<Longrightarrow> wake_map tcbs xs m = (\<lambda>p. if p \<in> set xs then Some p else m p)"
  by (induction xs arbitrary: m) (auto simp: fun_eq_iff)

lemma wake_map_append: "wake_map tcbs (xs @ ys) m = wake_map tcbs ys (wake_map tcbs xs m)"
  by (induction xs arbitrary: m) auto

text \<open>The four sleep queues as lists; no task is on two of them.\<close>

definition dev_queues :: "kstate \<Rightarrow> nat list list \<Rightarrow> bool" where
  "dev_queues s ls \<longleftrightarrow> length (devices s) = 4 \<and> length ls = 4
     \<and> (\<forall>d<4. sleep_list (system_tcb s) (dev_sleep_queue (devices s ! d)) (ls ! d))
     \<and> distinct (concat ls)"

definition due :: "kstate \<Rightarrow> u32 \<Rightarrow> nat \<Rightarrow> bool" where
  "due s millis d \<longleftrightarrow> next_match (devices s ! d) \<le> millis"

definition due_tasks :: "kstate \<Rightarrow> u32 \<Rightarrow> nat list list \<Rightarrow> nat list \<Rightarrow> nat list" where
  "due_tasks s millis ls is = concat (map (\<lambda>d. if due s millis d then ls ! d else []) is)"

definition fired :: "dev_t \<Rightarrow> nat \<Rightarrow> dev_t" where
  "fired x d = x\<lparr>dev_sleep_queue := None, next_match := next_match x + dev_freq ! d\<rparr>"

text \<open>Everything but the tcbs, the ready queue and the devices.\<close>

definition dev_frame :: "kstate \<Rightarrow> kstate \<Rightarrow> bool" where
  "dev_frame s s' \<longleftrightarrow> s' = s\<lparr>system_tcb := system_tcb s', run_q := run_q s', devices := devices s'\<rparr>"

lemma dev_frame_refl [simp]: "dev_frame s s"
  by (simp add: dev_frame_def)

lemma dev_frame_trans: "dev_frame s s' \<Longrightarrow> dev_frame s' s'' \<Longrightarrow> dev_frame s s''"
  unfolding dev_frame_def by (cases s; cases s'; cases s'') simp

lemma distinct_concat_nth:
  assumes "distinct (concat ls)" and "i < length ls" "j < length ls" "i \<noteq> j"
  shows "set (ls ! i) \<inter> set (ls ! j) = {}"
proof -
  have *: "set (ls ! i) \<inter> set (ls ! j) = {}" if "distinct (concat ls)" "i < j" "j < length ls" for ls and i j :: nat
    using that
  proof (induction ls arbitrary: i j)
    case (Cons l ls)
    then obtain j' where j: "j = Suc j'" by (cases j) auto
    show ?case
    proof (cases i)
      case 0
      then show ?thesis using Cons.prems j by (auto dest!: nth_mem)
    next
      case (Suc i')
      then show ?thesis using Cons.IH [of i' j'] Cons.prems j by auto
    qed
  qed simp
  show ?thesis using * [OF assms(1)] assms(2,3,4) by (metis inf_commute linorder_neqE_nat)
qed

lemma set_concat_clear: "set (concat (ls[i := []])) \<subseteq> set (concat ls)"
  using set_update_subset_insert [of ls i "[]"] by auto

lemma distinct_concat_clear: "distinct (concat ls) \<Longrightarrow> distinct (concat (ls[i := []]))"
proof (induction ls arbitrary: i)
  case (Cons l ls)
  show ?case
  proof (cases i)
    case (Suc j)
    then show ?thesis using Cons set_concat_clear [of ls j] by (auto simp: disjoint_iff)
  qed (use Cons in simp)
qed simp

lemma dev_update_one_ok:
  assumes q: "dev_queues s ls" and wf: "rq_wf (run_q s)" "prios_ok s" and i: "i < 4"
  shows "\<exists>s'. dev_update_one millis i (b, s) = Inr (b \<or> due_tasks s millis ls [i] \<noteq> [], s')
    \<and> dev_frame s s' \<and> rq_wf (run_q s') \<and> prios_ok s' \<and> length (system_tcb s') = length (system_tcb s)
    \<and> dev_queues s' (if due s millis i then ls[i := []] else ls)
    \<and> rq_abs (run_q s') = wake_map (system_tcb s) (due_tasks s millis ls [i]) (rq_abs (run_q s))
    \<and> (\<forall>t. system_tcb s' ! t = (if t \<in> set (due_tasks s millis ls [i])
          then (system_tcb s ! t)\<lparr>sleep_queue := None\<rparr> else system_tcb s ! t))
    \<and> devices s' = (if due s millis i then (devices s)[i := fired (devices s ! i) i] else devices s)"
proof (cases "due s millis i")
  case False
  then show ?thesis using assms
    by (simp add: dev_update_one_def due_def due_tasks_def)
next
  case True
  have sl: "sleep_list (system_tcb s) (dev_sleep_queue (devices s ! i)) (ls ! i)"
    and len: "length (devices s) = 4" "length ls = 4" and dist: "distinct (concat ls)"
    using q i by (auto simp: dev_queues_def)
  obtain tcbs rq where w: "dev_wake s (dev_sleep_queue (devices s ! i))
        = Inr (s\<lparr>run_q := rq, system_tcb := tcbs\<rparr>)" "rq_wf rq"
    "rq_abs rq = wake_map (system_tcb s) (ls ! i) (rq_abs (run_q s))"
    "length tcbs = length (system_tcb s)"
    "\<forall>t. tcbs ! t = (if t \<in> set (ls ! i) then (system_tcb s ! t)\<lparr>sleep_queue := None\<rparr> else system_tcb s ! t)"
    using dev_wake_ok [OF sl wf] by blast
  let ?s' = "upd_dev (s\<lparr>run_q := rq, system_tcb := tcbs\<rparr>) i (\<lambda>x. fired x i)"
  have dt: "due_tasks s millis ls [i] = ls ! i" using True by (simp add: due_tasks_def)
  have "dev_update_one millis i (b, s) = Inr (b \<or> due_tasks s millis ls [i] \<noteq> [], ?s')"
    using True w(1) sl unfolding dt
    by (cases "ls ! i") (auto simp: dev_update_one_def due_def fired_def [abs_def])
  moreover have "dev_frame s ?s'"
    by (simp add: dev_frame_def upd_dev_def)
  moreover have "dev_queues ?s' (ls[i := []])"
  proof -
    have "sleep_list tcbs (dev_sleep_queue (devices ?s' ! d)) (ls[i := []] ! d)" if "d < 4" for d
    proof (cases "d = i")
      case True
      then show ?thesis using i len by (simp add: upd_dev_def fired_def)
    next
      case False
      have "set (ls ! d) \<inter> set (ls ! i) = {}"
        using dist that i False len by (intro distinct_concat_nth) auto
      then have "sleep_list tcbs p (ls ! d) \<longleftrightarrow> sleep_list (system_tcb s) p (ls ! d)" for p
        using w(4,5) by (intro sleep_list_cong) (auto simp: disjoint_iff)
      then show ?thesis using q that False by (simp add: dev_queues_def upd_dev_def)
    qed
    then show ?thesis using len distinct_concat_clear [OF dist]
      by (simp add: dev_queues_def upd_dev_def)
  qed
  moreover have "prios_ok ?s'"
    using wf(2) w(4,5) by (auto simp: prios_ok_def upd_dev_def)
  ultimately show ?thesis
    using True w unfolding dt by (intro exI [of _ ?s']) (simp add: upd_dev_def)
qed


definition after_update :: "kstate \<Rightarrow> u32 \<Rightarrow> nat list list \<Rightarrow> nat list \<Rightarrow> nat list list" where
  "after_update s millis ls is = map (\<lambda>d. if d \<in> set is \<and> due s millis d then [] else ls ! d) [0..<4]"

lemma dev_update_loop_ok:
  assumes "dev_queues s ls" and "rq_wf (run_q s)" "prios_ok s" and "set is \<subseteq> {..<4}" and "distinct is"
  shows "\<exists>s'. dev_update_loop millis is (b, s) = Inr (b \<or> due_tasks s millis ls is \<noteq> [], s')
    \<and> dev_frame s s' \<and> rq_wf (run_q s') \<and> prios_ok s' \<and> length (system_tcb s') = length (system_tcb s)
    \<and> dev_queues s' (after_update s millis ls is)
    \<and> rq_abs (run_q s') = wake_map (system_tcb s) (due_tasks s millis ls is) (rq_abs (run_q s))
    \<and> (\<forall>t. system_tcb s' ! t = (if t \<in> set (due_tasks s millis ls is)
          then (system_tcb s ! t)\<lparr>sleep_queue := None\<rparr> else system_tcb s ! t))
    \<and> (\<forall>d<4. devices s' ! d = (if d \<in> set is \<and> due s millis d then fired (devices s ! d) d else devices s ! d))"
  using assms
proof (induction "is" arbitrary: s ls b)
  case Nil
  have "map ((!) ls) [0..<4] = ls"
    using Nil.prems(1) by (metis dev_queues_def map_nth)
  with Nil show ?case
    by (intro exI [of _ s]) (simp add: due_tasks_def after_update_def)
next
  case (Cons i "is")
  have i: "i < 4" "i \<notin> set is" and "is": "set is \<subseteq> {..<4}" "distinct is"
    using Cons.prems by auto
  have len: "length (devices s) = 4" "length ls = 4"
    using Cons.prems(1) by (auto simp: dev_queues_def)
  let ?ls = "if due s millis i then ls[i := []] else ls"
  obtain s1 where s1: "dev_update_one millis i (b, s) = Inr (b \<or> due_tasks s millis ls [i] \<noteq> [], s1)"
    "dev_frame s s1" "rq_wf (run_q s1)" "prios_ok s1" "length (system_tcb s1) = length (system_tcb s)"
    "dev_queues s1 ?ls"
    "rq_abs (run_q s1) = wake_map (system_tcb s) (due_tasks s millis ls [i]) (rq_abs (run_q s))"
    "\<forall>t. system_tcb s1 ! t = (if t \<in> set (due_tasks s millis ls [i])
          then (system_tcb s ! t)\<lparr>sleep_queue := None\<rparr> else system_tcb s ! t)"
    "devices s1 = (if due s millis i then (devices s)[i := fired (devices s ! i) i] else devices s)"
    using dev_update_one_ok [OF Cons.prems(1-3) i(1)] by blast
  have due1: "due s1 millis d = due s millis d" if "d \<noteq> i" for d
    using that by (simp add: due_def s1(9))
  have due2: "due s1 millis d = due s millis d" if "d \<in> set is" for d
    using that i(2) by (intro due1) auto
  have dt: "due_tasks s1 millis ?ls is = due_tasks s millis ls is"
  proof -
    have "(if due s1 millis d then ?ls ! d else []) = (if due s millis d then ls ! d else [])"
      if "d \<in> set is" for d
    proof -
      have "d \<noteq> i" using that i(2) by blast
      then show ?thesis by (simp add: due1)
    qed
    then show ?thesis by (simp add: due_tasks_def cong: map_cong)
  qed
  have "after_update s1 millis ?ls is = after_update s millis ls (i # is)"
    using i by (auto simp: after_update_def nth_list_update due2 len)
  moreover obtain s2 where s2: "dev_update_loop millis is (b \<or> due_tasks s millis ls [i] \<noteq> [], s1)
      = Inr ((b \<or> due_tasks s millis ls [i] \<noteq> []) \<or> due_tasks s millis ls is \<noteq> [], s2)"
    "dev_frame s1 s2" "rq_wf (run_q s2)" "prios_ok s2" "length (system_tcb s2) = length (system_tcb s1)"
    "dev_queues s2 (after_update s1 millis ?ls is)"
    "rq_abs (run_q s2) = wake_map (system_tcb s1) (due_tasks s millis ls is) (rq_abs (run_q s1))"
    "\<forall>t. system_tcb s2 ! t = (if t \<in> set (due_tasks s millis ls is)
          then (system_tcb s1 ! t)\<lparr>sleep_queue := None\<rparr> else system_tcb s1 ! t)"
    "\<forall>d<4. devices s2 ! d = (if d \<in> set is \<and> due s1 millis d then fired (devices s1 ! d) d else devices s1 ! d)"
    using Cons.IH [OF s1(6,3,4) "is", of "b \<or> due_tasks s millis ls [i] \<noteq> []"] unfolding dt by blast
  moreover have dt2: "due_tasks s millis ls (i # is) = due_tasks s millis ls [i] @ due_tasks s millis ls is"
    by (simp add: due_tasks_def)
  moreover have "wake_map (system_tcb s1) xs m = wake_map (system_tcb s) xs m" for xs m
    using s1(8) by (intro wake_map_cong) auto
  moreover have "\<forall>d<4. devices s2 ! d = (if d \<in> set (i # is) \<and> due s millis d
      then fired (devices s ! d) d else devices s ! d)"
    using s2(9) i by (auto simp: due2 s1(9) len nth_list_update)
  ultimately show ?case
    using s1 by (intro exI [of _ s2]) (auto simp: wake_map_append intro: dev_frame_trans)
qed

end
