(* ===== verification/UB_Test.thy ===== *)
theory UB_Test
  imports Soft_Float Kernel_State "HOL-Library.Multiset"
begin

text \<open>
  kernel/sched/ub_test.c: ordering a task set by period and the utilization bound test on
  it. The array holds pointers; rd reads the descriptor a pointer points to. The floats are
  those of Soft_Float with 24 bits.
\<close>

section \<open>Operations\<close>

definition sort_step :: "(u32 \<Rightarrow> task_t) \<Rightarrow> nat \<Rightarrow> u32 list \<Rightarrow> u32 list" where
  "sort_step rd j tasks =
     (if T_period (rd (tasks ! (j + 1))) < T_period (rd (tasks ! j))
      then let tmp_task = tasks ! (j + 1);
               tasks1 = tasks[j + 1 := tasks ! j]
           in tasks1[j := tmp_task]
      else tasks)"

text \<open>The inner loop runs j from i - 1 down to 0, the outer one i from the last index.\<close>

fun sort_inner :: "(u32 \<Rightarrow> task_t) \<Rightarrow> nat \<Rightarrow> u32 list \<Rightarrow> u32 list" where
  "sort_inner rd 0 tasks = tasks"
| "sort_inner rd (Suc j) tasks = sort_inner rd j (sort_step rd j tasks)"

fun sort_outer :: "(u32 \<Rightarrow> task_t) \<Rightarrow> nat \<Rightarrow> u32 list \<Rightarrow> u32 list" where
  "sort_outer rd 0 tasks = tasks"
| "sort_outer rd (Suc i) tasks = sort_outer rd i (sort_inner rd i tasks)"

definition bound_digits :: "nat list" where
  "bound_digits = [
    10000, 8284, 7798, 7568, 7435, 7348, 7286, 7241,
    7205, 7177, 7155, 7136, 7120, 7106, 7094, 7084,
    7075, 7067, 7059, 7053, 7047, 7042, 7037, 7033,
    7028, 7025, 7021, 7018, 7015, 7012, 7010, 7007,
    7005, 7003, 7001, 6999, 6997, 6995, 6993, 6992,
    6990, 6989, 6988, 6986, 6985, 6984, 6983, 6982,
    6981, 6980, 6979, 6978, 6977, 6976, 6975, 6975,
    6974, 6973, 6972, 6972, 6971, 6970, 6970, 6969]"

text \<open>The initialisers are doubles, rounded to float when they are stored.\<close>

definition bound_table :: "c_float list" where
  "bound_table = map (\<lambda>d. Fin (fl 24 (fl 53 (of_nat d / 10000)))) bound_digits"

definition this_util :: "task_t \<Rightarrow> c_float" where
  "this_util t = fdiv 24 (fadd 24 (float_of_u32 24 (C_time t)) (float_of_u32 24 (B_time t)))
                        (float_of_u32 24 (T_period t))"

definition plain_util :: "task_t \<Rightarrow> c_float" where
  "plain_util t = fdiv 24 (float_of_u32 24 (C_time t)) (float_of_u32 24 (T_period t))"

text \<open>The second loop, over the tasks from index i on.\<close>

fun ub_loop :: "task_t list \<Rightarrow> nat \<Rightarrow> c_float \<Rightarrow> bool res" where
  "ub_loop [] i utilization = Inr True"
| "ub_loop (t # ts) i utilization =
     (if i \<ge> length bound_table then Inl OutOfBounds
      else if fgt (fadd 24 utilization (this_util t)) (bound_table ! i) then Inr False
      else ub_loop ts (i + 1) (fadd 24 utilization (plain_util t)))"

definition assign_schedule :: "(u32 \<Rightarrow> task_t) \<Rightarrow> u32 list \<Rightarrow> nat \<Rightarrow> (bool \<times> u32 list) res" where
  "assign_schedule rd tasks num_tasks =
     (if num_tasks > length tasks then Inl OutOfBounds
      else
        let tasks1 = sort_outer rd num_tasks tasks
        in bind (ub_loop (map rd (take num_tasks tasks1)) 0 (Fin 0)) (\<lambda>ok. Inr (ok, tasks1)))"

lemma length_bound_digits: "length bound_digits = 64"
  by (simp add: bound_digits_def)

lemma length_bound_table [simp]: "length bound_table = 64"
  by (simp add: bound_table_def length_bound_digits)

lemma bound_table_nth:
  "i < 64 \<Longrightarrow> bound_table ! i = Fin (fl 24 (fl 53 (of_nat (bound_digits ! i) / 10000)))"
  by (simp add: bound_table_def length_bound_digits)

section \<open>The order of the tasks\<close>

lemma length_sort_step [simp]: "length (sort_step rd j xs) = length xs"
  by (simp add: sort_step_def Let_def)

lemma mset_sort_step: "j + 1 < length xs \<Longrightarrow> mset (sort_step rd j xs) = mset xs"
  using mset_swap [of j xs "j + 1"] by (auto simp: sort_step_def Let_def)

lemma length_sort_inner [simp]: "length (sort_inner rd i xs) = length xs"
  by (induction i arbitrary: xs) auto

lemma mset_sort_inner: "i < length xs \<Longrightarrow> mset (sort_inner rd i xs) = mset xs"
  by (induction i arbitrary: xs) (auto simp: mset_sort_step)

lemma length_sort_outer [simp]: "length (sort_outer rd i xs) = length xs"
  by (induction i arbitrary: xs) auto

lemma mset_sort_outer: "i \<le> length xs \<Longrightarrow> mset (sort_outer rd i xs) = mset xs"
  by (induction i arbitrary: xs) (auto simp: mset_sort_inner)

text \<open>The first pass carries a task of least period to the front.\<close>

lemma sort_inner_front:
  assumes "i < length xs" and "\<forall>k. i \<le> k \<and> k < length xs \<longrightarrow> T_period (rd (xs ! i)) \<le> T_period (rd (xs ! k))"
  shows "\<forall>x\<in>set xs. T_period (rd (sort_inner rd i xs ! 0)) \<le> T_period (rd x)"
  using assms
proof (induction i arbitrary: xs)
  case 0
  then show ?case by (auto simp: in_set_conv_nth)
next
  case (Suc j)
  let ?ys = "sort_step rd j xs"
  have "T_period (rd (?ys ! j)) \<le> T_period (rd (?ys ! k))" if "j \<le> k" "k < length xs" for k
  proof -
    have "k = j \<or> k = Suc j \<or> Suc j < k" using that by linarith
    then show ?thesis
      using Suc.prems that
      by (auto simp: sort_step_def Let_def nth_list_update not_less intro: order.trans less_imp_le)
  qed
  then have "\<forall>x\<in>set ?ys. T_period (rd (sort_inner rd j ?ys ! 0)) \<le> T_period (rd x)"
    using Suc.prems(1) by (intro Suc.IH) auto
  moreover have "set ?ys = set xs"
    using mset_sort_step [of j xs rd] Suc.prems(1) by (metis Suc_eq_plus1 mset_eq_setD)
  ultimately show ?case by simp
qed

text \<open>Later passes leave it there.\<close>

lemma sort_inner_keep:
  assumes "i < length xs" and "\<forall>x\<in>set xs. T_period (rd (xs ! 0)) \<le> T_period (rd x)"
  shows "sort_inner rd i xs ! 0 = xs ! 0"
  using assms
proof (induction i arbitrary: xs)
  case (Suc j)
  have "sort_step rd j xs ! 0 = xs ! 0"
    using Suc.prems by (cases j) (auto simp: sort_step_def Let_def not_le [symmetric])
  moreover have "set (sort_step rd j xs) = set xs"
    using mset_sort_step [of j xs rd] Suc.prems(1) by (metis Suc_eq_plus1 mset_eq_setD)
  ultimately show ?case using Suc by simp
qed simp

lemma sort_outer_keep:
  assumes "i \<le> length xs" and "\<forall>x\<in>set xs. T_period (rd (xs ! 0)) \<le> T_period (rd x)"
  shows "sort_outer rd i xs ! 0 = xs ! 0"
  using assms
proof (induction i arbitrary: xs)
  case (Suc i)
  have "set (sort_inner rd i xs) = set xs"
    using mset_sort_inner [of i xs rd] Suc.prems(1) by (metis Suc_le_lessD mset_eq_setD)
  then show ?case using Suc by (simp add: sort_inner_keep)
qed simp

lemma sort_inner_sorted: "i < length xs \<Longrightarrow> sorted (map (\<lambda>p. T_period (rd p)) xs) \<Longrightarrow> sort_inner rd i xs = xs"
proof (induction i arbitrary: xs)
  case (Suc j)
  then have "T_period (rd (xs ! j)) \<le> T_period (rd (xs ! (j + 1)))"
    using sorted_nth_mono [OF Suc.prems(2), of j "j + 1"] by simp
  then have "sort_step rd j xs = xs" by (simp add: sort_step_def not_less [symmetric])
  with Suc show ?case by simp
qed simp

lemma sort_outer_sorted: "i \<le> length xs \<Longrightarrow> sorted (map (\<lambda>p. T_period (rd p)) xs) \<Longrightarrow> sort_outer rd i xs = xs"
  by (induction i arbitrary: xs) (auto simp: sort_inner_sorted)

lemma sort_outer_facts:
  assumes "xs \<noteq> []"
  shows "mset (sort_outer rd (length xs) xs) = mset xs
    \<and> (\<forall>x\<in>set xs. T_period (rd (sort_outer rd (length xs) xs ! 0)) \<le> T_period (rd x))
    \<and> (sorted (map (\<lambda>p. T_period (rd p)) xs) \<longrightarrow> sort_outer rd (length xs) xs = xs)"
proof -
  obtain i where i: "length xs = Suc i" using assms by (cases xs) auto
  let ?ys = "sort_inner rd i xs"
  have set: "set ?ys = set xs"
    using mset_sort_inner [of i xs rd] i by (metis lessI mset_eq_setD)
  have front: "\<forall>x\<in>set xs. T_period (rd (?ys ! 0)) \<le> T_period (rd x)"
    using i by (intro sort_inner_front) (auto simp: less_Suc_eq_le)
  moreover have "sort_outer rd i ?ys ! 0 = ?ys ! 0"
    using i front set by (intro sort_outer_keep) auto
  ultimately show ?thesis
    using mset_sort_outer [of "length xs" xs rd] sort_outer_sorted [of "length xs" xs rd]
    unfolding i by simp
qed

text \<open>
  C29: The loops of assign_schedule permute the task pointers, put a task of least period
  first, and leave a set that is already ordered by period as it is.
\<close>

theorem sort_tasks_spec:
  assumes "xs \<noteq> []"
  shows "mset (sort_outer rd (length xs) xs) = mset xs
    \<and> (\<forall>x\<in>set xs. T_period (rd (sort_outer rd (length xs) xs ! 0)) \<le> T_period (rd x))
    \<and> (sorted (map (\<lambda>p. T_period (rd p)) xs) \<longrightarrow> sort_outer rd (length xs) xs = xs)"
  using sort_outer_facts [OF assms] .

text \<open>A task set given by its periods, one millisecond of work each.\<close>

definition by_period :: "u32 \<Rightarrow> task_t" where
  "by_period p = \<lparr>lambda = 0, data = 0, stack_pos = 0, C_time = 1, T_period = p, B_time = 0\<rparr>"

theorem sort_tasks_spec_witness:
  "mset (sort_outer by_period (length [100, 200, 500, 50]) [100, 200, 500, 50]) = mset [100, 200, 500, 50]
   \<and> sort_outer by_period (length [100, 200, 500, 50 :: u32]) [100, 200, 500, 50] = [50, 100, 200, 500]"
  using conjunct1 [OF sort_tasks_spec [of "[100, 200, 500, 50]" by_period]]
  by (simp add: sort_step_def by_period_def)

lemma schedule_order:
  "assign_schedule by_period [300, 200, 100] 3 = Inr (True, [100, 300, 200])"
proof -
  have "sort_outer by_period (length [300, 200, 100 :: u32]) [300, 200, 100] = [100, 300, 200]"
    by (simp add: sort_step_def by_period_def)
  moreover have "length [300, 200, 100 :: u32] = 3" by simp
  ultimately have "sort_outer by_period 3 [300, 200, 100] = [100, 300, 200]" by (simp only:)
  moreover have "ub_loop (map by_period [100, 300, 200]) 0 (Fin 0) = Inr True"
    by (simp add: by_period_def this_util_def plain_util_def float_of_u32_def q32_def bound_table_nth
        bound_digits_def fl_eval)
  ultimately show ?thesis by (simp add: assign_schedule_def)
qed



section \<open>The utilization test\<close>

text \<open>The exact values, and the loss of one rounding.\<close>

definition eps :: rat where "eps = 1 / 2 ^ 24"

definition exact_plain :: "task_t \<Rightarrow> rat" where
  "exact_plain t = q32 (C_time t) / q32 (T_period t)"

definition exact_this :: "task_t \<Rightarrow> rat" where
  "exact_this t = (q32 (C_time t) + q32 (B_time t)) / q32 (T_period t)"

lemma eps_range: "0 < eps" "eps < 1"
  by (simp_all add: eps_def)

lemma fl_lower: "0 \<le> x \<Longrightarrow> x * (1 - eps) \<le> fl 24 x" and fl_upper: "0 \<le> x \<Longrightarrow> fl 24 x \<le> x * (1 + eps)"
  using fl_err [of x 24] by (simp_all add: eps_def abs_if algebra_simps split: if_splits)

text \<open>Rounding a value that has already lost k roundings loses one more.\<close>

lemma fl_lose:
  assumes "0 \<le> x" and "x * (1 - eps) ^ k \<le> y" shows "x * (1 - eps) ^ Suc k \<le> fl 24 y"
proof -
  have pos: "0 \<le> x * (1 - eps) ^ k" using assms(1) eps_range by simp
  have "x * (1 - eps) ^ Suc k \<le> y * (1 - eps)"
    using mult_right_mono [OF assms(2), of "1 - eps"] eps_range by (simp add: algebra_simps)
  also have "\<dots> \<le> fl 24 y" using pos assms(2) by (intro fl_lower) linarith
  finally show ?thesis .
qed

lemma div_lose:
  assumes "0 \<le> c" "0 < t" and "c * (1 - eps) ^ k \<le> x" and "0 < y" "y \<le> t * (1 + eps)"
  shows "c / t * (1 - eps) ^ Suc (Suc k) \<le> fl 24 (x / y)"
proof -
  have x: "0 \<le> c * (1 - eps) ^ k" using assms(1) eps_range by simp
  have "(1 - eps) * (1 + eps) \<le> 1" by (simp add: algebra_simps)
  then have "c * (1 - eps) ^ k * t * ((1 - eps) * (1 + eps)) \<le> c * (1 - eps) ^ k * t * 1"
    using x assms(2) by (intro mult_left_mono) auto
  then have "c * (1 - eps) ^ Suc k * (t * (1 + eps)) \<le> c * (1 - eps) ^ k * t"
    by (simp add: mult.assoc mult.left_commute mult.commute)
  then have "c * (1 - eps) ^ Suc k \<le> c * (1 - eps) ^ k * t / (t * (1 + eps))"
    using assms(2) eps_range by (subst pos_le_divide_eq) auto
  then have "c * (1 - eps) ^ Suc k / t \<le> c * (1 - eps) ^ k * t / (t * (1 + eps)) / t"
    using assms(2) by (intro divide_right_mono) auto
  then have "c / t * (1 - eps) ^ Suc k \<le> c * (1 - eps) ^ k / (t * (1 + eps))"
    using assms(2) by (simp add: mult.commute)
  also have "\<dots> \<le> x / y"
    using assms x by (intro frac_le) auto
  finally have "c / t * (1 - eps) ^ Suc k \<le> x / y" .
  then show ?thesis using assms(1,2) by (intro fl_lose) auto
qed

lemma float_T:
  assumes "T \<noteq> 0"
  shows "0 < fl 24 (q32 T)" "fl 24 (q32 T) \<le> q32 T * (1 + eps)"
proof -
  have "0 < q32 T * (1 - eps)" using q32_pos [THEN iffD2, OF assms] eps_range by simp
  also have "\<dots> \<le> fl 24 (q32 T)" by (rule fl_lower) simp
  finally show "0 < fl 24 (q32 T)" .
qed (rule fl_upper, simp)

lemma plain_util_lower:
  assumes "T_period t \<noteq> 0"
  shows "\<exists>v. plain_util t = Fin v \<and> exact_plain t * (1 - eps) ^ 3 \<le> v"
proof -
  have c: "q32 (C_time t) * (1 - eps) ^ 1 \<le> fl 24 (q32 (C_time t))"
    using fl_lower [of "q32 (C_time t)"] by simp
  show ?thesis
    using div_lose [OF _ q32_pos [THEN iffD2, OF assms] c float_T [OF assms]] float_T(1) [OF assms]
    by (simp add: plain_util_def float_of_u32_def exact_plain_def numeral_3_eq_3)
qed

lemma this_util_lower:
  assumes "T_period t \<noteq> 0"
  shows "\<exists>v. this_util t = Fin v \<and> exact_this t * (1 - eps) ^ 4 \<le> v"
proof -
  let ?c = "q32 (C_time t) + q32 (B_time t) :: rat"
  have "?c * (1 - eps) ^ 1 \<le> fl 24 (q32 (C_time t)) + fl 24 (q32 (B_time t))"
    using fl_lower [of "q32 (C_time t)"] fl_lower [of "q32 (B_time t)"]
    by (simp add: distrib_right)
  then have c: "?c * (1 - eps) ^ Suc 1
      \<le> fl 24 (fl 24 (q32 (C_time t)) + fl 24 (q32 (B_time t)))"
    by (intro fl_lose) auto
  show ?thesis
    using div_lose [OF _ q32_pos [THEN iffD2, OF assms] c float_T [OF assms]] float_T(1) [OF assms]
    by (simp add: this_util_def float_of_u32_def exact_this_def numeral_eq_Suc)
qed

lemma power_lose: "k \<le> n \<Longrightarrow> 0 \<le> x \<Longrightarrow> x * (1 - eps) ^ n \<le> x * (1 - eps) ^ k"
  using eps_range by (intro mult_left_mono power_decreasing) auto

lemma ub_loop_sound:
  assumes "ub_loop ts i (Fin u) = Inr True" and "\<forall>t\<in>set ts. T_period t \<noteq> 0"
    and "0 \<le> U" and "U * (1 - eps) ^ (i + 3) \<le> u" and "k < length ts"
  shows "\<exists>b. i + k < length bound_table \<and> bound_table ! (i + k) = Fin b
    \<and> (U + sum_list (map exact_plain (take k ts)) + exact_this (ts ! k)) * (1 - eps) ^ (i + k + 5) \<le> b"
  using assms
proof (induction ts arbitrary: i u U k)
  case (Cons t ts)
  have T: "T_period t \<noteq> 0" using Cons.prems(2) by simp
  obtain v where v: "this_util t = Fin v" "exact_this t * (1 - eps) ^ 4 \<le> v"
    using this_util_lower [OF T] by blast
  obtain w where w: "plain_util t = Fin w" "exact_plain t * (1 - eps) ^ 3 \<le> w"
    using plain_util_lower [OF T] by blast
  have i: "i < length bound_table" and le: "\<not> fgt (Fin (fl 24 (u + v))) (bound_table ! i)"
    and rest: "ub_loop ts (i + 1) (Fin (fl 24 (u + w))) = Inr True"
    using Cons.prems(1) by (auto simp: v w split: if_splits)
  obtain b where b: "bound_table ! i = Fin b"
    using i by (auto simp: bound_table_def)
  have ex: "0 \<le> exact_this t" "0 \<le> exact_plain t" by (simp_all add: exact_this_def exact_plain_def)
  show ?case
  proof (cases k)
    case 0
    have "U * (1 - eps) ^ (i + 4) \<le> u"
      using Cons.prems(3,4) power_lose [of "i + 3" "i + 4" U] by linarith
    moreover have "exact_this t * (1 - eps) ^ (i + 4) \<le> v"
      using v(2) ex power_lose [of 4 "i + 4" "exact_this t"] by linarith
    ultimately have "(U + exact_this t) * (1 - eps) ^ Suc (i + 4) \<le> fl 24 (u + v)"
      using Cons.prems(3) ex by (intro fl_lose) (auto simp: distrib_right)
    moreover have "Suc (i + 4) = i + 5" by simp
    ultimately show ?thesis using 0 i b le by (simp only: fgt.simps) simp
  next
    case (Suc k')
    have "exact_plain t * (1 - eps) ^ (i + 3) \<le> w"
      using w(2) ex power_lose [of 3 "i + 3" "exact_plain t"] by linarith
    then have "(U + exact_plain t) * (1 - eps) ^ Suc (i + 3) \<le> fl 24 (u + w)"
      using Cons.prems(3,4) ex by (intro fl_lose) (auto simp: distrib_right)
    then show ?thesis
      using Cons.IH [OF rest, of "U + exact_plain t" k'] Cons.prems Suc ex
      by (simp add: algebra_simps)
  qed
qed simp

text \<open>
  C13: The float test is sound. If every period is positive and the set is accepted, then at
  every position of the order the exact utilization of the tasks before it plus the task's
  own time and blocking over its period is at most the bound of that position, up to the
  rounding of the i + 5 float operations involved.
\<close>

theorem assign_schedule_sound:
  assumes "assign_schedule rd tasks n = Inr (True, order)" and "n = length tasks"
    and "\<forall>p\<in>set tasks. T_period (rd p) \<noteq> 0" and "i < n"
  shows "\<exists>b. bound_table ! i = Fin b
    \<and> (sum_list (map (\<lambda>p. exact_plain (rd p)) (take i order)) + exact_this (rd (order ! i)))
        * (1 - 1 / 2 ^ 24) ^ (i + 5) \<le> b"
proof -
  have order: "order = sort_outer rd n tasks" "length order = n"
    and loop: "ub_loop (map rd order) 0 (Fin 0) = Inr True"
    using assms(1,2) by (auto simp: assign_schedule_def Let_def bind_eq_Inr)
  have "set order = set tasks"
    using mset_sort_outer [of n tasks rd] assms(2) order by (metis le_refl mset_eq_setD)
  then show ?thesis
    using ub_loop_sound [OF loop, of 0 i] assms(3,4) order(2)
    by (simp add: eps_def take_map [symmetric] comp_def)
qed

theorem assign_schedule_sound_witness:
  "\<exists>b. bound_table ! 2 = Fin b
    \<and> (sum_list (map (\<lambda>p. exact_plain (by_period p)) (take 2 [100, 300, 200]))
       + exact_this (by_period ([100, 300, 200] ! 2))) * (1 - 1 / 2 ^ 24) ^ (2 + 5) \<le> b"
proof (rule assign_schedule_sound)
  show "assign_schedule by_period [300, 200, 100] (length [300, 200, 100 :: u32])
      = Inr (True, [100, 300, 200])"
  proof -
    have "length [300, 200, 100 :: u32] = 3" by simp
    then show ?thesis using schedule_order by (simp only:)
  qed
qed (simp_all add: by_period_def)

lemma ub_loop_total: "i + length ts \<le> 64 \<Longrightarrow> \<exists>b. ub_loop ts i u = Inr b"
  by (induction ts arbitrary: i u) auto

lemma assign_schedule_total:
  assumes "length xs \<le> 64"
  shows "\<exists>ok order. assign_schedule rd xs (length xs) = Inr (ok, order) \<and> length order = length xs"
  using ub_loop_total [of 0 "map rd (sort_outer rd (length xs) xs)" "Fin 0"] assms
  by (auto simp: assign_schedule_def Let_def)

text \<open>The entries of the table as floats.\<close>

lemma bound_digits_le: "i < 64 \<Longrightarrow> bound_digits ! i \<le> 10000"
proof -
  have "\<forall>d\<in>set bound_digits. d \<le> 10000" by (simp add: bound_digits_def)
  then show "i < 64 \<Longrightarrow> bound_digits ! i \<le> 10000" by (simp add: length_bound_digits)
qed

lemma bound_table_near:
  assumes "bound_table ! i = Fin b" "i < 64" shows "\<bar>b - of_nat (bound_digits ! i) / 10000\<bar> \<le> 1 / 1000000"
proof -
  let ?x = "of_nat (bound_digits ! i) / 10000 :: rat"
  have x: "0 \<le> ?x" "?x \<le> 1" using bound_digits_le [OF assms(2)] by simp_all
  have "\<bar>fl 53 ?x - ?x\<bar> \<le> ?x / 2 ^ 53" by (rule fl_err) (rule x(1))
  also have "\<dots> \<le> 1 / 10000000" using x by (simp add: field_simps)
  finally have y: "\<bar>fl 53 ?x - ?x\<bar> \<le> 1 / 10000000" .
  have "\<bar>fl 24 (fl 53 ?x) - fl 53 ?x\<bar> \<le> fl 53 ?x / 2 ^ 24" by (rule fl_err) (rule fl_nonneg [OF x(1)])
  moreover have "fl 53 ?x / 2 ^ 24 \<le> 1 / 10000000"
  proof -
    have "fl 53 ?x \<le> 11 / 10" using y x(2) by linarith
    then show ?thesis by (simp add: field_simps)
  qed
  ultimately have "\<bar>fl 24 (fl 53 ?x) - ?x\<bar> \<le> 1 / 1000000" using y by linarith
  then show ?thesis using assms by (simp add: bound_table_def length_bound_digits)
qed

lemma bound_table_small:
  assumes "bound_table ! i = Fin b" "i < 64" shows "b \<le> 10002 / 10000"
proof -
  have "of_nat (bound_digits ! i) / 10000 \<le> (1 :: rat)" using bound_digits_le [OF assms(2)] by simp
  then show ?thesis using bound_table_near [OF assms] by linarith
qed

lemma ub_loop_refuses:
  assumes "\<forall>t\<in>set ts. T_period t \<noteq> 0" "t \<in> set ts" "length ts \<le> 64"
    and over: "1001 * unat (T_period t) \<le> 1000 * (unat (C_time t) + unat (B_time t))"
  shows "ub_loop ts 0 (Fin 0) = Inr False"
proof (rule ccontr)
  assume "ub_loop ts 0 (Fin 0) \<noteq> Inr False"
  then have ok: "ub_loop ts 0 (Fin 0) = Inr True" using ub_loop_total [of 0 ts "Fin 0"] assms(3) by auto
  obtain k where k: "k < length ts" "ts ! k = t" using assms(2) by (auto simp: in_set_conv_nth)
  obtain b where b: "bound_table ! k = Fin b"
    "(sum_list (map exact_plain (take k ts)) + exact_this t) * (1 - eps) ^ (k + 5) \<le> b"
    using ub_loop_sound [OF ok assms(1), of 0 k] k by auto
  have T: "0 < q32 (T_period t)" using assms(1,2) by simp
  have "(of_nat (1001 * unat (T_period t)) :: rat) \<le> of_nat (1000 * (unat (C_time t) + unat (B_time t)))"
    using over by (simp only: of_nat_le_iff)
  then have ex: "1001 / 1000 \<le> exact_this t" using T by (simp add: exact_this_def q32_def field_simps)
  have "0 \<le> sum_list (map exact_plain (take k ts))" by (intro sum_list_nonneg) (auto simp: exact_plain_def)
  then have sum: "1001 / 1000 \<le> sum_list (map exact_plain (take k ts)) + exact_this t" using ex by linarith
  have "(1 - 69 * eps) \<le> 1 - of_nat (k + 5) * eps" using k(1) assms(3) by (simp add: eps_def)
  also have "\<dots> \<le> (1 - eps) ^ (k + 5)"
    using Bernoulli_inequality [of "- eps" "k + 5"] by (simp add: eps_def)
  finally have "1001 / 1000 * (1 - 69 * eps) \<le> (sum_list (map exact_plain (take k ts)) + exact_this t) * (1 - eps) ^ (k + 5)"
    using sum by (intro mult_mono) (simp_all add: eps_def)
  moreover have "b \<le> 10002 / 10000" using bound_table_small [OF b(1)] k(1) assms(3) by simp
  ultimately have "1001 / 1000 * (1 - 69 * eps) \<le> (10002 / 10000 :: rat)" using b(2) by linarith
  then show False by (simp add: eps_def)
qed

lemma assign_schedule_refuses:
  assumes "\<forall>p\<in>set tasks. T_period (rd p) \<noteq> 0" "p \<in> set tasks" "length tasks \<le> 64"
    and "1001 * unat (T_period (rd p)) \<le> 1000 * (unat (C_time (rd p)) + unat (B_time (rd p)))"
  shows "\<exists>order. assign_schedule rd tasks (length tasks) = Inr (False, order)"
proof -
  let ?o = "sort_outer rd (length tasks) tasks"
  have set: "set ?o = set tasks" using mset_sort_outer [of "length tasks" tasks rd] by (metis le_refl mset_eq_setD)
  have "ub_loop (map rd ?o) 0 (Fin 0) = Inr False"
    using assms set by (intro ub_loop_refuses [of _ "rd p"]) auto
  then show ?thesis by (simp add: assign_schedule_def)
qed



lemma ub_loop_NaN: "i + length ts \<le> 64 \<Longrightarrow> ub_loop ts i NaN = Inr True"
  by (induction ts arbitrary: i) (auto simp: bound_table_nth)


text \<open>A set of three tasks with ten times the processor's capacity, and an empty task.\<close>

definition overload :: "u32 \<Rightarrow> task_t" where
  "overload p = (if p = 0 then by_period 0\<lparr>C_time := 0\<rparr> else by_period p\<lparr>C_time := 10 * p\<rparr>)"


end
