(* ===== verification/Memory.thy ===== *)
theory Memory
  imports Kernel_State
begin

text \<open>
  Byte-addressed memory and the little-endian words in it, as the pointers of the C code
  access it.
\<close>

type_synonym memory = "u32 \<Rightarrow> u8"

definition load32 :: "memory \<Rightarrow> u32 \<Rightarrow> u32" where
  "load32 m a = ucast (m a) OR push_bit 8 (ucast (m (a + 1))) OR push_bit 16 (ucast (m (a + 2)))
     OR push_bit 24 (ucast (m (a + 3)))"

definition store32 :: "memory \<Rightarrow> u32 \<Rightarrow> u32 \<Rightarrow> memory" where
  "store32 m a w = m(a := ucast w, a + 1 := ucast (drop_bit 8 w), a + 2 := ucast (drop_bit 16 w),
                    a + 3 := ucast (drop_bit 24 w))"

text \<open>The n bytes from an address on.\<close>

definition bytes :: "memory \<Rightarrow> u32 \<Rightarrow> nat \<Rightarrow> u8 list" where
  "bytes m a n = map (\<lambda>k. m (a + of_nat k)) [0..<n]"

lemma bytes_0 [simp]: "bytes m a 0 = []"
  by (simp add: bytes_def)

lemma bytes_Suc: "bytes m a (Suc n) = m a # bytes m (a + 1) n"
  unfolding bytes_def map_upt_Suc by (simp add: add.assoc)

lemma bytes_snoc: "bytes m a (Suc n) = bytes m a n @ [m (a + of_nat n)]"
  by (simp add: bytes_def)

lemma length_bytes [simp]: "length (bytes m a n) = n"
  by (simp add: bytes_def)

text \<open>Offsets below the size of the address space do not alias.\<close>

lemma of_nat_u32_eq: "i < 2 ^ 32 \<Longrightarrow> j < 2 ^ 32 \<Longrightarrow> (of_nat i :: u32) = of_nat j \<longleftrightarrow> i = j"
  by (simp add: word_of_nat_eq_iff take_bit_nat_eq_self)

lemma offset_eq_iff:
  assumes "i < 2 ^ 32" "j < 2 ^ 32" shows "(a :: u32) + of_nat i = a + of_nat j \<longleftrightarrow> i = j"
  using of_nat_u32_eq [OF assms] by simp

lemma bytes_upd_other:
  assumes "n \<le> j" "j < 2 ^ 32" shows "bytes (m(a + of_nat j := x)) a n = bytes m a n"
proof -
  have "(m(a + of_nat j := x)) (a + of_nat k) = m (a + of_nat k)" if "k < n" for k
    using offset_eq_iff [of k j a] assms that by simp
  then show ?thesis unfolding bytes_def by (intro map_cong) auto
qed

lemma load_store32: "load32 (store32 m a w) a = w"
proof -
  have "a + of_nat i = a + of_nat j \<longleftrightarrow> i = j" if "i < 4" "j < 4" for i j
    using that by (intro offset_eq_iff) auto
  from this [of 0 1] this [of 0 2] this [of 0 3] this [of 1 2] this [of 1 3] this [of 2 3]
  have "load32 (store32 m a w) a = ucast (ucast w :: u8) OR push_bit 8 (ucast (ucast (drop_bit 8 w) :: u8))
     OR push_bit 16 (ucast (ucast (drop_bit 16 w) :: u8)) OR push_bit 24 (ucast (ucast (drop_bit 24 w) :: u8))"
    by (simp add: load32_def store32_def)
  also have "\<dots> = w"
  proof (rule bit_word_eqI)
    fix n assume "n < LENGTH(32)"
    then consider "n < 8" | "8 \<le> n" "n < 16" | "16 \<le> n" "n < 24" | "24 \<le> n" "n < 32" by fastforce
    then show "bit (ucast (ucast w :: u8) OR push_bit 8 (ucast (ucast (drop_bit 8 w) :: u8))
     OR push_bit 16 (ucast (ucast (drop_bit 16 w) :: u8))
     OR push_bit 24 (ucast (ucast (drop_bit 24 w) :: u8)) :: u32) n \<longleftrightarrow> bit w n"
      by cases (auto simp: bit_simps)
  qed
  finally show ?thesis .
qed

end
