(* ===== verification/Syscall_IO.thy ===== *)
theory Syscall_IO
  imports Memory
begin

text \<open>
  kernel/syscall/io.c: the line discipline of read and the loop of write, with the address
  checks before them. getc, putc and puts are U-Boot's: the characters still to come are
  the list uart_in, the ones sent are uart_out.
\<close>

section \<open>Operations\<close>

definition RAM_START_ADDR :: u32 where "RAM_START_ADDR = 0xa0000000"
definition RAM_END_ADDR :: u32 where "RAM_END_ADDR = 0xa4000000"
definition FLASH_END_ADDR :: u32 where "FLASH_END_ADDR = 0x01000000"
definition STDIN_FILENO :: int where "STDIN_FILENO = 0"
definition STDOUT_FILENO :: int where "STDOUT_FILENO = 1"

named_theorems io_defs
declare RAM_START_ADDR_def [io_defs] RAM_END_ADDR_def [io_defs] FLASH_END_ADDR_def [io_defs]
  STDIN_FILENO_def [io_defs] STDOUT_FILENO_def [io_defs]

definition putc :: "u8 \<Rightarrow> kstate \<Rightarrow> kstate" where
  "putc c s = s\<lparr>uart_out := uart_out s @ [c]\<rparr>"

definition put_bytes :: "u8 list \<Rightarrow> kstate \<Rightarrow> kstate" where
  "put_bytes cs s = s\<lparr>uart_out := uart_out s @ cs\<rparr>"

definition set_byte :: "u32 \<Rightarrow> u8 \<Rightarrow> kstate \<Rightarrow> kstate" where
  "set_byte a c s = s\<lparr>mem := (mem s)(a := c)\<rparr>"

text \<open>The loop over the characters that come in; None while it waits for the next one.\<close>

fun read_loop :: "u32 \<Rightarrow> u32 \<Rightarrow> u32 \<Rightarrow> u8 list \<Rightarrow> kstate \<Rightarrow> (u32 \<times> kstate) option" where
  "read_loop ptr count offset input s =
     (if offset = count then Some (offset, s\<lparr>uart_in := input\<rparr>)
      else case input of [] \<Rightarrow> None
      | c # cs \<Rightarrow>
          if c = 4 then Some (offset, s\<lparr>uart_in := cs\<rparr>)
          else if c = 8 \<or> c = 127 then
            (if offset > 0 then read_loop ptr count (offset - 1) cs (put_bytes [8, 32, 8] s)
             else read_loop ptr count offset cs s)
          else if c = 10 \<or> c = 13 then
            Some (offset, (putc 10 (set_byte (ptr + offset) 10 s))\<lparr>uart_in := cs\<rparr>)
          else read_loop ptr count (offset + 1) cs (set_byte (ptr + offset) c (putc c s)))"

declare read_loop.simps [simp del]

definition read_bad_addr :: "u32 \<Rightarrow> u32 \<Rightarrow> bool" where
  "read_bad_addr buf count \<longleftrightarrow> buf < RAM_START_ADDR \<or> buf + count - 1 > RAM_END_ADDR"

definition read_syscall :: "int \<Rightarrow> u32 \<Rightarrow> u32 \<Rightarrow> kstate \<Rightarrow> (int \<times> kstate) option" where
  "read_syscall fd buf count s =
     (if fd \<noteq> STDIN_FILENO then Some (- EBADF, s)
      else if read_bad_addr buf count then Some (- EFAULT, s)
      else map_option (\<lambda>(n, s'). (sint n, s')) (read_loop buf count 0 (uart_in s) s))"

text \<open>write sends count bytes; the counter goes up to count from below.\<close>

function write_loop :: "u32 \<Rightarrow> u32 \<Rightarrow> u32 \<Rightarrow> kstate \<Rightarrow> u32 \<times> kstate" where
  "write_loop ptr count nwritten s =
     (if nwritten = count then (nwritten, s)
      else write_loop ptr count (nwritten + 1) (putc (mem s (ptr + nwritten)) s))"
  by pat_completeness auto
termination
proof (relation "measure (\<lambda>(ptr, count, nwritten, s). unat (count - nwritten))", goal_cases)
  case (2 ptr count nwritten s)
  then have "count - nwritten \<noteq> 0" by simp
  then have "unat (count - nwritten - 1) < unat (count - nwritten)"
    using measure_unat by blast
  then show ?case by (simp add: diff_diff_eq)
qed simp

declare write_loop.simps [simp del]

definition write_bad_addr :: "u32 \<Rightarrow> u32 \<Rightarrow> bool" where
  "write_bad_addr buf count \<longleftrightarrow>
     (buf < RAM_START_ADDR \<or> buf + count - 1 > RAM_END_ADDR) \<and> buf + count - 1 > FLASH_END_ADDR"

definition write_syscall :: "int \<Rightarrow> u32 \<Rightarrow> u32 \<Rightarrow> kstate \<Rightarrow> int \<times> kstate" where
  "write_syscall fd buf count s =
     (if write_bad_addr buf count then (- EFAULT, s)
      else if fd \<noteq> STDOUT_FILENO then (- EBADF, s)
      else let (n, s') = write_loop buf count 0 s in (sint n, s'))"

section \<open>Write\<close>

lemma write_loop_spec:
  "write_loop ptr count nwritten s =
     (count, put_bytes (bytes (mem s) (ptr + nwritten) (unat (count - nwritten))) s)"
proof (induction ptr count nwritten s rule: write_loop.induct)
  case (1 ptr count nwritten s)
  show ?case
  proof (cases "nwritten = count")
    case True
    then show ?thesis by (simp add: write_loop.simps put_bytes_def)
  next
    case False
    then have "count - nwritten \<noteq> 0" by simp
    then have "unat (count - nwritten) = Suc (unat (count - nwritten - 1))"
      by (metis Suc_pred' unat_gt_0 unat_minus_one)
    then have n: "unat (count - nwritten) = Suc (unat (count - (nwritten + 1)))"
      by (simp add: diff_diff_eq)
    show ?thesis
      using False 1 unfolding n
      by (subst write_loop.simps) (simp add: bytes_Suc putc_def put_bytes_def add.assoc)
  qed
qed

text \<open>
  A write that passes the checks sends exactly the count bytes of the buffer, in
  order, changes nothing else and returns count.
\<close>

theorem write_syscall_spec:
  assumes "\<not> write_bad_addr buf count" and "fd = STDOUT_FILENO"
  shows "write_syscall fd buf count s =
    (sint count, s\<lparr>uart_out := uart_out s @ bytes (mem s) buf (unat count)\<rparr>)"
  using assms by (simp add: write_syscall_def write_loop_spec put_bytes_def)

theorem write_syscall_spec_witness:
  "write_syscall 1 0xa0000000 3 (app_startup blank_machine) = (3, (app_startup blank_machine)\<lparr>
     uart_out := [] @ bytes (\<lambda>_. 0) 0xa0000000 3\<rparr>)"
  using write_syscall_spec [of "0xa0000000" 3 1 "app_startup blank_machine"]
  by (simp add: write_bad_addr_def io_defs app_startup_def blank_machine_def)

section \<open>Read\<close>

text \<open>
  What a line editor does with the characters: the line typed so far, the finished line
  with the characters left over, or still waiting.
\<close>

fun edit_line :: "nat \<Rightarrow> u8 list \<Rightarrow> u8 list \<Rightarrow> (u8 list \<times> u8 list) option" where
  "edit_line count line input =
     (if length line = count then Some (line, input)
      else case input of [] \<Rightarrow> None
      | c # cs \<Rightarrow>
          if c = 4 \<or> c = 10 \<or> c = 13 then Some (line, cs)
          else if c = 8 \<or> c = 127 then edit_line count (butlast line) cs
          else edit_line count (line @ [c]) cs)"

declare edit_line.simps [simp del]

lemma butlast_bytes: "butlast (bytes m a n) = bytes m a (n - 1)"
  by (cases n) (simp_all add: bytes_snoc)

lemma read_loop_edits:
  assumes "unat offset \<le> unat count" and "line = bytes (mem s) ptr (unat offset)"
  shows "(case read_loop ptr count offset input s of
      None \<Rightarrow> edit_line (unat count) line input = None
    | Some (n, s') \<Rightarrow> unat n \<le> unat count
        \<and> edit_line (unat count) line input = Some (bytes (mem s') ptr (unat n), uart_in s')
        \<and> (\<forall>a. (\<forall>k<unat count. a \<noteq> ptr + of_nat k) \<longrightarrow> mem s' a = mem s a))"
  using assms
proof (induction input arbitrary: offset line s)
  case Nil
  then show ?case
    by (simp add: read_loop.simps [of _ _ _ "[]"] edit_line.simps [of _ _ "[]"] split: if_splits)
      (metis word_unat_eq_iff)
next
  case (Cons c cs)
  have len: "length line = unat offset" using Cons.prems by simp
  show ?case
  proof (cases "offset = count")
    case True
    then show ?thesis using Cons.prems
      by (simp add: read_loop.simps [of _ _ _ "c # cs"] edit_line.simps [of _ _ "c # cs"])
  next
    case False
    then have lt: "unat offset < unat count"
      using Cons.prems(1) by (metis le_neq_implies_less word_unat_eq_iff)
    have big: "unat count < 2 ^ 32" using unat_u32_less [of count] by simp
    note unf = read_loop.simps [of _ _ _ "c # cs", unfolded list.case]
      edit_line.simps [of _ _ "c # cs", unfolded list.case]
    consider "c = 4" | "c = 8 \<or> c = 127" | "c = 10 \<or> c = 13"
      | "c \<noteq> 4" "c \<noteq> 8" "c \<noteq> 127" "c \<noteq> 10" "c \<noteq> 13" by blast
    then show ?thesis
    proof cases
      case 1
      then show ?thesis unfolding unf using False lt Cons.prems len by simp
    next
      case 2
      show ?thesis
      proof (cases "offset = 0")
        case True
        then show ?thesis unfolding unf using 2 False lt len Cons.prems Cons.IH [of offset line s]
          by (auto simp: word_gt_0 split: option.splits)
      next
        case off0: False
        then have u: "unat (offset - 1) = unat offset - 1" by (simp add: unat_minus_one)
        have "butlast line = bytes (mem (put_bytes [8, 32, 8] s)) ptr (unat (offset - 1))"
          using Cons.prems(2) by (simp add: butlast_bytes u put_bytes_def)
        then show ?thesis unfolding unf
          using 2 False off0 lt len u Cons.IH [of "offset - 1" "butlast line" "put_bytes [8, 32, 8] s"]
          by (auto simp: word_gt_0 put_bytes_def split: option.splits)
      qed
    next
      case 3
      have "bytes ((mem s)(ptr + offset := 10)) ptr (unat offset) = line"
        using Cons.prems(2) lt big bytes_upd_other [of "unat offset" "unat offset" "mem s" ptr] by simp
      then show ?thesis unfolding unf using 3 False lt len Cons.prems
        by (auto simp: putc_def set_byte_def)
    next
      case 4
      let ?s = "set_byte (ptr + offset) c (putc c s)"
      have own: "ptr + offset = ptr + of_nat (unat offset)" by simp
      have u: "unat (offset + 1) = Suc (unat offset)"
        using lt by (intro unat_plus_1_u32 [of _ count]) (simp add: word_less_nat_alt)
      have "bytes ((mem s)(ptr + offset := c)) ptr (unat offset) = line"
        using Cons.prems(2) lt big bytes_upd_other [of "unat offset" "unat offset" "mem s" ptr] by simp
      then have "line @ [c] = bytes (mem ?s) ptr (unat (offset + 1))"
        unfolding u bytes_snoc by (simp add: set_byte_def putc_def)
      from Cons.IH [OF _ this]
      have IH: "case read_loop ptr count (offset + 1) cs ?s of
          None \<Rightarrow> edit_line (unat count) (line @ [c]) cs = None
        | Some (n, s') \<Rightarrow> unat n \<le> unat count
            \<and> edit_line (unat count) (line @ [c]) cs = Some (bytes (mem s') ptr (unat n), uart_in s')
            \<and> (\<forall>a. (\<forall>k<unat count. a \<noteq> ptr + of_nat k) \<longrightarrow> mem s' a = mem ?s a)"
        using u lt by simp
      have same: "mem ?s a = mem s a" if "\<forall>k<unat count. a \<noteq> ptr + of_nat k" for a
      proof -
        have "a \<noteq> ptr + offset" using that lt own by metis
        then show ?thesis by (simp add: set_byte_def putc_def)
      qed
      have step: "read_loop ptr count offset (c # cs) s = read_loop ptr count (offset + 1) cs ?s"
        "edit_line (unat count) line (c # cs) = edit_line (unat count) (line @ [c]) cs"
        unfolding unf using 4 False lt len by simp_all
      show ?thesis
        unfolding step using IH same by (simp split: option.splits) blast
    qed
  qed
qed

text \<open>
  C16: A read from standard input behaves as a line editor: it waits exactly as long as
  the editor wants more characters, returns the length of the edited line, leaves that line
  in the buffer and the characters after it unread, and writes nowhere else.
\<close>

theorem read_syscall_edits_line:
  assumes "fd = STDIN_FILENO" and "\<not> read_bad_addr buf count"
  shows "(case read_syscall fd buf count s of
      None \<Rightarrow> edit_line (unat count) [] (uart_in s) = None
    | Some (r, s') \<Rightarrow> \<exists>n :: u32. r = sint n \<and> unat n \<le> unat count
        \<and> edit_line (unat count) [] (uart_in s) = Some (bytes (mem s') buf (unat n), uart_in s')
        \<and> (\<forall>a. (\<forall>k<unat count. a \<noteq> buf + of_nat k) \<longrightarrow> mem s' a = mem s a))"
proof (cases "read_loop buf count 0 (uart_in s) s")
  case None
  then show ?thesis
    using read_loop_edits [of 0 count "[]" s buf "uart_in s"] assms by (simp add: read_syscall_def)
next
  case (Some p)
  then obtain n s' where "read_loop buf count 0 (uart_in s) s = Some (n, s')" by (cases p) simp
  then show ?thesis
    using read_loop_edits [of 0 count "[]" s buf "uart_in s"] assms
    by (simp add: read_syscall_def) (intro exI [of _ n], simp)
qed

theorem read_syscall_edits_line_witness:
  "(case read_syscall 0 0xa0000000 8 (blank_machine\<lparr>uart_in := [104, 127, 72, 105, 13, 33]\<rparr>) of
      None \<Rightarrow> edit_line (unat (8 :: u32)) [] [104, 127, 72, 105, 13, 33] = None
    | Some (r, s') \<Rightarrow> \<exists>n :: u32. r = sint n \<and> unat n \<le> unat (8 :: u32)
        \<and> edit_line (unat (8 :: u32)) [] [104, 127, 72, 105, 13, 33]
            = Some (bytes (mem s') 0xa0000000 (unat n), uart_in s')
        \<and> (\<forall>a. (\<forall>k<unat (8 :: u32). a \<noteq> 0xa0000000 + of_nat k) \<longrightarrow> mem s' a = 0))"
proof -
  let ?s = "blank_machine\<lparr>uart_in := [104, 127, 72, 105, 13, 33]\<rparr>"
  have "uart_in ?s = [104, 127, 72, 105, 13, 33]" "mem ?s = (\<lambda>_. 0)"
    by (simp_all add: blank_machine_def)
  then show ?thesis
    using read_syscall_edits_line [of 0 "0xa0000000" 8 ?s]
    by (simp only: read_bad_addr_def io_defs) simp
qed

section \<open>The address checks\<close>

text \<open>
  The bound of read is one byte too generous and ignores the wrap-around of
  buf + count - 1: the byte just after the end of RAM is accepted, and so is a count of
  0x60000001 bytes that runs from the start of RAM to the top of the address space.
\<close>

theorem read_check_too_weak:
  "\<not> read_bad_addr RAM_END_ADDR 1 \<and> \<not> read_bad_addr RAM_START_ADDR 0x60000001
   \<and> unat RAM_START_ADDR + 0x60000001 > 2 ^ 32"
  by (simp add: read_bad_addr_def io_defs)

end
