(* ===== verification/Int_Math.thy ===== *)
theory Int_Math
  imports Gravel_Prelude
begin

text \<open>
  kernel/math.c and kernel/memcheck.c: the checksum of a region, both versions of the
  integer logarithm, the greatest common divisors, and the address range check that guards
  task_create.
\<close>

section \<open>sum_region\<close>

text \<open>The buffer is the list of words at buf; reading past it is out of bounds.\<close>

function sum_region_loop :: "u32 list \<Rightarrow> u32 \<Rightarrow> u32 \<Rightarrow> u32 \<Rightarrow> u32 res" where
  "sum_region_loop buf num_words i result =
     (if i \<noteq> num_words
      then if unat i < length buf
           then sum_region_loop buf num_words (i + 1) (result + buf ! unat i)
           else Inl OutOfBounds
      else Inr result)"
  by pat_completeness auto
termination
proof (relation "measure (\<lambda>(_, n, i, _). unat (n - i))")
  fix num_words i :: u32
  assume "i \<noteq> num_words"
  then have "num_words - i \<noteq> 0" by simp
  then have "unat (num_words - i - 1) < unat (num_words - i)"
    using measure_unat by blast
  then show "((buf, num_words, i + 1, r'), (buf, num_words, i, r))
      \<in> measure (\<lambda>(_, n, i, _). unat (n - i))" for buf r r'
    by (simp add: diff_diff_eq)
qed simp

declare sum_region_loop.simps [simp del]

definition sum_region :: "u32 list \<Rightarrow> u32 \<Rightarrow> u32 res" where
  "sum_region buf num_words = sum_region_loop buf num_words 0 0"

section \<open>ilog2\<close>

text \<open>The debug version shifts once per bit.\<close>

lemma unat_half: "unat (drop_bit 1 (x :: u32)) = unat x div 2"
  by (simp add: drop_bit_eq_div unat_div_distrib)

function ilog2_debug_loop :: "u32 \<Rightarrow> u32 \<Rightarrow> u32" where
  "ilog2_debug_loop x r =
     (let x' = drop_bit 1 x in if x' \<noteq> 0 then ilog2_debug_loop x' (r + 1) else r)"
  by pat_completeness auto
termination
  by (relation "measure (\<lambda>(x, _). unat x)")
    (auto simp: unat_half [unfolded One_nat_def] Let_def word_less_nat_alt simp flip: unat_eq_zero)

declare ilog2_debug_loop.simps [simp del]

definition ilog2_debug :: "u32 \<Rightarrow> u32" where
  "ilog2_debug x = ilog2_debug_loop x 0"

text \<open>The optimised version halves the interval, from the highest table entry down.\<close>

definition ilog2_b :: "u32 list" where
  "ilog2_b = [0x2, 0xC, 0xF0, 0xFF00, 0xFFFF0000]"

definition ilog2_S :: "u32 list" where
  "ilog2_S = [1, 2, 4, 8, 16]"

definition ilog2_step :: "nat \<Rightarrow> u32 \<times> u32 \<Rightarrow> u32 \<times> u32" where
  "ilog2_step i vr = (case vr of (v, r) \<Rightarrow>
     if v AND ilog2_b ! i \<noteq> 0
     then (drop_bit (unat (ilog2_S ! i)) v, r OR ilog2_S ! i)
     else (v, r))"

definition ilog2 :: "u32 \<Rightarrow> u32" where
  "ilog2 v = snd (fold ilog2_step [4, 3, 2, 1, 0] (v, 0))"

section \<open>gcd\<close>

function gcd_c :: "u32 \<Rightarrow> u32 \<Rightarrow> u32" where
  "gcd_c a b = (if a = 0 then b else gcd_c (b mod a) a)"
  by pat_completeness auto
termination
  by (relation "measure (\<lambda>(a, _). unat a)") (auto simp: unat_mod_distrib unat_gt_0)

declare gcd_c.simps [simp del]

definition gcd4 :: "u32 list \<Rightarrow> u32" where
  "gcd4 arr =
     (let a = arr ! 0; b = arr ! 1; c = arr ! 2; d = arr ! 3;
          res = gcd_c a b;
          res = gcd_c res c;
          res = gcd_c res d
      in res)"

section \<open>valid_addr\<close>

definition valid_addr :: "u32 \<Rightarrow> u32 \<Rightarrow> u32 \<Rightarrow> u32 \<Rightarrow> bool" where
  "valid_addr start cnt base bound =
     (let mem_start = start; mem_end = start + cnt
      in if mem_start < base \<or> mem_start \<ge> bound then False
         else if mem_end < mem_start \<or> mem_end > bound then False
         else True)"

section \<open>Lemmas\<close>

lemma sum_region_loop_eq:
  assumes "unat i \<le> unat n" and "unat n \<le> length buf"
  shows "sum_region_loop buf n i r = Inr (r + sum_list (take (unat n - unat i) (drop (unat i) buf)))"
  using assms
proof (induction buf n i r rule: sum_region_loop.induct)
  case (1 buf n i r)
  show ?case
  proof (cases "i = n")
    case True
    then show ?thesis by (subst sum_region_loop.simps) simp
  next
    case False
    then have lt: "unat i < unat n"
      using "1.prems" by (simp add: le_less word_unat_eq_iff)
    then have "unat (i + 1) = Suc (unat i)"
      by (simp add: unat_plus_1_u32 word_less_nat_alt)
    moreover have "take (unat n - unat i) (drop (unat i) buf)
        = buf ! unat i # take (unat n - Suc (unat i)) (drop (Suc (unat i)) buf)"
      using lt "1.prems" by (simp add: Cons_nth_drop_Suc [symmetric] take_Cons' )
    ultimately show ?thesis
      using False lt "1.IH" "1.prems"
      by (simp add: sum_region_loop.simps [of buf n i r] add.assoc)
  qed
qed

theorem sum_region_sums:
  assumes "unat n \<le> length buf"
  shows "sum_region buf n = Inr (sum_list (take (unat n) buf))"
  using sum_region_loop_eq [of 0 n buf 0] assms by (simp add: sum_region_def)

lemma gcd_c_correct: "unat (gcd_c a b) = gcd (unat a) (unat b)"
proof (induction a b rule: gcd_c.induct)
  case (1 a b)
  show ?case
  proof (cases "a = 0")
    case True
    then show ?thesis by (subst gcd_c.simps) simp
  next
    case False
    then have "unat (gcd_c a b) = gcd (unat b mod unat a) (unat a)"
      using "1.IH" by (subst gcd_c.simps) (simp add: unat_mod_distrib)
    then show ?thesis
      by (metis gcd.commute gcd_red_nat)
  qed
qed

text \<open>Both logarithms return the position of the highest set bit.\<close>

definition log2_of :: "nat \<Rightarrow> nat \<Rightarrow> bool" where
  "log2_of n k \<longleftrightarrow> 2 ^ k \<le> n \<and> n < 2 ^ Suc k"

lemma log2_of_double: "log2_of (n div 2) k \<Longrightarrow> log2_of n (Suc k)"
  by (auto simp: log2_of_def)

lemma log2_of_unique:
  assumes "log2_of n k" and "log2_of n l"
  shows "k = l"
proof -
  have "(2 :: nat) ^ k < 2 ^ Suc l" and "(2 :: nat) ^ l < 2 ^ Suc k"
    using assms unfolding log2_of_def by linarith+
  then have "k < Suc l" and "l < Suc k"
    by (simp_all only: power_strict_increasing_iff one_less_numeral_iff semiring_norm)
  then show ?thesis by simp
qed

lemma ilog2_debug_loop_eq:
  assumes "x \<noteq> 0"
  shows "\<exists>k. ilog2_debug_loop x r = r + of_nat k \<and> log2_of (unat x) k"
  using assms
proof (induction x r rule: ilog2_debug_loop.induct)
  case (1 x r)
  have half: "unat (drop_bit 1 x) = unat x div 2"
    by (rule unat_half)
  show ?case
  proof (cases "drop_bit 1 x = 0")
    case True
    then have "unat x div 2 = 0" using half by simp
    moreover have "unat x \<noteq> 0" using "1.prems" by (simp add: unat_eq_zero)
    ultimately have "log2_of (unat x) 0" by (auto simp: log2_of_def)
    moreover have "ilog2_debug_loop x r = r"
      using True by (subst ilog2_debug_loop.simps) simp
    ultimately show ?thesis by (intro exI [of _ 0]) simp
  next
    case False
    then obtain k where "ilog2_debug_loop (drop_bit 1 x) (r + 1) = r + 1 + of_nat k"
      and "log2_of (unat (drop_bit 1 x)) k"
      using "1.IH" by auto
    moreover have "ilog2_debug_loop x r = ilog2_debug_loop (drop_bit 1 x) (r + 1)"
      using False by (subst ilog2_debug_loop.simps) (simp add: Let_def)
    ultimately show ?thesis
      using half by (intro exI [of _ "Suc k"]) (simp add: log2_of_double)
  qed
qed

text \<open>
  One step of the optimised version: below the bound \<open>2 ^ (2 s)\<close> the mask tests whether
  the upper half of the remaining bits holds anything.
\<close>

lemma and_high_half:
  fixes v :: u32
  assumes "unat v < 2 ^ (2 * s)" and "2 * s \<le> 32"
  shows "v AND push_bit s (mask s) = 0 \<longleftrightarrow> unat v < 2 ^ s"
proof -
  have high: "\<not> bit v n" if "2 * s \<le> n" for n
  proof -
    have "unat v < 2 ^ n"
      by (rule less_le_trans [OF assms(1) power_increasing [OF that]]) simp
    then show ?thesis by (simp add: bit_unat_iff)
  qed
  have mid: "bit (push_bit s (mask s) :: u32) n" if "s \<le> n" "n < 2 * s" for n
  proof -
    have "n < 32" "n - s < s" using that assms(2) by linarith+
    then show ?thesis using that by (simp add: bit_simps)
  qed
  have "v AND push_bit s (mask s) = 0 \<longleftrightarrow> drop_bit s v = 0"
  proof
    assume *: "v AND push_bit s (mask s) = 0"
    have "\<not> bit v n" if "s \<le> n" for n
    proof (cases "2 * s \<le> n")
      case False
      then have "bit (v AND push_bit s (mask s)) n \<longleftrightarrow> bit v n"
        using mid [OF that] by (simp only: bit_and_iff not_le) simp
      then show ?thesis using * by simp
    qed (rule high)
    then show "drop_bit s v = 0"
      by (intro bit_word_eqI) (simp add: bit_drop_bit_eq)
  next
    assume *: "drop_bit s v = 0"
    have "\<not> bit v n" if "s \<le> n" for n
    proof -
      have "bit (drop_bit s v) (n - s) \<longleftrightarrow> bit v n"
        using that by (simp add: bit_drop_bit_eq)
      then show ?thesis using * by simp
    qed
    then show "v AND push_bit s (mask s) = 0"
      by (intro bit_word_eqI) (auto simp: bit_and_iff bit_push_bit_iff)
  qed
  also have "\<dots> \<longleftrightarrow> unat v < 2 ^ s"
    by (metis div_eq_0_iff drop_bit_eq_div power_not_zero unat_0 unat_drop_bit_eq word_unat_eq_iff zero_neq_numeral)
  finally show ?thesis .
qed

text \<open>What is left of the argument, and the bits of the result not yet decided.\<close>

definition ilog2_inv :: "u32 \<Rightarrow> nat \<Rightarrow> u32 \<times> u32 \<Rightarrow> bool" where
  "ilog2_inv v0 i vr \<longleftrightarrow> (case vr of (v, r) \<Rightarrow>
     v \<noteq> 0 \<and> unat v < 2 ^ (2 ^ i) \<and> unat r < 32 \<and> (\<forall>n<i. \<not> bit r n)
     \<and> unat v = unat v0 div 2 ^ unat r)"

lemma ilog2_tables:
  "i < 5 \<Longrightarrow> ilog2_S ! i = 2 ^ i \<and> ilog2_b ! i = push_bit (2 ^ i) (mask (2 ^ i))"
proof -
  assume "i < 5"
  then consider "i = 0" | "i = 1" | "i = 2" | "i = 3" | "i = 4" by linarith
  then show ?thesis
    by cases (simp_all add: ilog2_S_def ilog2_b_def mask_eq_exp_minus_1 push_bit_eq_mult eval_nat_numeral)
qed

lemma unat_pow2_small: "i < 5 \<Longrightarrow> unat ((2 :: u32) ^ i) = 2 ^ i"
proof -
  assume "i < 5"
  then consider "i = 0" | "i = 1" | "i = 2" | "i = 3" | "i = 4" by linarith
  then show ?thesis by cases simp_all
qed

lemma or_single_bit:
  fixes r :: u32
  assumes "\<not> bit r i" and "i < 5" and "unat r < 32"
  shows "unat (r OR 2 ^ i) = unat r + 2 ^ i" and "unat (r OR 2 ^ i) < 32"
    and "n < i \<Longrightarrow> bit (r OR 2 ^ i) n \<longleftrightarrow> bit r n"
proof -
  have pow: "unat ((2 :: u32) ^ i) = 2 ^ i"
    using assms(2) by (rule unat_pow2_small)
  have disj: "unat r AND 2 ^ i = 0"
    using assms(1) by (simp add: and_exp_eq_0_iff_not_bit bit_unsigned_iff)
  show "unat (r OR 2 ^ i) = unat r + 2 ^ i"
    using disj by (simp add: unsigned_or_eq pow disjunctive_add_eq_or)
  have "(2 :: nat) ^ i < 2 ^ 5"
    using assms(2) by (simp only: power_strict_increasing_iff one_less_numeral_iff semiring_norm)
  then have "take_bit 5 (unat r OR 2 ^ i) = unat r OR 2 ^ i"
    using assms(2,3) take_bit_nat_eq_self_iff [of 5 "unat r"] by (simp add: take_bit_or)
  then have "unat r OR 2 ^ i < 2 ^ 5"
    unfolding take_bit_nat_eq_self_iff .
  then show "unat (r OR 2 ^ i) < 32"
    by (simp add: unsigned_or_eq pow)
  show "n < i \<Longrightarrow> bit (r OR 2 ^ i) n \<longleftrightarrow> bit r n"
    by (simp add: bit_simps)
qed

lemma ilog2_step_inv:
  assumes i: "i < 5" and inv: "ilog2_inv v0 (Suc i) vr"
  shows "ilog2_inv v0 i (ilog2_step i vr)"
proof -
  obtain v r where vr: "vr = (v, r)" by force
  have v: "v \<noteq> 0" "unat v < 2 ^ (2 * 2 ^ i)" "unat r < 32" "\<forall>n<Suc i. \<not> bit r n"
    "unat v = unat v0 div 2 ^ unat r"
    using inv by (simp_all add: ilog2_inv_def vr)
  have "(2 :: nat) ^ i \<le> 2 ^ 4"
    using i by (intro power_increasing) simp_all
  then have test: "v AND ilog2_b ! i = 0 \<longleftrightarrow> unat v < 2 ^ 2 ^ i"
    using and_high_half [OF v(2)] i by (simp add: ilog2_tables)
  show ?thesis
  proof (cases "v AND ilog2_b ! i = 0")
    case True
    then show ?thesis
      using v test by (simp add: ilog2_inv_def ilog2_step_def vr)
  next
    case False
    have pow: "unat ((2 :: u32) ^ i) = 2 ^ i"
      using i by (rule unat_pow2_small)
    have drop: "unat (drop_bit (2 ^ i) v) = unat v div 2 ^ 2 ^ i"
      by (simp only: unat_drop_bit_eq) (simp only: drop_bit_eq_div)
    have "unat v div 2 ^ 2 ^ i < 2 ^ 2 ^ i"
      using v(2) by (intro less_mult_imp_div_less) (simp add: mult_2 power_add)
    moreover have "unat v div 2 ^ 2 ^ i \<noteq> 0"
      using False test by (simp add: div_eq_0_iff)
    moreover have "unat v div 2 ^ 2 ^ i = unat v0 div 2 ^ (unat r + 2 ^ i)"
      using v(5) by (simp add: power_add div_mult2_eq)
    ultimately show ?thesis
      using v False i or_single_bit [of r i]
      by (auto simp: ilog2_inv_def ilog2_step_def vr ilog2_tables pow drop simp flip: unat_eq_zero)
  qed
qed

section \<open>Properties\<close>

text \<open>
  C33: For every non-zero argument both versions of ilog2 (the shifting loop of the debug
  build and the table of the optimised build) return the number k with
  \<open>2 ^ k \<le> v < 2 ^ (k + 1)\<close>, so the two builds agree.
\<close>

theorem ilog2_both_correct:
  assumes "v \<noteq> 0"
  shows "ilog2 v = ilog2_debug v \<and> 2 ^ unat (ilog2 v) \<le> unat v \<and> unat v < 2 ^ Suc (unat (ilog2 v))"
proof -
  have "ilog2_inv v 5 (v, 0)"
    using assms by (simp add: ilog2_inv_def unat_u32_less)
  then have "ilog2_inv v 0 (fold ilog2_step [4, 3, 2, 1, 0] (v, 0))"
    using ilog2_step_inv by (simp add: eval_nat_numeral)
  then obtain v' r where r: "fold ilog2_step [4, 3, 2, 1, 0] (v, 0) = (v', r)"
    and inv: "unat v' < 2" "v' \<noteq> 0" "unat v' = unat v div 2 ^ unat r"
    by (auto simp: ilog2_inv_def split: prod.splits)
  have "unat v' = 1"
    using inv(1,2) unat_eq_zero [of v'] by linarith
  have opt: "log2_of (unat v) (unat r)"
  proof -
    have "unat v = 2 ^ unat r + unat v mod 2 ^ unat r"
      using \<open>unat v' = 1\<close> inv(3) div_mult_mod_eq [of "unat v" "2 ^ unat r"] by simp
    moreover have "unat v mod 2 ^ unat r < 2 ^ unat r" by simp
    ultimately show ?thesis unfolding log2_of_def power_Suc by linarith
  qed
  obtain k where k: "ilog2_debug v = of_nat k" "log2_of (unat v) k"
    using ilog2_debug_loop_eq [OF assms, of 0] by (auto simp: ilog2_debug_def)
  have "unat r = k"
    using opt k(2) by (rule log2_of_unique)
  then show ?thesis
    using r opt k by (auto simp: ilog2_def log2_of_def)
qed

theorem ilog2_both_correct_witness:
  "ilog2 1000 = ilog2_debug 1000 \<and> 2 ^ unat (ilog2 1000) \<le> unat (1000 :: u32)
     \<and> unat (1000 :: u32) < 2 ^ Suc (unat (ilog2 1000))"
  by (rule ilog2_both_correct) simp


text \<open>
  valid_addr accepts a buffer exactly when it starts inside the segment, does not run
  past its end and does not wrap around the address space: the unsigned comparisons of the
  code decide the inequality over unbounded numbers.
\<close>

theorem valid_addr_iff:
  "valid_addr start cnt base bound \<longleftrightarrow>
     unat base \<le> unat start \<and> unat start < unat bound \<and> unat start + unat cnt \<le> unat bound"
proof (cases "unat start + unat cnt < 4294967296")
  case True
  then have "unat (start + cnt) = unat start + unat cnt"
    by (simp add: unat_word_ariths)
  then show ?thesis
    by (auto simp: valid_addr_def word_less_nat_alt word_le_nat_alt)
next
  case False
  have "(unat start + unat cnt) mod 4294967296 = unat start + unat cnt - 4294967296"
  proof -
    have "unat start + unat cnt - 4294967296 < 4294967296"
      using unat_u32_less [of start] unat_u32_less [of cnt] by linarith
    then show ?thesis
      using False by (metis le_mod_geq mod_less not_less)
  qed
  then have "unat (start + cnt) < unat start"
    using False unat_u32_less [of cnt] by (simp add: unat_word_ariths)
  then have "\<not> valid_addr start cnt base bound"
    by (auto simp: valid_addr_def word_less_nat_alt)
  moreover have "\<not> unat start + unat cnt \<le> unat bound"
    using False unat_u32_less [of bound] by linarith
  ultimately show ?thesis by simp
qed

text \<open>
  gcd4 returns the greatest common divisor of the four numbers, computed by the
  word-level Euclidean recursion of gcd.
\<close>

theorem gcd4_correct:
  "unat (gcd4 [a, b, c, d]) = gcd (gcd (gcd (unat a) (unat b)) (unat c)) (unat d)"
  by (simp add: gcd4_def gcd_c_correct)

end
