(* ===== verification/Syscalls.thy ===== *)
theory Syscalls
  imports Timer Device UB_Test Syscall_IO Int_Math
begin

text \<open>
  kernel/syscall/proc.c, kernel/kernel_helpers.c and kernel/main.c: creating a task set,
  waiting for a device, the timer interrupt, the dispatch of system calls, the wiring of
  the exception vectors and the start of the kernel.
\<close>

section \<open>Process calls\<close>

text \<open>A task descriptor as it lies in memory.\<close>

definition sizeof_task :: nat where "sizeof_task = 24"

definition read_task :: "memory \<Rightarrow> u32 \<Rightarrow> task_t" where
  "read_task m p = \<lparr>lambda = load32 m p, data = load32 m (p + 4), stack_pos = load32 m (p + 8),
     C_time = load32 m (p + 12), T_period = load32 m (p + 16), B_time = load32 m (p + 20)\<rparr>"

text \<open>
  malloc is U-Boot's: it is given the size and returns an address, 0 when out of memory. The
  array it returns holds pointers to the descriptors and nothing else reads or writes it.
\<close>

definition task_pointers :: "u32 \<Rightarrow> nat \<Rightarrow> u32 list" where
  "task_pointers tasks num_tasks = map (\<lambda>i. tasks + of_nat (i * sizeof_task)) [0..<num_tasks]"

definition task_create :: "(u32 \<Rightarrow> u32) \<Rightarrow> kstate \<Rightarrow> u32 \<Rightarrow> u32 \<Rightarrow> (int outcome \<times> kstate) res" where
  "task_create malloc s tasks num_tasks =
     (if num_tasks > of_nat OS_AVAIL_TASKS then Inr (Returned (- EINVAL), s)
      else if \<not> valid_addr tasks (num_tasks * of_nat sizeof_task) USR_START_ADDR USR_END_ADDR
      then Inr (Returned (- EFAULT), s)
      else
        let n = unat num_tasks; rd = read_task (mem s); tasks_ptr_arr = task_pointers tasks n
        in if malloc (4 * num_tasks) = 0 \<and> n > 0 then Inl NullDeref
           else bind (assign_schedule rd tasks_ptr_arr n) (\<lambda>(ok, tasks_ptr_arr).
             if \<not> ok then Inr (Returned (- ESCHED), s)
             else bind (allocate_tasks rd tasks_ptr_arr n (dev_init s)) (\<lambda>s1.
                  bind (sched_init s1) (\<lambda>s2. Inr (Switched, s2)))))"

text \<open>
  event_wait up to the point where dev_wait has queued the task and enabled interrupts: a
  return value, or None when the task goes on to sleep.
\<close>

definition event_wait_enter :: "kstate \<Rightarrow> u32 \<Rightarrow> (int option \<times> kstate) res" where
  "event_wait_enter s dev =
     bind (deref s (get_cur_tcb s)) (\<lambda>c.
       if holds_lock (system_tcb s ! c) \<noteq> 0 then Inr (Some (- EHOLDSLOCK), s)
       else if dev \<ge> of_nat NUM_DEVICES then Inr (Some (- EINVAL), s)
       else bind (dev_wait_enqueue s (unat dev)) (\<lambda>s1. Inr (None, s1)))"

definition event_wait :: "kstate \<Rightarrow> u32 \<Rightarrow> (int outcome \<times> kstate) res" where
  "event_wait s dev =
     bind (event_wait_enter s dev) (\<lambda>(r, s1).
       case r of Some v \<Rightarrow> Inr (Returned v, s1)
       | None \<Rightarrow> bind (dev_wait_sleep s1) (\<lambda>s2. Inr (Switched, s2)))"

definition invalid_syscall :: "u32 \<Rightarrow> 'a res" where
  "invalid_syscall call_num = Inl KernelPanic"

section \<open>Interrupts and system calls\<close>

definition C_IRQ_handler :: "kstate \<Rightarrow> resume_point \<Rightarrow> (unit outcome \<times> kstate) res" where
  "C_IRQ_handler s k =
     (if reg_read s INT_ICPR_ADDR AND push_bit INT_OSTMR_0 1 \<noteq> 0
      then
        let s1 = s\<lparr>sys_time := sys_time s + TIME_RESOLUTION\<rparr>;
            s2 = reg_set s1 OSTMR_OSSR_ADDR OSTMR_OSSR_M0
        in bind (update_timer s2 TIME_RESOLUTION) (\<lambda>s3. dev_update s3 (sys_time s3) k)
      else Inr (Returned (), s))"

text \<open>The registers the assembly saved; the call's result goes to the first one.\<close>

record ex_context =
  ex_r0 :: u32
  ex_r1 :: u32
  ex_r2 :: u32
  ex_r3 :: u32
  ex_r4 :: u32
  ex_r5 :: u32
  ex_r6 :: u32
  ex_r7 :: u32
  ex_r8 :: u32
  ex_r9 :: u32
  ex_r10 :: u32
  ex_r11 :: u32
  ex_r12 :: u32

definition SWI_BASE :: u32 where "SWI_BASE = 0x900000"
definition READ_SWI :: u32 where "READ_SWI = SWI_BASE + 3"
definition WRITE_SWI :: u32 where "WRITE_SWI = SWI_BASE + 4"
definition TIME_SWI :: u32 where "TIME_SWI = SWI_BASE + 6"
definition SLEEP_SWI :: u32 where "SLEEP_SWI = SWI_BASE + 7"
definition CREATE_SWI :: u32 where "CREATE_SWI = SWI_BASE + 10"
definition MUTEX_CREATE :: u32 where "MUTEX_CREATE = SWI_BASE + 15"
definition MUTEX_LOCK :: u32 where "MUTEX_LOCK = SWI_BASE + 16"
definition MUTEX_UNLOCK :: u32 where "MUTEX_UNLOCK = SWI_BASE + 17"
definition EVENT_WAIT :: u32 where "EVENT_WAIT = SWI_BASE + 20"

named_theorems swi_defs
declare SWI_BASE_def [swi_defs] READ_SWI_def [swi_defs] WRITE_SWI_def [swi_defs]
  TIME_SWI_def [swi_defs] SLEEP_SWI_def [swi_defs] CREATE_SWI_def [swi_defs]
  MUTEX_CREATE_def [swi_defs] MUTEX_LOCK_def [swi_defs] MUTEX_UNLOCK_def [swi_defs]
  EVENT_WAIT_def [swi_defs]

text \<open>A call returns, leaves its thread switched away, or still waits for input or time.\<close>

datatype swi_result = Done ex_context | Switched_away | Waiting

definition swi_return :: "ex_context \<Rightarrow> int outcome \<Rightarrow> swi_result" where
  "swi_return c r = (case r of Returned v \<Rightarrow> Done (c\<lparr>ex_r0 := int_to_reg v\<rparr>) | Switched \<Rightarrow> Switched_away)"

definition swi_dispatch :: "(u32 \<Rightarrow> u32) \<Rightarrow> u32 list \<Rightarrow> u32 \<Rightarrow> ex_context \<Rightarrow> kstate
    \<Rightarrow> (swi_result \<times> kstate) res" where
  "swi_dispatch malloc readings swi_number c s =
     (let ret = (\<lambda>v s'. Inr (Done (c\<lparr>ex_r0 := int_to_reg v\<rparr>), s'));
          out = (\<lambda>(r, s'). Inr (swi_return c r, s'))
      in if swi_number = READ_SWI then
           (case read_syscall (reg_to_int (ex_r0 c)) (ex_r1 c) (ex_r2 c) s of
              None \<Rightarrow> Inr (Waiting, s) | Some (v, s') \<Rightarrow> ret v s')
         else if swi_number = WRITE_SWI then
           (let (v, s') = write_syscall (reg_to_int (ex_r0 c)) (ex_r1 c) (ex_r2 c) s in ret v s')
         else if swi_number = TIME_SWI then Inr (Done (c\<lparr>ex_r0 := time_syscall s\<rparr>), s)
         else if swi_number = SLEEP_SWI then
           (case sleep_syscall (ex_r0 c) readings of
              None \<Rightarrow> Inr (Waiting, s) | Some _ \<Rightarrow> Inr (Done c, s))
         else if swi_number = MUTEX_CREATE then (let (v, s') = mutex_create s in ret v s')
         else if swi_number = MUTEX_LOCK then bind (mutex_lock s (reg_to_int (ex_r0 c))) out
         else if swi_number = MUTEX_UNLOCK then
           bind (mutex_unlock s (reg_to_int (ex_r0 c))) (\<lambda>(v, s'). ret v s')
         else if swi_number = CREATE_SWI then bind (task_create malloc s (ex_r0 c) (ex_r1 c)) out
         else if swi_number = EVENT_WAIT then bind (event_wait s (ex_r0 c)) out
         else invalid_syscall swi_number)"

section \<open>Vectors\<close>

definition NUM_EXCEPTIONS :: nat where "NUM_EXCEPTIONS = 8"
definition EX_SWI :: nat where "EX_SWI = 2"
definition EX_IRQ :: nat where "EX_IRQ = 6"

definition wiring_handler :: "kstate \<Rightarrow> nat \<Rightarrow> u32 \<Rightarrow> (int \<times> kstate) res" where
  "wiring_handler s vec_num handler_addr =
     (let vector_addr = of_nat vec_num * 4;
          offset = load32 (mem s) vector_addr XOR 0xe59ff000
      in if offset > 0xfff then Inr (- 1, s)
         else if vec_num \<ge> length (uboot_handler_addr s) \<or> vec_num \<ge> length (instruction_backup s)
         then Inl OutOfBounds
         else
           let ptr_to_handler_addr = offset + vector_addr + 8;
               h = load32 (mem s) ptr_to_handler_addr;
               s1 = s\<lparr>uboot_handler_addr := (uboot_handler_addr s)[vec_num := h]\<rparr>;
               s2 = s1\<lparr>instruction_backup := (instruction_backup s1)[vec_num :=
                        (load32 (mem s1) h, load32 (mem s1) (h + 4))]\<rparr>;
               s3 = s2\<lparr>mem := store32 (mem s2) h 0xe51ff004\<rparr>
           in Inr (1, s3\<lparr>mem := store32 (mem s3) (h + 4) handler_addr\<rparr>))"

definition restore_handler :: "kstate \<Rightarrow> nat \<Rightarrow> kstate res" where
  "restore_handler s vec_num =
     (if vec_num < NUM_EXCEPTIONS
      then if vec_num \<ge> length (uboot_handler_addr s) \<or> vec_num \<ge> length (instruction_backup s)
           then Inl OutOfBounds
           else
             let h = uboot_handler_addr s ! vec_num;
                 s1 = s\<lparr>mem := store32 (mem s) h (fst (instruction_backup s ! vec_num))\<rparr>
             in Inr (s1\<lparr>mem := store32 (mem s1) (h + 4) (snd (instruction_backup s1 ! vec_num))\<rparr>)
      else Inr s)"

text \<open>A vector that is not a load from the literal pool is reported on the serial line only.\<close>

definition init_interrupt :: "u32 \<Rightarrow> kstate \<Rightarrow> kstate res" where
  "init_interrupt irq_handler s = bind (wiring_handler s EX_IRQ irq_handler) (\<lambda>(_, s1). Inr s1)"

definition init_swi :: "u32 \<Rightarrow> kstate \<Rightarrow> kstate res" where
  "init_swi swi_handler s = bind (wiring_handler s EX_SWI swi_handler) (\<lambda>(_, s1). Inr s1)"

section \<open>Start\<close>

text \<open>kmain up to its entry into the user program.\<close>

definition kmain :: "u32 \<Rightarrow> u32 \<Rightarrow> u32 \<Rightarrow> kstate \<Rightarrow> kstate res" where
  "kmain irq_handler swi_handler table s =
     (let s1 = app_startup s;
          s2 = s1\<lparr>global_data := table\<rparr>
      in bind (init_interrupt irq_handler s2) (\<lambda>s3.
         bind (init_swi swi_handler s3) (\<lambda>s4.
         bind (init_timer s4) (\<lambda>s5. Inr (mutex_init s5)))))"

text \<open>panic and the division handler print, mask interrupts (panic only) and spin.\<close>

definition panic :: "kstate \<Rightarrow> kerror \<times> kstate" where
  "panic s = (Diverges, disable_interrupts (put_bytes [80, 65, 78, 73, 67, 33] s))"

definition raise_kernel :: "kstate \<Rightarrow> kerror \<times> kstate" where
  "raise_kernel s =
     (Diverges, put_bytes [68, 105, 118, 105, 100, 101, 32, 98, 121, 32, 122, 101, 114, 111, 32, 45,
        45, 32, 73, 110, 32, 107, 101, 114, 110, 101, 108, 10] s)"

end
