(* ===== verification/Sched_Spec.thy ===== *)
theory Sched_Spec
  imports Kernel_State
begin

text \<open>
  What the scheduler does, without its data structures: which task runs, which are ready,
  which wait for a device, and where each suspended one resumes. The kernel's steps are
  shown to be sequences of these steps; the invariant and the preservation of tasks are
  proved here.
\<close>

record sched_view =
  v_cur :: nat
  v_ready :: "nat set"
  v_waiting :: "nat set"
  v_point :: "nat \<Rightarrow> resume_point"
  v_window :: bool

text \<open>The tasks of a set of n, and the idle task.\<close>

definition live :: "nat \<Rightarrow> nat set" where
  "live n = {1..n} \<union> {63}"

section \<open>Steps\<close>

definition v_switch :: "nat \<Rightarrow> sched_view \<Rightarrow> sched_view" where
  "v_switch t v = v\<lparr>v_cur := t, v_ready := v_ready v - {t},
     v_window := (v_point v t = In_irq_over_dev_wait)\<rparr>"

definition v_enqueue :: "sched_view \<Rightarrow> sched_view" where
  "v_enqueue v = v\<lparr>v_waiting := insert (v_cur v) (v_waiting v), v_window := True\<rparr>"

definition v_fire :: "nat set \<Rightarrow> sched_view \<Rightarrow> sched_view" where
  "v_fire F v = v\<lparr>v_ready := v_ready v \<union> F, v_waiting := v_waiting v - F\<rparr>"

definition v_preempt :: "nat \<Rightarrow> sched_view \<Rightarrow> sched_view" where
  "v_preempt t v = v_switch t (v\<lparr>v_ready := insert (v_cur v) (v_ready v),
     v_point := (v_point v)(v_cur v := if v_window v then In_irq_over_dev_wait else In_irq_over_user)\<rparr>)"

definition v_sleep :: "nat \<Rightarrow> sched_view \<Rightarrow> sched_view" where
  "v_sleep t v = v_switch t (v\<lparr>v_point := (v_point v)(v_cur v := In_dev_wait)\<rparr>)"

text \<open>
  The task that takes over is the ready one of the highest priority (the lowest number), and
  it preempts only a task of lower priority. The flag of a step says that a device fired, or a preemption happened, while the running
  task was between queueing and sleeping.
\<close>

inductive vstep :: "bool \<Rightarrow> sched_view \<Rightarrow> sched_view \<Rightarrow> bool" where
  enqueue: "\<not> v_window v \<Longrightarrow> v_cur v \<noteq> 63 \<Longrightarrow> vstep False v (v_enqueue v)"
| fire: "F \<subseteq> v_waiting v \<Longrightarrow> vstep (v_window v) v (v_fire F v)"
| preempt: "t \<in> v_ready v \<Longrightarrow> \<forall>r\<in>v_ready v. t \<le> r \<Longrightarrow> t < v_cur v
     \<Longrightarrow> vstep (v_window v) v (v_preempt t v)"
| sleep: "v_window v \<Longrightarrow> t \<in> v_ready v \<Longrightarrow> \<forall>r\<in>v_ready v. t \<le> r \<Longrightarrow> vstep False v (v_sleep t v)"

inductive_cases vstep_E: "vstep r v v'"

text \<open>Sequences of steps, with the flag set if one step has it.\<close>

inductive vsteps :: "bool \<Rightarrow> sched_view \<Rightarrow> sched_view \<Rightarrow> bool" where
  none: "vsteps False v v"
| more: "vsteps r v v' \<Longrightarrow> vstep r' v' v'' \<Longrightarrow> vsteps (r \<or> r') v v''"

lemma vsteps_one: "vstep r v v' \<Longrightarrow> vsteps r v v'"
  using vsteps.more [OF vsteps.none] by fastforce

section \<open>Invariant\<close>

definition points_ok :: "nat \<Rightarrow> resume_point \<Rightarrow> bool" where
  "points_ok t k \<longleftrightarrow> (if t = 63 then k = At_idle \<or> k = In_irq_over_user
     else k = At_launch_task \<or> k = In_dev_wait \<or> k = In_irq_over_user \<or> k = In_irq_over_dev_wait)"

definition vinv :: "nat \<Rightarrow> sched_view \<Rightarrow> bool" where
  "vinv n v \<longleftrightarrow> n \<le> 62 \<and> v_cur v \<in> live n \<and> v_ready v \<subseteq> live n \<and> v_waiting v \<subseteq> {1..n}
     \<and> (v_cur v = 63 \<or> 63 \<in> v_ready v) \<and> (v_cur v = 63 \<longrightarrow> \<not> v_window v)
     \<and> (v_cur v \<in> v_ready v \<longrightarrow> v_window v)
     \<and> (\<forall>t\<in>live n. t \<noteq> v_cur v \<longrightarrow> points_ok t (v_point v t))
     \<and> (v_cur v \<in> v_waiting v \<longrightarrow> v_window v)
     \<and> (\<forall>t\<in>v_waiting v. t \<noteq> v_cur v \<longrightarrow> v_point v t = In_dev_wait \<or> v_point v t = In_irq_over_dev_wait)
     \<and> (\<forall>t\<in>v_waiting v \<inter> v_ready v. t \<noteq> v_cur v \<and> v_point v t = In_irq_over_dev_wait)"

lemma live_63 [simp]: "63 \<in> live n"
  by (simp add: live_def)

lemma vinv_enqueue: "vinv n v \<Longrightarrow> \<not> v_window v \<Longrightarrow> v_cur v \<noteq> 63 \<Longrightarrow> vinv n (v_enqueue v)"
  unfolding vinv_def v_enqueue_def by (auto simp: live_def)

lemma vinv_fire: "vinv n v \<Longrightarrow> F \<subseteq> v_waiting v \<Longrightarrow> vinv n (v_fire F v)"
  unfolding vinv_def v_fire_def live_def by auto

lemma vinv_preempt: "vinv n v \<Longrightarrow> t \<in> v_ready v \<Longrightarrow> t \<noteq> v_cur v \<Longrightarrow> vinv n (v_preempt t v)"
  unfolding vinv_def v_preempt_def v_switch_def points_ok_def
  by (simp only: sched_view.simps fun_upd_apply; intro conjI; auto split: if_splits)

lemma vinv_sleep: "vinv n v \<Longrightarrow> v_window v \<Longrightarrow> t \<in> v_ready v \<Longrightarrow> vinv n (v_sleep t v)"
  unfolding vinv_def v_sleep_def v_switch_def points_ok_def
  by (simp only: sched_view.simps fun_upd_apply; intro conjI; auto split: if_splits)

lemma vinv_step: "vstep r v v' \<Longrightarrow> vinv n v \<Longrightarrow> vinv n v'"
  by (erule vstep_E) (auto intro: vinv_enqueue vinv_fire vinv_preempt vinv_sleep)

lemma vinv_steps: "vsteps r v v' \<Longrightarrow> vinv n v \<Longrightarrow> vinv n v'"
  by (induction rule: vsteps.induct) (auto intro: vinv_step)

text \<open>
  A timer interrupt as a function: the tasks F of the due devices become ready; if there are
  any, and the running task holds no mutex, one of higher priority takes over.
\<close>

definition v_tick :: "bool \<Rightarrow> nat set \<Rightarrow> sched_view \<Rightarrow> sched_view" where
  "v_tick holding F v =
     (let v1 = v_fire F v; t = Min (v_ready v1)
      in if F \<noteq> {} \<and> \<not> holding \<and> t < v_cur v then v_preempt t v1 else v1)"

lemma vinv_finite: "vinv n v \<Longrightarrow> finite (v_ready v)"
  unfolding vinv_def live_def by (auto intro: finite_subset)

lemma vinv_min: "vinv n v \<Longrightarrow> v_ready v \<noteq> {} \<Longrightarrow> Min (v_ready v) \<in> v_ready v \<and> (\<forall>r\<in>v_ready v. Min (v_ready v) \<le> r)"
  using vinv_finite by (auto intro: Min_in Min_le)

lemma vsteps_two: "vstep r v v' \<Longrightarrow> vstep r v' v'' \<Longrightarrow> vsteps r v v''"
  using vsteps.more [OF vsteps_one] by fastforce

lemma v_tick_steps:
  assumes "vinv n v" "F \<subseteq> v_waiting v"
  shows "vsteps (v_window v) v (v_tick holding F v)"
proof -
  let ?v1 = "v_fire F v" and ?t = "Min (v_ready (v_fire F v))"
  have fire: "vstep (v_window v) v ?v1" by (rule vstep.fire [OF assms(2)])
  show ?thesis
  proof (cases "F \<noteq> {} \<and> \<not> holding \<and> ?t < v_cur v")
    case True
    then have "v_ready ?v1 \<noteq> {}" by (auto simp: v_fire_def)
    from vinv_min [OF vinv_fire [OF assms] this] have "vstep (v_window ?v1) ?v1 (v_preempt ?t ?v1)"
      using True by (intro vstep.preempt) (simp_all add: v_fire_def)
    then have "vstep (v_window v) ?v1 (v_preempt ?t ?v1)" by (simp add: v_fire_def)
    with fire True show ?thesis by (auto simp: v_tick_def Let_def intro: vsteps_two)
  next
    case False
    with fire show ?thesis by (auto simp: v_tick_def Let_def vsteps_one)
  qed
qed

section \<open>No task is lost\<close>

text \<open>Every task runs, is ready, or waits, and only one of the three.\<close>

definition v_partition :: "nat \<Rightarrow> sched_view \<Rightarrow> bool" where
  "v_partition n v \<longleftrightarrow> live n = insert (v_cur v) (v_ready v) \<union> v_waiting v
     \<and> v_cur v \<notin> v_ready v \<and> (v_cur v \<in> v_waiting v \<longleftrightarrow> v_window v)
     \<and> v_ready v \<inter> v_waiting v = {}
     \<and> (\<forall>t\<in>live n. t \<noteq> v_cur v \<longrightarrow> v_point v t \<noteq> In_irq_over_dev_wait)"

lemma v_partition_step: "vstep False v v' \<Longrightarrow> vinv n v \<Longrightarrow> v_partition n v \<Longrightarrow> v_partition n v'"
proof (induction False v v' rule: vstep.induct)
  case (enqueue v)
  then show ?case by (auto simp: v_partition_def v_enqueue_def)
next
  case (fire F v)
  then show ?case by (auto simp: v_partition_def v_fire_def)
next
  case (preempt t v)
  then show ?case by (auto simp: v_partition_def v_preempt_def v_switch_def)
next
  case (sleep v t)
  then show ?case by (auto simp: v_partition_def v_sleep_def v_switch_def)
qed

lemma v_partition_steps: "vsteps r v v' \<Longrightarrow> \<not> r \<Longrightarrow> vinv n v \<Longrightarrow> v_partition n v \<Longrightarrow> v_partition n v'"
  by (induction rule: vsteps.induct) (auto intro: v_partition_step vinv_steps)

text \<open>A fresh task set.\<close>

definition v_fresh :: "nat \<Rightarrow> sched_view \<Rightarrow> bool" where
  "v_fresh n v \<longleftrightarrow> v_cur v = (if n = 0 then 63 else 1) \<and> v_ready v = live n - {v_cur v}
     \<and> v_waiting v = {} \<and> \<not> v_window v
     \<and> (\<forall>t\<in>live n. v_point v t = (if t = 63 then At_idle else At_launch_task))"

lemma v_fresh_inv: "v_fresh n v \<Longrightarrow> n \<le> 62 \<Longrightarrow> vinv n v \<and> v_partition n v"
  by (auto simp: v_fresh_def vinv_def v_partition_def live_def points_ok_def split: if_splits)

end
