(* ===== verification/Kernel_System.thy ===== *)
theory Kernel_System
  imports Syscalls Sched_Spec
begin

text \<open>
  The kernel as a whole: system calls, timer interrupts and context switches as steps of
  one machine. After a switch control continues at the resume point the registers hold.
  An interrupt can come in whenever user code or the idle loop runs, and in the window of
  dev_wait where interrupts are on; elsewhere in the kernel it has the effect it has just
  before or after the call.
\<close>

section \<open>Steps\<close>

text \<open>Where the running thread is: outside the kernel, or between queueing and sleeping.\<close>

datatype mode = User | Dev_wait_window

definition resume :: "kstate \<Rightarrow> kstate \<times> mode" where
  "resume s = (case sp_lr (cpu s) of
     At_launch_task \<Rightarrow> (fst (launch_task s), User)
   | At_idle \<Rightarrow> (idle s, User)
   | In_mutex_lock m c \<Rightarrow> (snd (mutex_lock_tail s m c), User)
   | In_dev_wait \<Rightarrow> (enable_interrupts s, User)
   | In_irq_over_user \<Rightarrow> (enable_interrupts s, User)
   | In_irq_over_dev_wait \<Rightarrow> (enable_interrupts s, Dev_wait_window))"

datatype event =
    Swi u32 ex_context "u32 list"
  | Sleep_now
  | Timer_irq "u32 \<Rightarrow> u32"
  | User_code memory "u8 list"

definition irq_point :: "mode \<Rightarrow> resume_point" where
  "irq_point m = (case m of User \<Rightarrow> In_irq_over_user | Dev_wait_window \<Rightarrow> In_irq_over_dev_wait)"

definition after_swi :: "swi_result \<times> kstate \<Rightarrow> kstate \<times> mode" where
  "after_swi rs = (case rs of (Switched_away, s) \<Rightarrow> resume s | (_, s) \<Rightarrow> (s, User))"

definition after_irq :: "mode \<Rightarrow> unit outcome \<times> kstate \<Rightarrow> kstate \<times> mode" where
  "after_irq m os = (case os of (Switched, s) \<Rightarrow> resume s | (Returned _, s) \<Rightarrow> (s, m))"

definition res_map :: "('a \<Rightarrow> 'b) \<Rightarrow> 'a res \<Rightarrow> 'b res" where
  "res_map f r = bind r (\<lambda>x. Inr (f x))"

lemma res_map_simps [simp]: "res_map f (Inl e) = Inl e" "res_map f (Inr x) = Inr (f x)"
  by (simp_all add: res_map_def)

text \<open>The idle task makes no system calls. Interrupts find a new state of the device registers.\<close>

inductive kstep :: "(u32 \<Rightarrow> u32) \<Rightarrow> kstate \<times> mode \<Rightarrow> event \<Rightarrow> (kstate \<times> mode) res \<Rightarrow> bool"
  for malloc where
  swi: "cur_tcb s \<noteq> Some IDLE_PRIO \<Longrightarrow> swi \<noteq> EVENT_WAIT \<Longrightarrow>
     kstep malloc (s, User) (Swi swi c readings)
       (res_map after_swi (swi_dispatch malloc readings swi c s))"
| wait: "cur_tcb s \<noteq> Some IDLE_PRIO \<Longrightarrow>
     kstep malloc (s, User) (Swi EVENT_WAIT c readings)
       (res_map (\<lambda>(r, s'). (s', if r = None then Dev_wait_window else User))
          (event_wait_enter s (ex_r0 c)))"
| sleep: "kstep malloc (s, Dev_wait_window) Sleep_now (res_map resume (dev_wait_sleep s))"
| irq: "irq_enabled s \<Longrightarrow>
     kstep malloc (s, m) (Timer_irq p)
       (res_map (after_irq m) (C_IRQ_handler (s\<lparr>periph := p\<rparr>) (irq_point m)))"
| user: "kstep malloc (s, User) (User_code mem' input) (Inr (s\<lparr>mem := mem', uart_in := input\<rparr>, User))"

inductive_cases kstep_swiE: "kstep malloc (s, m) (Swi swi c readings) r"
inductive_cases kstep_sleepE: "kstep malloc (s, m) Sleep_now r"
inductive_cases kstep_irqE: "kstep malloc (s, m) (Timer_irq p) r"
inductive_cases kstep_userE: "kstep malloc (s, m) (User_code mem' input) r"

text \<open>
  What the kernel relies on: malloc succeeds, the timer counter is not about to wrap, and
  the running task uses known system calls and creates no task set while it holds a mutex.
\<close>

definition calls :: "u32 set" where
  "calls = {READ_SWI, WRITE_SWI, TIME_SWI, SLEEP_SWI, CREATE_SWI, MUTEX_CREATE, MUTEX_LOCK,
     MUTEX_UNLOCK, EVENT_WAIT}"

definition polite :: "(u32 \<Rightarrow> u32) \<Rightarrow> kstate \<Rightarrow> event \<Rightarrow> bool" where
  "polite malloc s e = (case e of
     Swi swi c readings \<Rightarrow> swi \<in> calls
       \<and> (swi = CREATE_SWI \<longrightarrow> malloc (4 * ex_r1 c) \<noteq> 0
            \<and> (\<forall>t. cur_tcb s = Some t \<longrightarrow> holds_lock (system_tcb s ! t) = 0))
   | Timer_irq p \<Rightarrow> unat (p (PERIPHERAL_BASE + OSTMR_OSCR_ADDR)) < 2 ^ 32 - 18432
   | _ \<Rightarrow> True)"

section \<open>Invariant\<close>

text \<open>The scheduler's view of a state, with the sleep queues as lists.\<close>

definition view :: "kstate \<Rightarrow> mode \<Rightarrow> nat list list \<Rightarrow> sched_view" where
  "view s m ls = \<lparr>v_cur = the (cur_tcb s), v_ready = dom (rq_abs (run_q s)),
     v_waiting = set (concat ls), v_point = (\<lambda>t. sp_lr (kcontext (system_tcb s ! t))),
     v_window = (m = Dev_wait_window)\<rparr>"

text \<open>Priorities and lock counts: only the running task holds mutexes, at priority 0.\<close>

definition prio_inv :: "nat \<Rightarrow> nat \<Rightarrow> tcb list \<Rightarrow> bool" where
  "prio_inv n c tcbs \<longleftrightarrow> (\<forall>t\<in>live n. native_prio (tcbs ! t) = of_nat t
     \<and> (t \<noteq> c \<longrightarrow> holds_lock (tcbs ! t) = 0 \<and> cur_prio (tcbs ! t) = of_nat t))
   \<and> cur_prio (tcbs ! c) = (if holds_lock (tcbs ! c) = 0 then of_nat c else HIGHEST_PRIO)"

definition held :: "mutex_t list \<Rightarrow> nat \<Rightarrow> nat set" where
  "held ms c = {m. m < 32 \<and> pHolding_Tcb (ms ! m) = Some c}"

definition mutex_inv :: "nat \<Rightarrow> mutex_t list \<Rightarrow> int \<Rightarrow> bool" where
  "mutex_inv c ms k \<longleftrightarrow> length ms = 32 \<and> k = int (card (held ms c))
     \<and> (\<forall>m<32. pSleep_queue (ms ! m) = None \<and> (bLock (ms ! m) \<longleftrightarrow> pHolding_Tcb (ms ! m) \<noteq> None)
          \<and> (pHolding_Tcb (ms ! m) = None \<or> pHolding_Tcb (ms ! m) = Some c))"

definition rq_own :: "run_queue \<Rightarrow> bool" where
  "rq_own q \<longleftrightarrow> (\<forall>p t. rq_abs q p = Some t \<longrightarrow> t = p)"

definition kinv :: "nat \<Rightarrow> nat list list \<Rightarrow> kstate \<Rightarrow> mode \<Rightarrow> bool" where
  "kinv n ls s m \<longleftrightarrow>
     length (system_tcb s) = 64 \<and> rq_wf (run_q s) \<and> rq_own (run_q s) \<and> prios_ok s
     \<and> (\<exists>c. cur_tcb s = Some c \<and> prio_inv n c (system_tcb s)
          \<and> mutex_inv c (gtMutex s) (holds_lock (system_tcb s ! c))
          \<and> (c = 63 \<or> m = Dev_wait_window \<longrightarrow> holds_lock (system_tcb s ! c) = 0))
     \<and> dev_queues s ls \<and> vinv n (view s m ls)"

section \<open>Lemmas on the parts of the invariant\<close>

lemma live_bound: "t \<in> live n \<Longrightarrow> n \<le> 62 \<Longrightarrow> t < 64"
  by (auto simp: live_def)

lemma held_finite [simp]: "finite (held ms c)"
  by (simp add: held_def)

lemma mutex_inv_none:
  assumes "mutex_inv c ms 0" "m < 32" shows "pHolding_Tcb (ms ! m) = None"
proof -
  have "held ms c = {}" using assms(1) by (simp add: mutex_inv_def)
  then show ?thesis using assms by (auto simp: mutex_inv_def held_def)
qed

lemma mutex_inv_handover:
  assumes "mutex_inv c ms 0" shows "mutex_inv t ms 0"
proof -
  have "held ms t = {}" using mutex_inv_none [OF assms] by (auto simp: held_def)
  then show ?thesis
    using assms mutex_inv_none [OF assms] by (auto simp: mutex_inv_def)
qed

lemma prio_inv_handover:
  assumes "prio_inv n c tcbs" "holds_lock (tcbs ! c) = 0" "t \<in> live n"
  shows "prio_inv n t tcbs" and "holds_lock (tcbs ! t) = 0"
  using assms unfolding prio_inv_def by (metis (full_types))+

lemma prio_inv_cong:
  assumes "\<And>i. native_prio (tcbs' ! i) = native_prio (tcbs ! i)"
    "\<And>i. cur_prio (tcbs' ! i) = cur_prio (tcbs ! i)" "\<And>i. holds_lock (tcbs' ! i) = holds_lock (tcbs ! i)"
  shows "prio_inv n c tcbs' \<longleftrightarrow> prio_inv n c tcbs"
  by (simp add: prio_inv_def assms)

lemma prio_inv_cur:
  assumes "prio_inv n c tcbs" "n \<le> 62" "t \<in> live n" "t = c \<Longrightarrow> holds_lock (tcbs ! c) = 0"
  shows "unat (cur_prio (tcbs ! t)) = t"
proof -
  have "cur_prio (tcbs ! t) = of_nat t" using assms(1,3,4) by (auto simp: prio_inv_def)
  moreover have "t < 256" using live_bound [OF assms(3,2)] by simp
  ultimately show ?thesis by (simp only: unat_of_nat_u8)
qed

lemma dev_queues_cong:
  assumes "dev_queues s ls" "length (system_tcb s') = length (system_tcb s)" "devices s' = devices s"
    "\<And>i. sleep_queue (system_tcb s' ! i) = sleep_queue (system_tcb s ! i)"
  shows "dev_queues s' ls"
proof -
  have "sleep_list (system_tcb s') p xs \<longleftrightarrow> sleep_list (system_tcb s) p xs" for p xs
    using assms(2,4) by (intro sleep_list_cong) auto
  then show ?thesis using assms(1,3) by (simp add: dev_queues_def)
qed

lemma kinv_cur:
  assumes "kinv n ls s m"
  obtains c where "cur_tcb s = Some c" "c < length (system_tcb s)" "c \<in> live n" "n \<le> 62"
    "prio_inv n c (system_tcb s)" "mutex_inv c (gtMutex s) (holds_lock (system_tcb s ! c))"
    "c = 63 \<or> m = Dev_wait_window \<Longrightarrow> holds_lock (system_tcb s ! c) = 0"
proof -
  obtain c where c: "cur_tcb s = Some c" "prio_inv n c (system_tcb s)"
    "mutex_inv c (gtMutex s) (holds_lock (system_tcb s ! c))"
    "c = 63 \<or> m = Dev_wait_window \<longrightarrow> holds_lock (system_tcb s ! c) = 0"
    using assms by (auto simp: kinv_def)
  then have "c \<in> live n" "n \<le> 62" "length (system_tcb s) = 64"
    using assms by (auto simp: kinv_def vinv_def view_def)
  with c that show ?thesis using live_bound by metis
qed

lemma kinv_ready_valid: "kinv n ls s m \<Longrightarrow> ready_valid s"
  unfolding kinv_def ready_valid_def rq_own_def using rq_abs_bound by (metis domI)

text \<open>Only the parts of the state the invariant speaks of matter.\<close>

lemma kinv_cong:
  assumes "kinv n ls s m" and "system_tcb s' = system_tcb s" "run_q s' = run_q s"
    "cur_tcb s' = cur_tcb s" "gtMutex s' = gtMutex s" "devices s' = devices s"
  shows "kinv n ls s' m"
  using assms by (simp add: kinv_def prios_ok_def dev_queues_def view_def)

section \<open>Switching\<close>

definition holding :: "kstate \<Rightarrow> bool" where
  "holding s \<longleftrightarrow> holds_lock (system_tcb s ! the (cur_tcb s)) \<noteq> 0"

lemma ctx_switch_sel [simp]:
  "run_q (ctx_switch_full s t c) = run_q s" "cur_tcb (ctx_switch_full s t c) = cur_tcb s"
  "gtMutex (ctx_switch_full s t c) = gtMutex s" "devices (ctx_switch_full s t c) = devices s"
  "system_tcb (ctx_switch_full s t c) = (system_tcb s)[c := (system_tcb s ! c)\<lparr>kcontext := cpu s\<rparr>]"
  "sys_time (ctx_switch_full s t c) = sys_time s"
  "cpu (ctx_switch_full s t c) = kcontext ((system_tcb s)[c := (system_tcb s ! c)\<lparr>kcontext := cpu s\<rparr>] ! t)"
  by (simp_all add: ctx_switch_full_def upd_tcb_def)

lemma calling_from_sel [simp]:
  "run_q (calling_from s k) = run_q s" "cur_tcb (calling_from s k) = cur_tcb s"
  "gtMutex (calling_from s k) = gtMutex s" "devices (calling_from s k) = devices s"
  "system_tcb (calling_from s k) = system_tcb s" "sp_lr (cpu (calling_from s k)) = k"
  by (simp_all add: calling_from_def)

lemma launch_irq: "irq_enabled (fst (launch_task s))"
proof -
  have "((cpsr s AND NOT 0xff) OR PSR_MODE_USR) AND (PSR_IRQ OR PSR_FIQ) = 0"
  proof (rule bit_word_eqI)
    fix n assume "n < LENGTH(32)"
    have "bit (PSR_IRQ OR PSR_FIQ) n \<longleftrightarrow> n = 7 \<or> n = 6" "bit PSR_MODE_USR n \<longleftrightarrow> n = 4"
      "bit (0xff :: u32) n \<longleftrightarrow> n < 8"
    proof -
      have p: "PSR_IRQ = 2 ^ 7" "PSR_FIQ = 2 ^ 6" "PSR_MODE_USR = 2 ^ 4" "(0xff :: u32) = mask 8"
        by (simp_all add: PSR_IRQ_def PSR_FIQ_def PSR_MODE_USR_def mask_eq_exp_minus_1)
      show "bit (PSR_IRQ OR PSR_FIQ) n \<longleftrightarrow> n = 7 \<or> n = 6" "bit PSR_MODE_USR n \<longleftrightarrow> n = 4"
        "bit (0xff :: u32) n \<longleftrightarrow> n < 8"
        using \<open>n < LENGTH(32)\<close> unfolding p bit_or_iff bit_exp_iff bit_mask_iff by auto
    qed
    then show "bit (((cpsr s AND NOT 0xff) OR PSR_MODE_USR) AND (PSR_IRQ OR PSR_FIQ)) n \<longleftrightarrow> bit (0 :: u32) n"
      unfolding bit_and_iff bit_or_iff bit_not_iff by auto
  qed
  then show ?thesis by (simp add: irq_enabled_def launch_task_def Let_def)
qed

lemma resume_ok:
  assumes "points_ok t (sp_lr (cpu s))"
  shows "\<exists>s'. resume s = (s', if sp_lr (cpu s) = In_irq_over_dev_wait then Dev_wait_window else User)
    \<and> irq_enabled s' \<and> s' = s\<lparr>cpsr := cpsr s', cpu := cpu s'\<rparr>"
proof -
  have "enable_interrupts s = s\<lparr>cpsr := cpsr (enable_interrupts s), cpu := cpu (enable_interrupts s)\<rparr>"
    by (simp add: enable_interrupts_def)
  moreover have "fst (launch_task s) = s\<lparr>cpsr := cpsr (fst (launch_task s)), cpu := cpu (fst (launch_task s))\<rparr>"
    by (simp add: launch_task_def Let_def)
  ultimately show ?thesis
    using assms launch_irq by (auto simp: points_ok_def resume_def idle_def split: if_splits)
qed

text \<open>
  The running task c, holding nothing, leaves the processor at point k; task t, taken out of
  the ready queue, continues. The scheduler's view does the corresponding switch.
\<close>

lemma switch_inv:
  assumes c: "c < length (system_tcb s)" "prio_inv n c (system_tcb s)"
    "mutex_inv c (gtMutex s) 0" "holds_lock (system_tcb s ! c) = 0"
    and s: "length (system_tcb s) = 64" "prios_ok s" "dev_queues s ls"
    and q: "rq_wf q" "rq_own q" "dom (rq_abs q) = v_ready v'"
    and t: "t \<in> live n" "vinv n v'" "points_ok t (v_point v' t)"
    and v': "v_cur v' = t" "v_waiting v' = set (concat ls)"
      "v_point v' = (\<lambda>x. sp_lr (kcontext (system_tcb s ! x)))(c := k)"
      "v_window v' \<longleftrightarrow> v_point v' t = In_irq_over_dev_wait"
  shows "\<exists>s' m'. resume (ctx_switch_full (calling_from (s\<lparr>run_q := q, cur_tcb := Some t\<rparr>) k) t c) = (s', m')
    \<and> kinv n ls s' m' \<and> irq_enabled s' \<and> view s' m' ls = v' \<and> devices s' = devices s \<and> sys_time s' = sys_time s \<and> \<not> holding s'
    \<and> gtMutex s' = gtMutex s"
proof -
  let ?s1 = "ctx_switch_full (calling_from (s\<lparr>run_q := q, cur_tcb := Some t\<rparr>) k) t c"
  let ?k = "(cpu s)\<lparr>sp_lr := k\<rparr>"
  have tcbs: "system_tcb ?s1 = (system_tcb s)[c := (system_tcb s ! c)\<lparr>kcontext := ?k\<rparr>]"
    by (simp add: calling_from_def)
  then have length_tcbs: "length (system_tcb ?s1) = length (system_tcb s)" by simp
  have field: "native_prio (system_tcb ?s1 ! i) = native_prio (system_tcb s ! i)"
    "cur_prio (system_tcb ?s1 ! i) = cur_prio (system_tcb s ! i)"
    "holds_lock (system_tcb ?s1 ! i) = holds_lock (system_tcb s ! i)"
    "sleep_queue (system_tcb ?s1 ! i) = sleep_queue (system_tcb s ! i)" for i
    using c(1) unfolding tcbs by (cases "i = c"; simp add: nth_list_update)+
  have point: "(\<lambda>x. sp_lr (kcontext (system_tcb ?s1 ! x))) = v_point v'"
    using c(1) unfolding tcbs v'(3) by (auto simp: fun_eq_iff nth_list_update)
  have lr: "sp_lr (cpu ?s1) = v_point v' t"
    using fun_cong [OF point, of t] by simp
  obtain s' where s': "resume ?s1 = (s', if v_window v' then Dev_wait_window else User)" "irq_enabled s'"
    "s' = ?s1\<lparr>cpsr := cpsr s', cpu := cpu s'\<rparr>"
    using resume_ok [of t ?s1] t(3) unfolding lr v'(4) by blast
  let ?m = "if v_window v' then Dev_wait_window else User"
  have sel: "system_tcb s' = system_tcb ?s1" "run_q s' = q" "cur_tcb s' = Some t" "gtMutex s' = gtMutex s"
    "devices s' = devices s" "sys_time s' = sys_time s"
    by (subst s'(3), simp add: calling_from_def)+
  have view: "view s' ?m ls = v'"
    using q(3) v'(1,2) point unfolding view_def sel by (cases v') auto
  have prio: "prio_inv n t (system_tcb s')" "holds_lock (system_tcb s' ! t) = 0"
    unfolding sel prio_inv_cong [OF field(1-3)] field(3)
    using prio_inv_handover [OF c(2,4) t(1)] by auto
  have "dev_queues s' ls"
    by (rule dev_queues_cong [OF s(3)]) (simp_all only: sel field length_tcbs)
  moreover have "prios_ok s'"
    using s(2) unfolding prios_ok_def sel field by (simp add: tcbs)
  moreover have "length (system_tcb s') = 64" unfolding sel length_tcbs by (rule s(1))
  moreover have "mutex_inv t (gtMutex s') (holds_lock (system_tcb s' ! t))"
    unfolding prio(2) sel(4) by (rule mutex_inv_handover [OF c(3)])
  moreover have "rq_wf (run_q s')" "rq_own (run_q s')" using q(1,2) sel(2) by simp_all
  ultimately have "kinv n ls s' ?m"
    unfolding kinv_def view using prio sel(3) t(2) by blast
  moreover have "\<not> holding s'" using prio(2) sel(3) by (simp add: holding_def)
  ultimately show ?thesis using s' view sel(4,5,6) by blast
qed


lemma view_sel [simp]:
  "v_cur (view s m ls) = the (cur_tcb s)" "v_ready (view s m ls) = dom (rq_abs (run_q s))"
  "v_waiting (view s m ls) = set (concat ls)" "v_window (view s m ls) \<longleftrightarrow> m = Dev_wait_window"
  "v_point (view s m ls) = (\<lambda>t. sp_lr (kcontext (system_tcb s ! t)))"
  by (simp_all add: view_def)

lemma rq_own_upd_None: "rq_own q \<Longrightarrow> rq_abs q' = (rq_abs q)(p := None) \<Longrightarrow> rq_own q'"
  by (auto simp: rq_own_def split: if_splits)

lemma sleep_inv:
  assumes k: "kinv n ls s Dev_wait_window"
  shows "\<exists>s1 s' m'. dev_wait_sleep s = Inr s1 \<and> resume s1 = (s', m') \<and> kinv n ls s' m'
    \<and> irq_enabled s' \<and> vstep False (view s Dev_wait_window ls) (view s' m' ls)
    \<and> devices s' = devices s \<and> sys_time s' = sys_time s \<and> \<not> holding s' \<and> gtMutex s' = gtMutex s"
proof -
  let ?v = "view s Dev_wait_window ls"
  obtain c where c: "cur_tcb s = Some c" "c < length (system_tcb s)" "c \<in> live n" "n \<le> 62"
    "prio_inv n c (system_tcb s)" "mutex_inv c (gtMutex s) (holds_lock (system_tcb s ! c))"
    "holds_lock (system_tcb s ! c) = 0"
    using kinv_cur [OF k] by blast
  have s: "length (system_tcb s) = 64" "rq_wf (run_q s)" "rq_own (run_q s)" "prios_ok s" "dev_queues s ls"
    and vi: "vinv n ?v"
    using k by (auto simp: kinv_def)
  have "63 \<in> dom (rq_abs (run_q s))" using vi c(1) by (auto simp: vinv_def)
  then have ne: "rq_abs (run_q s) \<noteq> Map.empty" by auto
  obtain t q where t: "rq_abs (run_q s) (unat (highest_prio (run_q s))) = Some t"
    "dispatch_sleep s In_dev_wait = Inr (ctx_switch_full (calling_from (s\<lparr>run_q := q, cur_tcb := Some t\<rparr>) In_dev_wait) t c)"
    "rq_wf q" "rq_abs q = (rq_abs (run_q s))(unat (highest_prio (run_q s)) := None)"
    using dispatch_sleep_ok [OF s(2) ne kinv_ready_valid [OF k] c(1,2)] by blast
  have tp: "t = unat (highest_prio (run_q s))" using s(3) t(1) by (auto simp: rq_own_def)
  have tr: "t \<in> v_ready ?v" using t(1) tp by auto
  have "\<forall>r\<in>v_ready ?v. t \<le> r" using highest_prio_least [OF s(2)] tp by simp
  then have step: "vstep False ?v (v_sleep t ?v)" by (intro vstep.sleep) (use tr in auto)
  then have vi': "vinv n (v_sleep t ?v)" using vi by (rule vinv_step)
  have "t \<in> live n" using tr vi by (auto simp: vinv_def)
  moreover have "points_ok t (v_point (v_sleep t ?v) t)"
    using vi c(1) \<open>t \<in> live n\<close> by (auto simp: v_sleep_def v_switch_def vinv_def points_ok_def)
  moreover have "dom (rq_abs q) = v_ready (v_sleep t ?v)"
    unfolding t(4) tp [symmetric] by (simp add: v_sleep_def v_switch_def)
  ultimately obtain s' m' where "resume (ctx_switch_full (calling_from (s\<lparr>run_q := q, cur_tcb := Some t\<rparr>) In_dev_wait) t c) = (s', m')"
    "kinv n ls s' m'" "irq_enabled s'" "view s' m' ls = v_sleep t ?v" "devices s' = devices s" "sys_time s' = sys_time s" "\<not> holding s'"
    "gtMutex s' = gtMutex s"
    using switch_inv [OF c(2,5) c(6) [unfolded c(7)] c(7) s(1,4,5) t(3) rq_own_upd_None [OF s(3) t(4)],
        where v' = "v_sleep t ?v" and t = t and k = In_dev_wait] vi' c(1)
    by (auto simp: v_sleep_def v_switch_def)
  then show ?thesis using t(2) step by (auto simp: dev_wait_sleep_def)
qed

section \<open>The timer interrupt\<close>

text \<open>What dev_update does before it may switch.\<close>

lemma in_concat_nth: "x \<in> set (concat ls) \<longleftrightarrow> (\<exists>d<length ls. x \<in> set (ls ! d))"
  unfolding set_concat by (metis (no_types) UN_iff in_set_conv_nth nth_mem)

lemma due_tasks_in: "dev_queues s ls \<Longrightarrow> set (due_tasks s millis ls [0..<4]) \<subseteq> set (concat ls)"
  unfolding subset_iff in_concat_nth by (auto simp: due_tasks_def dev_queues_def split: if_splits)

lemma after_update_set:
  assumes "dev_queues s ls"
  shows "set (concat (after_update s millis ls [0..<4])) = set (concat ls) - set (due_tasks s millis ls [0..<4])"
proof -
  have len: "length ls = 4" and dist: "distinct (concat ls)"
    using assms by (auto simp: dev_queues_def)
  have in_ls: "x \<in> set (concat ls) \<longleftrightarrow> (\<exists>d<4. x \<in> set (ls ! d))" for x
    using in_concat_nth [of x ls] len by simp
  have unique: "d = e" if "x \<in> set (ls ! d)" "x \<in> set (ls ! e)" "d < 4" "e < 4" for x d e
    using distinct_concat_nth [OF dist, of d e] that len by (auto simp: disjoint_iff)
  have in_due: "x \<in> set (due_tasks s millis ls [0..<4]) \<longleftrightarrow> (\<exists>d<4. due s millis d \<and> x \<in> set (ls ! d))" for x
    by (auto simp: due_tasks_def split: if_splits)
  have "x \<in> set (concat (after_update s millis ls [0..<4])) \<longleftrightarrow> (\<exists>d<4. \<not> due s millis d \<and> x \<in> set (ls ! d))" for x
    by (auto simp: after_update_def split: if_splits)
  then show ?thesis using unique in_ls in_due by blast
qed

lemma dev_frame_sel:
  assumes "dev_frame s s'"
  shows "cur_tcb s' = cur_tcb s" "gtMutex s' = gtMutex s" "sys_time s' = sys_time s"
  using arg_cong [OF assms [unfolded dev_frame_def], of cur_tcb]
    arg_cong [OF assms [unfolded dev_frame_def], of gtMutex]
    arg_cong [OF assms [unfolded dev_frame_def], of sys_time] by simp_all

lemma dev_loop_inv:
  assumes k: "kinv n ls s m"
  shows "\<exists>s'. dev_update_loop millis [0..<4] (False, s) = Inr (due_tasks s millis ls [0..<4] \<noteq> [], s')
    \<and> kinv n (after_update s millis ls [0..<4]) s' m \<and> dev_frame s s'
    \<and> view s' m (after_update s millis ls [0..<4]) = v_fire (set (due_tasks s millis ls [0..<4])) (view s m ls)
    \<and> (\<forall>d<4. devices s' ! d = (if due s millis d then fired (devices s ! d) d else devices s ! d))
    \<and> (due_tasks s millis ls [0..<4] \<noteq> [] \<longrightarrow> rq_abs (run_q s') \<noteq> Map.empty) \<and> holding s' = holding s"
proof -
  let ?F = "due_tasks s millis ls [0..<4]" and ?ls = "after_update s millis ls [0..<4]" and ?v = "view s m ls"
  obtain c where c: "cur_tcb s = Some c" "c < length (system_tcb s)" "c \<in> live n" "n \<le> 62"
    "prio_inv n c (system_tcb s)" "mutex_inv c (gtMutex s) (holds_lock (system_tcb s ! c))"
    "c = 63 \<or> m = Dev_wait_window \<Longrightarrow> holds_lock (system_tcb s ! c) = 0"
    using kinv_cur [OF k] by blast
  have s: "length (system_tcb s) = 64" "rq_wf (run_q s)" "rq_own (run_q s)" "prios_ok s" "dev_queues s ls"
    and vi: "vinv n ?v"
    using k by (auto simp: kinv_def)
  obtain s' where s': "dev_update_loop millis [0..<4] (False, s) = Inr (False \<or> ?F \<noteq> [], s')"
    "dev_frame s s'" "rq_wf (run_q s')" "prios_ok s'" "length (system_tcb s') = length (system_tcb s)"
    "dev_queues s' ?ls" "rq_abs (run_q s') = wake_map (system_tcb s) ?F (rq_abs (run_q s))"
    "\<forall>t. system_tcb s' ! t = (if t \<in> set ?F then (system_tcb s ! t)\<lparr>sleep_queue := None\<rparr> else system_tcb s ! t)"
    "\<forall>d<4. devices s' ! d = (if due s millis d then fired (devices s ! d) d else devices s ! d)"
    using dev_update_loop_ok [OF s(5,2,4), of "[0..<4]" millis False] by (auto simp: atLeast0LessThan)
  have F: "set ?F \<subseteq> v_waiting ?v" using due_tasks_in [OF s(5)] by simp
  have own: "unat (cur_prio (system_tcb s ! x)) = x" if "x \<in> set ?F" for x
  proof (rule prio_inv_cur [OF c(5,4)])
    have w: "x \<in> v_waiting ?v" using F that by blast
    have "v_waiting ?v \<subseteq> {1..n}" "v_cur ?v \<in> v_waiting ?v \<longrightarrow> v_window ?v"
      using vi unfolding vinv_def by blast+
    with w show "holds_lock (system_tcb s ! c) = 0" if "x = c"
      using that c(1,7) by auto
    from w \<open>v_waiting ?v \<subseteq> {1..n}\<close> show "x \<in> live n" unfolding live_def by blast
  qed
  have rq: "rq_abs (run_q s') = (\<lambda>p. if p \<in> set ?F then Some p else rq_abs (run_q s) p)"
    unfolding s'(7) by (rule wake_map_own) (rule own)
  have sel: "cur_tcb s' = cur_tcb s" "gtMutex s' = gtMutex s"
    using dev_frame_sel [OF s'(2)] by simp_all
  have field: "native_prio (system_tcb s' ! i) = native_prio (system_tcb s ! i)"
    "cur_prio (system_tcb s' ! i) = cur_prio (system_tcb s ! i)"
    "holds_lock (system_tcb s' ! i) = holds_lock (system_tcb s ! i)"
    "kcontext (system_tcb s' ! i) = kcontext (system_tcb s ! i)" for i
    using s'(8) by auto
  have view: "view s' m ?ls = v_fire (set ?F) ?v"
    unfolding view_def v_fire_def sel rq field after_update_set [OF s(5)] by auto
  have step: "vstep (m = Dev_wait_window) ?v (v_fire (set ?F) ?v)"
    using vstep.fire [OF F] by simp
  have "kinv n ?ls s' m"
    unfolding kinv_def view
    using s(1) s'(3,4,5,6) s(3) vinv_step [OF step vi] c prio_inv_cong [OF field(1-3)]
    by (auto simp: sel field rq rq_own_def)
  moreover have "rq_abs (run_q s') \<noteq> Map.empty" if "?F \<noteq> []"
  proof -
    have "hd ?F \<in> dom (rq_abs (run_q s'))" using that by (simp add: rq dom_def)
    then show ?thesis by auto
  qed
  moreover have "holding s' = holding s" unfolding holding_def sel field ..
  ultimately show ?thesis using s'(1,2,9) view by auto
qed


lemma save_inv:
  assumes k: "kinv n ls s m" and ne: "rq_abs (run_q s) \<noteq> Map.empty"
  shows "if \<not> holding s \<and> Min (v_ready (view s m ls)) < the (cur_tcb s)
    then \<exists>s1 s' m'. dispatch_save s (irq_point m) = Inr (True, s1) \<and> resume s1 = (s', m')
       \<and> kinv n ls s' m' \<and> irq_enabled s' \<and> view s' m' ls = v_preempt (Min (v_ready (view s m ls))) (view s m ls)
       \<and> devices s' = devices s \<and> sys_time s' = sys_time s \<and> \<not> holding s' \<and> gtMutex s' = gtMutex s
    else dispatch_save s (irq_point m) = Inr (False, s)"
proof -
  let ?v = "view s m ls"
  obtain c where c: "cur_tcb s = Some c" "c < length (system_tcb s)" "c \<in> live n" "n \<le> 62"
    "prio_inv n c (system_tcb s)" "mutex_inv c (gtMutex s) (holds_lock (system_tcb s ! c))"
    "c = 63 \<or> m = Dev_wait_window \<Longrightarrow> holds_lock (system_tcb s ! c) = 0"
    using kinv_cur [OF k] by blast
  have s: "length (system_tcb s) = 64" "rq_wf (run_q s)" "rq_own (run_q s)" "prios_ok s" "dev_queues s ls"
    and vi: "vinv n ?v"
    using k by (auto simp: kinv_def)
  let ?h = "unat (highest_prio (run_q s))"
  have min: "Min (v_ready ?v) = ?h"
    using highest_prio_in [OF s(2) ne] highest_prio_least [OF s(2)] vinv_finite [OF vi] by (auto intro!: Min_eqI)
  show ?thesis
  proof (cases "highest_prio (run_q s) < cur_prio (system_tcb s ! c)")
    case False
    have "holding s \<or> \<not> ?h < c"
    proof (rule disjCI)
      assume "\<not> \<not> ?h < c"
      moreover have "unat (cur_prio (system_tcb s ! c)) = c" if "holds_lock (system_tcb s ! c) = 0"
        by (rule prio_inv_cur [OF c(5,4,3)]) (rule that)
      ultimately show "holding s" using False c(1) by (auto simp: holding_def word_less_nat_alt)
    qed
    then show ?thesis using dispatch_save_keep [OF c(1,2)] False c(1) unfolding min by auto
  next
    case True
    have held: "holds_lock (system_tcb s ! c) = 0"
    proof (rule ccontr)
      assume "holds_lock (system_tcb s ! c) \<noteq> 0"
      then have "cur_prio (system_tcb s ! c) = 0" using c(5) by (simp add: prio_inv_def HIGHEST_PRIO_def)
      with True show False by simp
    qed
    have pc: "unat (cur_prio (system_tcb s ! c)) = c"
      by (rule prio_inv_cur [OF c(5,4,3)]) (rule held)
    have p64: "unat (cur_prio (system_tcb s ! c)) < 64" unfolding pc by (rule live_bound [OF c(3,4)])
    obtain t q where t: "rq_abs (run_q s) (unat (highest_prio (run_q s))) = Some t"
      "dispatch_save s (irq_point m) = Inr (True,
         ctx_switch_full (calling_from (s\<lparr>run_q := q, cur_tcb := Some t\<rparr>) (irq_point m)) t c)"
      "rq_wf q" "rq_abs q = (rq_abs (run_q s))(unat (cur_prio (system_tcb s ! c)) \<mapsto> c,
                                 unat (highest_prio (run_q s)) := None)"
      using dispatch_save_ok [OF s(2) ne kinv_ready_valid [OF k] c(1,2) p64 True] by blast
    have tp: "t = unat (highest_prio (run_q s))" using s(3) t(1) by (auto simp: rq_own_def)
    have tr: "t \<in> v_ready ?v" using t(1) tp by auto
    have tc: "t < c" using True pc tp by (simp add: word_less_nat_alt)
    have least: "\<forall>r\<in>v_ready ?v. t \<le> r" using highest_prio_least [OF s(2)] tp by simp
    have step: "vstep (m = Dev_wait_window) ?v (v_preempt t ?v)"
      using vstep.preempt [OF tr least] tc c(1) by simp
    then have vi': "vinv n (v_preempt t ?v)" using vi by (rule vinv_step)
    have "t \<in> live n" using tr vi by (auto simp: vinv_def)
    moreover have "points_ok t (v_point (v_preempt t ?v) t)"
      using vi c(1) \<open>t \<in> live n\<close> tc by (auto simp: v_preempt_def v_switch_def vinv_def)
    moreover have "dom (rq_abs q) = v_ready (v_preempt t ?v)"
      unfolding t(4) tp [symmetric] pc using c(1) by (auto simp: v_preempt_def v_switch_def)
    moreover have "rq_own q"
      using s(3) unfolding rq_own_def t(4) pc by (auto split: if_splits)
    moreover have "irq_point m = (if m = Dev_wait_window then In_irq_over_dev_wait else In_irq_over_user)"
      by (cases m) (simp_all add: irq_point_def)
    ultimately obtain s' m' where "resume (ctx_switch_full (calling_from (s\<lparr>run_q := q, cur_tcb := Some t\<rparr>) (irq_point m)) t c) = (s', m')"
      "kinv n ls s' m'" "irq_enabled s'" "view s' m' ls = v_preempt t ?v"
      "devices s' = devices s" "sys_time s' = sys_time s" "\<not> holding s'" "gtMutex s' = gtMutex s"
      using switch_inv [OF c(2,5) c(6) [unfolded held] held s(1,4,5) t(3),
          where v' = "v_preempt t ?v" and t = t and k = "irq_point m"] vi' c(1)
      by (auto simp: v_preempt_def v_switch_def)
    then show ?thesis using t(2) held tc c(1) tp unfolding min by (auto simp: holding_def)
  qed
qed


lemma kinv_irq [simp]:
  "kinv n ls (enable_interrupts s) m \<longleftrightarrow> kinv n ls s m" "kinv n ls (disable_interrupts s) m \<longleftrightarrow> kinv n ls s m"
  by (auto intro: kinv_cong)

lemma view_irq [simp]: "view (enable_interrupts s) m ls = view s m ls" "view (disable_interrupts s) m ls = view s m ls"
  by (simp_all add: view_def)

lemma due_cong:
  assumes "devices s' = devices s"
  shows "due s' = due s" "due_tasks s' = due_tasks s" "after_update s' = after_update s"
  by (simp_all add: fun_eq_iff due_def due_tasks_def after_update_def assms)

lemma due_irq [simp]:
  "due (disable_interrupts s) = due s" "due_tasks (disable_interrupts s) = due_tasks s"
  "after_update (disable_interrupts s) = after_update s" "holding (disable_interrupts s) = holding s"
  "holding (enable_interrupts s) = holding s"
  by (simp_all add: fun_eq_iff due_def due_tasks_def after_update_def holding_def)

lemma dev_update_inv:
  assumes k: "kinv n ls s m"
  shows "\<exists>r s' m'. dev_update s millis (irq_point m) = Inr r \<and> after_irq m r = (s', m')
    \<and> kinv n (after_update s millis ls [0..<4]) s' m' \<and> irq_enabled s' \<and> sys_time s' = sys_time s \<and> (holding s' \<longrightarrow> holding s) \<and> gtMutex s' = gtMutex s
    \<and> view s' m' (after_update s millis ls [0..<4])
        = v_tick (holding s) (set (due_tasks s millis ls [0..<4])) (view s m ls)
    \<and> (\<forall>d<4. devices s' ! d = (if due s millis d then fired (devices s ! d) d else devices s ! d))"
    (is "\<exists>r s' m'. ?P r s' m'")
proof -
  let ?F = "due_tasks s millis ls [0..<4]" and ?ls = "after_update s millis ls [0..<4]"
    and ?D = "\<lambda>s'. \<forall>d<4. devices s' ! d = (if due s millis d then fired (devices s ! d) d else devices s ! d)"
  have "kinv n ls (disable_interrupts s) m" using k by simp
  from dev_loop_inv [OF this, of millis] obtain s1 where
    s1: "dev_update_loop millis [0..<4] (False, disable_interrupts s) = Inr (?F \<noteq> [], s1)"
    "kinv n ?ls s1 m" "view s1 m ?ls = v_fire (set ?F) (view s m ls)" "holding s1 = holding s" "?D s1"
    and fr: "dev_frame (disable_interrupts s) s1"
    and rq: "?F \<noteq> [] \<Longrightarrow> rq_abs (run_q s1) \<noteq> Map.empty"
    by auto
  have sel: "sys_time s1 = sys_time s" "cur_tcb s1 = cur_tcb s" "gtMutex s1 = gtMutex s" using dev_frame_sel [OF fr] by simp_all
  have stay: ?thesis if "dev_update s millis (irq_point m) = Inr (Returned (), enable_interrupts s1)"
    "view s1 m ?ls = v_tick (holding s) (set ?F) (view s m ls)"
  proof -
    have "?P (Returned (), enable_interrupts s1) (enable_interrupts s1) m"
      using that s1(2,4,5) sel by (simp add: after_irq_def)
    then show ?thesis by blast
  qed
  show ?thesis
  proof (cases "?F = []")
    case True
    then show ?thesis
      using s1(1,3) by (intro stay) (simp_all add: dev_update_def NUM_DEVICES_def v_tick_def)
  next
    case False
    let ?t = "Min (v_ready (view s1 m ?ls))"
    note save = save_inv [OF s1(2) rq [OF False]]
    show ?thesis
    proof (cases "\<not> holding s1 \<and> ?t < the (cur_tcb s1)")
      case True
      with save obtain s2 s' m' where *: "dispatch_save s1 (irq_point m) = Inr (True, s2)" "resume s2 = (s', m')"
        "kinv n ?ls s' m'" "irq_enabled s'" "view s' m' ?ls = v_preempt ?t (view s1 m ?ls)"
        "devices s' = devices s1" "sys_time s' = sys_time s1" "\<not> holding s'" "gtMutex s' = gtMutex s1" by auto
      have "view s' m' ?ls = v_tick (holding s) (set ?F) (view s m ls)"
        using True False s1(4) sel unfolding *(5) s1(3) v_tick_def Let_def by simp
      moreover have "dev_update s millis (irq_point m) = Inr (Switched, s2)"
        using s1(1) False *(1) by (simp add: dev_update_def NUM_DEVICES_def)
      ultimately have "?P (Switched, s2) s' m'"
        using * s1(5) sel by (simp add: after_irq_def)
      then show ?thesis by blast
    next
      case neg: False
      then have "dispatch_save s1 (irq_point m) = Inr (False, s1)" using save by (simp only: if_False)
      then show ?thesis
        using s1(1,3,4) False neg sel by (intro stay) (auto simp: dev_update_def NUM_DEVICES_def v_tick_def)
    qed
  qed
qed

text \<open>The interrupt: without a pending timer nothing happens, with one a tick.\<close>

definition tick_pending :: "(u32 \<Rightarrow> u32) \<Rightarrow> bool" where
  "tick_pending p \<longleftrightarrow> p (PERIPHERAL_BASE + INT_ICPR_ADDR) AND push_bit INT_OSTMR_0 1 \<noteq> 0"

lemma irq_tick:
  assumes k: "kinv n ls s m" and pend: "tick_pending p"
    and osc: "unat (p (PERIPHERAL_BASE + OSTMR_OSCR_ADDR)) < 2 ^ 32 - 18432"
    and now: "now = sys_time s + 5"
  shows "\<exists>r s' m'. C_IRQ_handler (s\<lparr>periph := p\<rparr>) (irq_point m) = Inr r \<and> after_irq m r = (s', m')
    \<and> kinv n (after_update s now ls [0..<4]) s' m' \<and> irq_enabled s' \<and> sys_time s' = now \<and> (holding s' \<longrightarrow> holding s) \<and> gtMutex s' = gtMutex s
    \<and> view s' m' (after_update s now ls [0..<4])
        = v_tick (holding s) (set (due_tasks s now ls [0..<4])) (view s m ls)
    \<and> (\<forall>d<4. devices s' ! d = (if due s now d then fired (devices s ! d) d else devices s ! d))"
proof -
  let ?s = "s\<lparr>periph := p\<rparr>"
  let ?s2 = "reg_set (?s\<lparr>sys_time := sys_time ?s + TIME_RESOLUTION\<rparr>) OSTMR_OSSR_ADDR OSTMR_OSSR_M0"
  let ?s3 = "reg_write ?s2 (OSTMR_OSMR_ADDR TIMER_0) (reg_read ?s2 OSTMR_OSCR_ADDR + 18432)"
  have "reg_read ?s2 OSTMR_OSCR_ADDR = p (PERIPHERAL_BASE + OSTMR_OSCR_ADDR)"
    by (simp add: reg_read_def reg_set_def PERIPHERAL_BASE_def OSTMR_OSCR_ADDR_def OSTMR_OSSR_ADDR_def)
  then have upd: "update_timer ?s2 TIME_RESOLUTION = Inr ?s3"
    using osc by (simp add: update_timer_eq)
  have sel: "sys_time ?s3 = now" "devices ?s3 = devices s" "system_tcb ?s3 = system_tcb s" "cur_tcb ?s3 = cur_tcb s"
    "gtMutex ?s3 = gtMutex s"
    by (simp_all add: now TIME_RESOLUTION_def reg_write_def reg_set_def)
  have eq: "due ?s3 = due s" "due_tasks ?s3 = due_tasks s" "after_update ?s3 = after_update s" "holding ?s3 = holding s"
    using due_cong [OF sel(2)] by (simp_all only: holding_def sel)
  have k3: "kinv n ls ?s3 m" and v3: "view ?s3 m ls = view s m ls"
    using k by (auto intro: kinv_cong simp: view_def reg_write_def reg_set_def)
  have "C_IRQ_handler ?s (irq_point m) = dev_update ?s3 (sys_time ?s3) (irq_point m)"
    using pend upd by (simp add: C_IRQ_handler_def Let_def tick_pending_def reg_read_def)
  then show ?thesis
    using dev_update_inv [OF k3, of "sys_time ?s3"] unfolding v3 eq sel by simp
qed

lemma irq_inv:
  assumes k: "kinv n ls s m" and en: "irq_enabled s"
    and osc: "unat (p (PERIPHERAL_BASE + OSTMR_OSCR_ADDR)) < 2 ^ 32 - 18432"
  shows "\<exists>r s' m' ls' f. C_IRQ_handler (s\<lparr>periph := p\<rparr>) (irq_point m) = Inr r \<and> after_irq m r = (s', m')
    \<and> kinv n ls' s' m' \<and> irq_enabled s' \<and> vsteps f (view s m ls) (view s' m' ls') \<and> (f \<longrightarrow> m = Dev_wait_window)"
proof -
  let ?s = "s\<lparr>periph := p\<rparr>"
  have k1: "kinv n ls ?s m" and v1: "view ?s m ls = view s m ls"
    using k by (auto intro: kinv_cong simp: view_def)
  show ?thesis
  proof (cases "tick_pending p")
    case False
    then have "C_IRQ_handler ?s (irq_point m) = Inr (Returned (), ?s)"
      by (simp add: C_IRQ_handler_def tick_pending_def reg_read_def)
    moreover have "after_irq m (Returned (), ?s) = (?s, m)" by (simp add: after_irq_def)
    moreover have "irq_enabled ?s" using en by (simp add: irq_enabled_def)
    moreover have "vsteps False (view s m ls) (view ?s m ls)" unfolding v1 by (rule vsteps.none)
    ultimately show ?thesis using k1 by blast
  next
    case True
    let ?now = "sys_time s + 5"
    let ?F = "due_tasks s ?now ls [0..<4]" and ?ls = "after_update s ?now ls [0..<4]"
    obtain r s' m' where *: "C_IRQ_handler ?s (irq_point m) = Inr r" "after_irq m r = (s', m')"
      "kinv n ?ls s' m'" "irq_enabled s'" "view s' m' ?ls = v_tick (holding s) (set ?F) (view s m ls)"
      using irq_tick [OF k True osc refl] by blast
    have "vinv n (view s m ls)" "set ?F \<subseteq> v_waiting (view s m ls)"
      using k due_tasks_in [of s ls ?now] by (auto simp: kinv_def)
    then have "vsteps (m = Dev_wait_window) (view s m ls) (view s' m' ?ls)"
      using v_tick_steps [of n "view s m ls" "set ?F" "holding s"] unfolding *(5) by simp
    then show ?thesis using * by blast
  qed
qed


section \<open>Mutex calls\<close>

text \<open>
  Two changes of the running task and of one mutex keep the invariant: taking the mutex and
  giving it back.
\<close>

lemma kinv_tcb_update:
  assumes k: "kinv n ls s User" and c: "cur_tcb s = Some c" "c \<noteq> 63"
    and s': "s' = (enable_interrupts s)\<lparr>system_tcb := (system_tcb s)[c := (system_tcb s ! c)
         \<lparr>holds_lock := h, cur_prio := if h = 0 then native_prio (system_tcb s ! c) else HIGHEST_PRIO\<rparr>],
       gtMutex := ms\<rparr>"
    and mx: "mutex_inv c ms h"
  shows "kinv n ls s' User \<and> irq_enabled s' \<and> view s' User ls = view s User ls \<and> cur_tcb s' = Some c"
proof -
  obtain c0 where "cur_tcb s = Some c0" "c0 < length (system_tcb s)" "c0 \<in> live n" "n \<le> 62"
    "prio_inv n c0 (system_tcb s)"
    using kinv_cur [OF k] by blast
  with c(1) have c1: "c < length (system_tcb s)" "c \<in> live n" "n \<le> 62" "prio_inv n c (system_tcb s)" by auto
  let ?t = "system_tcb s"
  have native: "native_prio (?t ! c) = of_nat c" using c1(2,4) by (auto simp: prio_inv_def)
  have sel: "system_tcb s' = ?t[c := (?t ! c)\<lparr>holds_lock := h,
      cur_prio := if h = 0 then native_prio (?t ! c) else HIGHEST_PRIO\<rparr>]"
    "run_q s' = run_q s" "cur_tcb s' = cur_tcb s" "gtMutex s' = ms" "devices s' = devices s"
    by (simp_all add: s')
  have same: "sleep_queue (system_tcb s' ! i) = sleep_queue (?t ! i)"
    "kcontext (system_tcb s' ! i) = kcontext (?t ! i)" for i
    using c1(1) unfolding sel(1) by (cases "i = c"; simp add: nth_list_update)+
  have "prio_inv n c (system_tcb s')" and h: "holds_lock (system_tcb s' ! c) = h"
    using c1 native unfolding sel(1) by (auto simp: prio_inv_def nth_list_update)
  moreover have "prios_ok s'"
  proof -
    have "unat (native_prio (?t ! c)) < 64"
      using live_bound [OF c1(2,3)] unfolding native by (subst unat_of_nat_u8) auto
    then show ?thesis
      using k c1(1) by (auto simp: kinv_def prios_ok_def sel nth_list_update HIGHEST_PRIO_def)
  qed
  moreover have "dev_queues s' ls"
    by (rule dev_queues_cong [of s]) (use k in \<open>simp_all add: kinv_def same sel(5), simp add: sel\<close>)
  moreover have view: "view s' User ls = view s User ls" by (simp add: view_def same sel(2,3))
  moreover have "irq_enabled s'"
    using irq_enabled_enable [of s] by (simp add: s' irq_enabled_def)
  ultimately show ?thesis
    using k c mx by (simp add: kinv_def sel h)
qed

lemma mutex_inv_take:
  assumes "mutex_inv c ms k" "m < 32" "pHolding_Tcb (ms ! m) = None"
  shows "mutex_inv c (ms[m := (ms ! m)\<lparr>bLock := True, pHolding_Tcb := Some c\<rparr>]) (k + 1)"
proof -
  have "held (ms[m := (ms ! m)\<lparr>bLock := True, pHolding_Tcb := Some c\<rparr>]) c = insert m (held ms c)"
    using assms(1,2) by (auto simp: held_def mutex_inv_def nth_list_update)
  moreover have "m \<notin> held ms c" using assms(3) by (simp add: held_def)
  ultimately show ?thesis
    using assms by (auto simp: mutex_inv_def nth_list_update)
qed

lemma mutex_inv_give:
  assumes "mutex_inv c ms k" "m < 32" "pHolding_Tcb (ms ! m) = Some c"
  shows "mutex_inv c (ms[m := (ms ! m)\<lparr>bLock := False, pHolding_Tcb := None\<rparr>]) (k - 1)"
proof -
  have "held (ms[m := (ms ! m)\<lparr>bLock := False, pHolding_Tcb := None\<rparr>]) c = held ms c - {m}"
    using assms(1,2) by (auto simp: held_def mutex_inv_def nth_list_update)
  moreover have "m \<in> held ms c" using assms(2,3) by (simp add: held_def)
  ultimately have "int (card (held (ms[m := (ms ! m)\<lparr>bLock := False, pHolding_Tcb := None\<rparr>]) c)) = k - 1"
    using assms(1) card_gt_0_iff [of "held ms c"] by (auto simp: mutex_inv_def)
  then show ?thesis
    using assms by (auto simp: mutex_inv_def nth_list_update)
qed

lemma kinv_holds_nonneg:
  assumes "kinv n ls s m" "cur_tcb s = Some c" shows "0 \<le> holds_lock (system_tcb s ! c)"
  using assms by (auto simp: kinv_def mutex_inv_def)

text \<open>A lock is never contended: the call returns.\<close>

lemma lock_inv:
  assumes k: "kinv n ls s User" and c: "cur_tcb s = Some c" "c \<noteq> 63" and en: "irq_enabled s"
  shows "\<exists>r s'. mutex_lock s i = Inr (Returned r, s') \<and> kinv n ls s' User \<and> irq_enabled s'
    \<and> view s' User ls = view s User ls \<and> cur_tcb s' = Some c \<and> devices s' = devices s \<and> sys_time s' = sys_time s
    \<and> r = (if bad_mutex s i then - EINVAL
           else if pHolding_Tcb (gtMutex s ! nat i) = Some c then - EDEADLOCK else 0)
    \<and> (r = 0 \<longrightarrow> pHolding_Tcb (gtMutex s' ! nat i) = Some c)"
proof -
  obtain c0 where "cur_tcb s = Some c0" "c0 < length (system_tcb s)"
    "mutex_inv c0 (gtMutex s) (holds_lock (system_tcb s ! c0))"
    using kinv_cur [OF k] by blast
  with c(1) have c1: "c < length (system_tcb s)" "mutex_inv c (gtMutex s) (holds_lock (system_tcb s ! c))" by auto
  consider "bad_mutex s i" | "\<not> bad_mutex s i" "pHolding_Tcb (gtMutex s ! nat i) = Some c"
    | "\<not> bad_mutex s i" "pHolding_Tcb (gtMutex s ! nat i) \<noteq> Some c" by blast
  then show ?thesis
  proof cases
    case 3
    let ?m = "nat i" and ?h = "holds_lock (system_tcb s ! c) + 1"
    have m: "?m < 32" "?m < length (gtMutex s)" using not_bad_mutex [OF 3(1)] c1(2) by (auto simp: mutex_inv_def)
    have free: "pHolding_Tcb (gtMutex s ! ?m) = None" "\<not> bLock (gtMutex s ! ?m)"
      using c1(2) m(1) 3(2) unfolding mutex_inv_def by auto
    let ?ms = "(gtMutex s)[?m := (gtMutex s ! ?m)\<lparr>bLock := True, pHolding_Tcb := Some c\<rparr>]"
    have h: "?h \<noteq> 0" using kinv_holds_nonneg [OF k c(1)] by linarith
    let ?s' = "(enable_interrupts s)\<lparr>system_tcb := (system_tcb s)[c := (system_tcb s ! c)
         \<lparr>holds_lock := ?h, cur_prio := if ?h = 0 then native_prio (system_tcb s ! c) else HIGHEST_PRIO\<rparr>],
       gtMutex := ?ms\<rparr>"
    have "mutex_lock s i = Inr (Returned 0, ?s')"
      using 3 c(1) c1(1) free h m(2)
      by (simp add: mutex_lock_def get_cur_tcb_def Let_def deref_def mutex_lock_tail_def upd_mutex_def
          upd_tcb_def enable_interrupts_def disable_interrupts_def irq_masks bad_mutex_def)
    moreover have "kinv n ls ?s' User \<and> irq_enabled ?s' \<and> view ?s' User ls = view s User ls \<and> cur_tcb ?s' = Some c"
      using kinv_tcb_update [OF k c refl mutex_inv_take [OF c1(2) m(1) free(1)]] .
    ultimately show ?thesis using 3 m free by (intro exI [of _ 0] exI [of _ ?s']) simp
  qed (use k c in \<open>auto simp: mutex_lock_def get_cur_tcb_def Let_def errno_defs\<close>)
qed

lemma unlock_inv:
  assumes k: "kinv n ls s User" and c: "cur_tcb s = Some c" "c \<noteq> 63" and en: "irq_enabled s"
  shows "\<exists>r s'. mutex_unlock s i = Inr (r, s') \<and> kinv n ls s' User \<and> irq_enabled s'
    \<and> view s' User ls = view s User ls \<and> cur_tcb s' = Some c \<and> devices s' = devices s \<and> sys_time s' = sys_time s
    \<and> r = (if bad_mutex s i then - EINVAL
           else if pHolding_Tcb (gtMutex s ! nat i) \<noteq> Some c then - EPERM else 0)
    \<and> (r = 0 \<longrightarrow> pHolding_Tcb (gtMutex s' ! nat i) = None)"
proof -
  obtain c0 where "cur_tcb s = Some c0" "c0 < length (system_tcb s)"
    "mutex_inv c0 (gtMutex s) (holds_lock (system_tcb s ! c0))"
    using kinv_cur [OF k] by blast
  with c(1) have c1: "c < length (system_tcb s)" "mutex_inv c (gtMutex s) (holds_lock (system_tcb s ! c))" by auto
  consider "bad_mutex s i" | "\<not> bad_mutex s i" "pHolding_Tcb (gtMutex s ! nat i) \<noteq> Some c"
    | "\<not> bad_mutex s i" "pHolding_Tcb (gtMutex s ! nat i) = Some c" by blast
  then show ?thesis
  proof cases
    case 3
    let ?m = "nat i" and ?h = "holds_lock (system_tcb s ! c) - 1"
    have m: "?m < 32" "?m < length (gtMutex s)" using not_bad_mutex [OF 3(1)] c1(2) by (auto simp: mutex_inv_def)
    have nosleep: "pSleep_queue (gtMutex s ! ?m) = None" using c1(2) m(1) by (simp add: mutex_inv_def)
    have "held (gtMutex s) c \<noteq> {}" using 3(2) m(1) by (auto simp: held_def)
    then have "0 < card (held (gtMutex s) c)" by (simp add: card_gt_0_iff)
    then have prio: "?h \<noteq> 0 \<Longrightarrow> cur_prio (system_tcb s ! c) = HIGHEST_PRIO"
      using k c(1) c1(2) by (auto simp: kinv_def prio_inv_def mutex_inv_def)
    let ?ms = "(gtMutex s)[?m := (gtMutex s ! ?m)\<lparr>bLock := False, pHolding_Tcb := None\<rparr>]"
    let ?s' = "(enable_interrupts s)\<lparr>system_tcb := (system_tcb s)[c := (system_tcb s ! c)
         \<lparr>holds_lock := ?h, cur_prio := if ?h = 0 then native_prio (system_tcb s ! c) else HIGHEST_PRIO\<rparr>],
       gtMutex := ?ms\<rparr>"
    have keep: "?h \<noteq> 0 \<Longrightarrow> (system_tcb s ! c)\<lparr>holds_lock := ?h\<rparr>
        = (system_tcb s ! c)\<lparr>holds_lock := ?h, cur_prio := HIGHEST_PRIO\<rparr>"
      using prio by (cases "system_tcb s ! c") simp
    have "mutex_unlock s i = Inr (0, ?s')"
      using 3 c(1) c1(1) nosleep m(2) keep
      by (simp add: mutex_unlock_def get_cur_tcb_def Let_def deref_def wake_first_def upd_mutex_def
          upd_tcb_def enable_interrupts_def disable_interrupts_def irq_masks bad_mutex_def)
    moreover have "kinv n ls ?s' User \<and> irq_enabled ?s' \<and> view ?s' User ls = view s User ls \<and> cur_tcb ?s' = Some c"
      using kinv_tcb_update [OF k c refl mutex_inv_give [OF c1(2) m(1) 3(2)]] .
    ultimately show ?thesis using 3 m by (intro exI [of _ 0] exI [of _ ?s']) simp
  qed (use k c in \<open>auto simp: mutex_unlock_def get_cur_tcb_def Let_def errno_defs\<close>)
qed


section \<open>Creating a task set\<close>

definition mutexes_free :: "mutex_t list \<Rightarrow> bool" where
  "mutexes_free ms \<longleftrightarrow> length ms = 32
     \<and> (\<forall>m<32. pSleep_queue (ms ! m) = None \<and> \<not> bLock (ms ! m) \<and> pHolding_Tcb (ms ! m) = None)"

definition creatable :: "kstate \<Rightarrow> bool" where
  "creatable s \<longleftrightarrow> length (system_tcb s) = 64 \<and> rq_shape (run_q s) \<and> prios_ok s
     \<and> length (devices s) = 4 \<and> mutexes_free (gtMutex s)"

lemma mutexes_free_inv: "mutexes_free ms \<longleftrightarrow> mutex_inv c ms 0"
proof
  assume f: "mutexes_free ms"
  have free: "pSleep_queue (ms ! m) = None" "\<not> bLock (ms ! m)" "pHolding_Tcb (ms ! m) = None" if "m < 32" for m
    using f that by (simp_all add: mutexes_free_def)
  have "m \<notin> held ms c" for m
    using free(3) [of m] by (simp add: held_def)
  then have e: "held ms c = {}" by blast
  have "length ms = 32" using f by (simp add: mutexes_free_def)
  then show "mutex_inv c ms 0"
    unfolding mutex_inv_def e by (simp add: free)
next
  assume i: "mutex_inv c ms 0"
  have free: "pHolding_Tcb (ms ! m) = None" if "m < 32" for m by (rule mutex_inv_none [OF i that])
  then show "mutexes_free ms" using i by (simp add: mutexes_free_def mutex_inv_def)
qed

lemma kinv_creatable:
  assumes "kinv n ls s m" "cur_tcb s = Some c" "holds_lock (system_tcb s ! c) = 0"
  shows "creatable s"
  using assms mutexes_free_inv [of "gtMutex s" c]
  by (auto simp: kinv_def creatable_def rq_wf_shape dev_queues_def)

lemma dev_init_sel [simp]:
  "system_tcb (dev_init s) = system_tcb s" "run_q (dev_init s) = run_q s" "gtMutex (dev_init s) = gtMutex s"
  "cur_tcb (dev_init s) = cur_tcb s" "sys_time (dev_init s) = sys_time s" "global_data (dev_init s) = global_data s"
  by (simp_all add: dev_init_def NUM_DEVICES_def upt_rec upd_dev_def)

lemma dev_init_devices:
  assumes "length (devices s) = 4"
  shows "devices (dev_init s) = map (\<lambda>d. (devices s ! d)\<lparr>dev_sleep_queue := None,
    next_match := sys_time s + dev_freq ! d\<rparr>) [0..<4]"
proof -
  obtain a b c d where "devices s = [a, b, c, d]"
    using assms by (auto simp: length_Suc_conv numeral_eq_Suc)
  then show ?thesis
    by (simp add: dev_init_def NUM_DEVICES_def upt_rec upd_dev_def numeral_2_eq_2 numeral_3_eq_3)
qed

lemma dom_fresh_ready: "dom (fresh_ready n) = live n"
  by (auto simp: fresh_ready_def live_def dom_def split: if_splits)

definition fresh_devices :: "kstate \<Rightarrow> bool" where
  "fresh_devices s \<longleftrightarrow> (\<forall>d<4. next_match (devices s ! d) = sys_time s + dev_freq ! d)"

lemma create_inv:
  assumes s: "creatable s" and n: "n \<le> 62" "n \<le> length tasks"
  shows "\<exists>s1 s2 s'. allocate_tasks rd tasks n (dev_init s) = Inr s1 \<and> sched_init s1 = Inr s2
    \<and> resume s2 = (s', User) \<and> kinv n (replicate 4 []) s' User \<and> irq_enabled s'
    \<and> v_fresh n (view s' User (replicate 4 [])) \<and> fresh_devices s' \<and> sys_time s' = sys_time s
    \<and> \<not> holding s' \<and> gtMutex s' = gtMutex s"
proof -
  have len: "length (system_tcb (dev_init s)) = 64" "rq_shape (run_q (dev_init s))"
    using s by (simp_all add: creatable_def)
  obtain s1 where s1: "allocate_tasks rd tasks n (dev_init s) = Inr s1"
    "s1 = (dev_init s)\<lparr>system_tcb := system_tcb s1, run_q := run_q s1\<rparr>"
    "rq_wf (run_q s1)" "length (system_tcb s1) = 64" "rq_abs (run_q s1) = fresh_ready n"
    "\<forall>i<64. system_tcb s1 ! i = (if 1 \<le> i \<and> i \<le> n
         then task_tcb (global_data s) (rd (tasks ! (i - 1))) i (system_tcb s ! i)
         else if i = 63 then idle_tcb (global_data s) (system_tcb s ! i)
         else system_tcb s ! i)"
    using allocate_tasks_ok [OF len(2,1) n, of rd] by auto
  have sel1: "gtMutex s1 = gtMutex s" "devices s1 = devices (dev_init s)" "sys_time s1 = sys_time s"
    by (subst s1(2), simp)+
  have tcb: "native_prio (system_tcb s1 ! i) = of_nat i" "cur_prio (system_tcb s1 ! i) = of_nat i"
    "holds_lock (system_tcb s1 ! i) = 0"
    "sp_lr (kcontext (system_tcb s1 ! i)) = (if i = 63 then At_idle else At_launch_task)"
    if "i \<in> live n" for i
    using s1(6) that n(1) by (auto simp: live_def task_tcb_def idle_tcb_def IDLE_PRIO_def)
  have "63 \<in> dom (rq_abs (run_q s1))" unfolding s1(5) dom_fresh_ready by simp
  then have ne: "rq_abs (run_q s1) \<noteq> Map.empty" by auto
  have rv: "ready_valid s1"
    using s1(4,5) n(1) by (auto simp: ready_valid_def fresh_ready_def split: if_splits)
  obtain t q where t: "rq_abs (run_q s1) (unat (highest_prio (run_q s1))) = Some t"
    "dispatch_nosave s1 = Inr (ctx_switch_half (s1\<lparr>run_q := q, cur_tcb := Some t\<rparr>) t)"
    "rq_wf q" "rq_abs q = (rq_abs (run_q s1))(unat (highest_prio (run_q s1)) := None)"
    using dispatch_nosave_ok [OF s1(3) ne rv] by blast
  have tp: "t = unat (highest_prio (run_q s1))"
    using t(1) s1(5) by (auto simp: fresh_ready_def split: if_splits)
  have tl: "t \<in> live n" using t(1) s1(5) dom_fresh_ready [of n] tp by (metis domI)
  have tn: "t = (if n = 0 then 63 else 1)"
  proof (cases "n = 0")
    case False
    then have "1 \<in> dom (rq_abs (run_q s1))" using s1(5) dom_fresh_ready [of n] by (simp add: live_def)
    then have "t \<le> 1" using highest_prio_least [OF s1(3)] tp by blast
    then show ?thesis using tl False by (auto simp: live_def)
  qed (use tl in \<open>simp add: live_def\<close>)
  let ?s2 = "ctx_switch_half (s1\<lparr>run_q := q, cur_tcb := Some t\<rparr>) t"
  have lr: "sp_lr (cpu ?s2) = (if t = 63 then At_idle else At_launch_task)"
    using tcb(4) [OF tl] by (simp add: ctx_switch_half_def)
  then have "points_ok t (sp_lr (cpu ?s2))" by (simp add: points_ok_def)
  from resume_ok [OF this] lr obtain s' where s': "resume ?s2 = (s', User)" "irq_enabled s'"
    "s' = ?s2\<lparr>cpsr := cpsr s', cpu := cpu s'\<rparr>" by (auto split: if_splits)
  have sel: "system_tcb s' = system_tcb s1" "run_q s' = q" "cur_tcb s' = Some t" "gtMutex s' = gtMutex s"
    "devices s' = devices (dev_init s)" "sys_time s' = sys_time s1"
    by (subst s'(3), simp add: ctx_switch_half_def sel1)+
  have devs: "fresh_devices s'"
    using s by (simp add: fresh_devices_def sel sel1 dev_init_devices creatable_def)
  have fresh: "v_fresh n (view s' User (replicate 4 []))"
    unfolding v_fresh_def view_def sel using tn tcb(4) t(4) s1(5) dom_fresh_ready [of n] tp
    by (simp add: numeral_eq_Suc)
  have "prios_ok s'"
  proof -
    have "unat (cur_prio (system_tcb s1 ! i)) < 64" if "i < 64" for i
    proof (cases "i \<in> live n")
      case True
      then show ?thesis using that unfolding tcb(2) [OF True] by (subst unat_of_nat_u8) auto
    next
      case False
      then have "system_tcb s1 ! i = system_tcb s ! i" using s1(6) that by (auto simp: live_def)
      then show ?thesis using s that by (simp add: creatable_def prios_ok_def)
    qed
    then show ?thesis using s1(4) by (simp add: prios_ok_def sel)
  qed
  moreover have "dev_queues s' (replicate 4 [])"
    using s by (auto simp: dev_queues_def sel creatable_def dev_init_devices)
  moreover have "prio_inv n t (system_tcb s')"
    using tcb tl by (simp add: prio_inv_def sel)
  moreover have "mutex_inv t (gtMutex s') (holds_lock (system_tcb s' ! t))"
    using s tcb(3) [OF tl] mutexes_free_inv [of "gtMutex s" t] by (simp add: sel creatable_def)
  moreover have "rq_own q"
    unfolding rq_own_def t(4) s1(5) by (auto simp: fresh_ready_def split: if_splits)
  moreover have "holds_lock (system_tcb s' ! t) = 0" using tcb(3) [OF tl] by (simp add: sel)
  ultimately have "kinv n (replicate 4 []) s' User"
    unfolding kinv_def using v_fresh_inv [OF fresh n(1)] t(3) s1(4) sel by auto
  then show ?thesis
    using s1(1) t(2) s' fresh devs sel(3,4,6) sel1(3) tcb(3) [OF tl]
    by (auto simp: sched_init_def holding_def sel(1))
qed

lemma task_create_inv:
  assumes s: "creatable s" and m: "malloc (4 * num) \<noteq> 0"
  shows "(\<exists>r. task_create malloc s tasks num = Inr (Returned r, s))
    \<or> (\<exists>s2 s'. task_create malloc s tasks num = Inr (Switched, s2) \<and> resume s2 = (s', User)
         \<and> kinv (unat num) (replicate 4 []) s' User \<and> irq_enabled s'
         \<and> v_fresh (unat num) (view s' User (replicate 4 [])) \<and> fresh_devices s' \<and> sys_time s' = sys_time s
         \<and> \<not> holding s' \<and> gtMutex s' = gtMutex s)"
proof (cases "num > of_nat OS_AVAIL_TASKS")
  case True
  then show ?thesis by (simp add: task_create_def)
next
  case False
  then have n: "unat num \<le> 62" by (simp add: OS_AVAIL_TASKS_def word_le_nat_alt not_less)
  let ?xs = "task_pointers tasks (unat num)"
  have len: "length ?xs = unat num" by (simp add: task_pointers_def)
  obtain ok order where as: "assign_schedule (read_task (mem s)) ?xs (unat num) = Inr (ok, order)" "length order = unat num"
    using assign_schedule_total [of ?xs "read_task (mem s)"] n len by auto
  show ?thesis
  proof (cases "ok \<and> valid_addr tasks (num * of_nat sizeof_task) USR_START_ADDR USR_END_ADDR")
    case True
    then show ?thesis
      using create_inv [OF s n, of order "read_task (mem s)"] as m False
      by (intro disjI2) (auto simp: task_create_def Let_def)
  qed (use False as m in \<open>auto simp: task_create_def Let_def\<close>)
qed

end
