(* ===== verification/Kernel_Run.thy ===== *)
theory Kernel_Run
  imports Kernel_System
begin

text \<open>
  Every step of the kernel keeps the invariant and is a sequence of steps of the abstract
  scheduler; the states a run can reach, from the start of the kernel on; what follows for
  the mutexes and for the tasks.
\<close>

section \<open>Reading, writing and waiting\<close>

text \<open>The input and output calls touch the memory and the serial line only.\<close>

definition io_frame :: "kstate \<Rightarrow> kstate \<Rightarrow> bool" where
  "io_frame s s' \<longleftrightarrow> s' = s\<lparr>mem := mem s', uart_in := uart_in s', uart_out := uart_out s'\<rparr>"

lemma io_frame_trans: "io_frame s s' \<Longrightarrow> io_frame s' s'' \<Longrightarrow> io_frame s s''"
  unfolding io_frame_def by (cases s; cases s'; cases s'') simp

lemma io_frame_ops:
  "io_frame s (putc c s)" "io_frame s (put_bytes cs s)" "io_frame s (set_byte a c s)" "io_frame s (s\<lparr>uart_in := i\<rparr>)"
  by (simp_all add: io_frame_def putc_def put_bytes_def set_byte_def)

lemma read_loop_frame: "read_loop ptr cnt offset input s = Some (n, s') \<Longrightarrow> io_frame s s'"
proof (induction input arbitrary: offset s)
  case Nil
  then show ?case by (auto simp: read_loop.simps [of _ _ _ "[]"] intro: io_frame_ops split: if_splits)
next
  case (Cons c cs)
  have fin: "io_frame s (putc 10 (set_byte a 10 s)\<lparr>uart_in := cs\<rparr>)" for a
    by (intro io_frame_trans [OF io_frame_trans [OF io_frame_ops(3) io_frame_ops(1)] io_frame_ops(4)])
  from Cons.prems show ?case
    unfolding read_loop.simps [of _ _ _ "c # cs", unfolded list.case]
    by (auto split: if_splits intro: fin io_frame_ops io_frame_trans [OF io_frame_ops(2) Cons.IH]
        Cons.IH io_frame_trans [OF io_frame_trans [OF io_frame_ops(1) io_frame_ops(3)] Cons.IH])
qed

lemma read_frame: "read_syscall fd buf cnt s = Some (v, s') \<Longrightarrow> io_frame s s'"
  using io_frame_ops(4) [of s "uart_in s"]
  by (auto simp: read_syscall_def split: if_splits dest: read_loop_frame)

lemma write_frame: "write_syscall fd buf cnt s = (v, s') \<Longrightarrow> io_frame s s'"
  using io_frame_ops(4) [of s "uart_in s"]
  by (auto simp: write_syscall_def write_loop_spec split: if_splits intro: io_frame_ops)

lemma io_frame_sel:
  assumes "io_frame s s'"
  shows "system_tcb s' = system_tcb s" "run_q s' = run_q s" "cur_tcb s' = cur_tcb s" "gtMutex s' = gtMutex s"
    "devices s' = devices s" "cpsr s' = cpsr s" "sys_time s' = sys_time s"
  using arg_cong [OF assms [unfolded io_frame_def], of system_tcb] arg_cong [OF assms [unfolded io_frame_def], of run_q]
    arg_cong [OF assms [unfolded io_frame_def], of cur_tcb] arg_cong [OF assms [unfolded io_frame_def], of gtMutex]
    arg_cong [OF assms [unfolded io_frame_def], of devices] arg_cong [OF assms [unfolded io_frame_def], of cpsr]
    arg_cong [OF assms [unfolded io_frame_def], of sys_time]
  by simp_all

lemma kinv_io:
  assumes "kinv n ls s m" "io_frame s s'"
  shows "kinv n ls s' m" "view s' m ls = view s m ls" "irq_enabled s' = irq_enabled s"
    "devices s' = devices s" "sys_time s' = sys_time s"
  using io_frame_sel [OF assms(2)] kinv_cong [OF assms(1)] by (simp_all add: view_def irq_enabled_def)

lemma distinct_concat_cons:
  "distinct (concat ls) \<Longrightarrow> c \<notin> set (concat ls) \<Longrightarrow> d < length ls \<Longrightarrow> distinct (concat (ls[d := c # ls ! d]))"
  "d < length ls \<Longrightarrow> set (concat (ls[d := c # ls ! d])) = insert c (set (concat ls))"
proof -
  have "mset (concat (ls[d := c # ls ! d])) = add_mset c (mset (concat ls))" if "d < length ls"
    using that
  proof (induction ls arbitrary: d)
    case (Cons l ls)
    then show ?case by (cases d) auto
  qed simp
  then show "distinct (concat ls) \<Longrightarrow> c \<notin> set (concat ls) \<Longrightarrow> d < length ls \<Longrightarrow> distinct (concat (ls[d := c # ls ! d]))"
    "d < length ls \<Longrightarrow> set (concat (ls[d := c # ls ! d])) = insert c (set (concat ls))"
    by (metis distinct.simps(2) distinct_count_atmost_1 mset.simps(2) mset_eq_imp_distinct_iff,
        metis mset.simps(2) list.simps(15) mset_eq_setD)
qed

lemma field_update:
  assumes "\<And>x. g (f x) = g x" shows "g (xs[i := f (xs ! i)] ! m) = g (xs ! m)"
  by (cases "i = m"; cases "i < length xs"; simp add: assms nth_list_update list_update_beyond)

lemma wait_inv:
  assumes k: "kinv n ls s User" and c: "cur_tcb s = Some c" "c \<noteq> 63" and en: "irq_enabled s"
  shows "(\<exists>r. event_wait_enter s dev = Inr (Some r, s))
    \<or> (\<exists>s' ls'. event_wait_enter s dev = Inr (None, s') \<and> kinv n ls' s' Dev_wait_window \<and> irq_enabled s'
         \<and> view s' Dev_wait_window ls' = v_enqueue (view s User ls) \<and> unat dev < 4
         \<and> ls' = ls[unat dev := c # ls ! unat dev] \<and> sys_time s' = sys_time s
         \<and> (\<forall>d. next_match (devices s' ! d) = next_match (devices s ! d)))"
proof -
  obtain c0 where "cur_tcb s = Some c0" "c0 < length (system_tcb s)" "c0 \<in> live n" "n \<le> 62"
    "prio_inv n c0 (system_tcb s)" "mutex_inv c0 (gtMutex s) (holds_lock (system_tcb s ! c0))"
    using kinv_cur [OF k] by blast
  with c(1) have c1: "c < length (system_tcb s)" "c \<in> live n" "n \<le> 62" "prio_inv n c (system_tcb s)"
    "mutex_inv c (gtMutex s) (holds_lock (system_tcb s ! c))" by auto
  have s: "length (system_tcb s) = 64" "rq_wf (run_q s)" "rq_own (run_q s)" "prios_ok s" "dev_queues s ls"
    and vi: "vinv n (view s User ls)"
    using k by (auto simp: kinv_def)
  consider "holds_lock (system_tcb s ! c) \<noteq> 0" | "dev \<ge> of_nat NUM_DEVICES"
    | "holds_lock (system_tcb s ! c) = 0" "\<not> dev \<ge> of_nat NUM_DEVICES" by blast
  then show ?thesis
  proof cases
    case 3
    let ?d = "unat dev" and ?t = "system_tcb s"
    have d: "?d < 4" using 3(2) by (simp add: NUM_DEVICES_def word_less_nat_alt not_le)
    have len: "length (devices s) = 4" "length ls = 4" using s(5) by (auto simp: dev_queues_def)
    have nin: "c \<notin> set (concat ls)" using vi c(1) by (auto simp: vinv_def)
    define s' where s'_def: "s' = enable_interrupts (upd_dev (upd_tcb (disable_interrupts s) c
        (\<lambda>t. t\<lparr>sleep_queue := dev_sleep_queue (devices s ! ?d)\<rparr>)) ?d (\<lambda>x. x\<lparr>dev_sleep_queue := Some c\<rparr>))"
    let ?ls = "ls[?d := c # ls ! ?d]"
    have step: "event_wait_enter s dev = Inr (None, s')"
      using 3 c(1) c1(1) len d by (simp add: s'_def event_wait_enter_def dev_wait_enqueue_def get_cur_tcb_def deref_def Let_def)
    have sel: "system_tcb s' = ?t[c := (?t ! c)\<lparr>sleep_queue := dev_sleep_queue (devices s ! ?d)\<rparr>]"
      "run_q s' = run_q s" "cur_tcb s' = cur_tcb s" "gtMutex s' = gtMutex s"
      "devices s' = (devices s)[?d := (devices s ! ?d)\<lparr>dev_sleep_queue := Some c\<rparr>]"
      by (simp_all add: s'_def upd_dev_def upd_tcb_def)
    have field: "native_prio (system_tcb s' ! i) = native_prio (?t ! i)" "cur_prio (system_tcb s' ! i) = cur_prio (?t ! i)"
      "holds_lock (system_tcb s' ! i) = holds_lock (?t ! i)" "kcontext (system_tcb s' ! i) = kcontext (?t ! i)" for i
      using c1(1) unfolding sel(1) by (cases "i = c"; simp add: nth_list_update)+
    have q: "dev_queues s' ?ls"
    proof -
      have "sleep_list (system_tcb s') (dev_sleep_queue (devices s' ! e)) (?ls ! e)" if "e < 4" for e
      proof -
        have e: "c \<notin> set (ls ! e)" "c \<notin> set (ls ! ?d)" using nin that d len by (auto simp: in_concat_nth)
        have sl: "sleep_list ?t (dev_sleep_queue (devices s ! e)) (ls ! e)" if "e < 4" for e
          using s(5) that by (simp add: dev_queues_def)
        show ?thesis
        proof (cases "e = ?d")
          case True
          then show ?thesis using e sl [OF d] d len c1(1) by (simp add: sel sleep_list_update)
        next
          case False
          then show ?thesis using e sl [OF that] by (simp add: sel sleep_list_update)
        qed
      qed
      then show ?thesis
        using len distinct_concat_cons(1) [of ls c ?d] nin s(5) d by (simp add: dev_queues_def sel)
    qed
    have view: "view s' Dev_wait_window ?ls = v_enqueue (view s User ls)"
      using distinct_concat_cons(2) [of ?d ls c] d len c(1)
      unfolding view_def v_enqueue_def sel(2,3) field by simp
    have "vinv n (v_enqueue (view s User ls))"
      using vi c by (intro vinv_enqueue) auto
    moreover have "prios_ok s'" using s(4) unfolding prios_ok_def field by (simp add: sel(1))
    moreover have "prio_inv n c (system_tcb s')" unfolding prio_inv_cong [OF field(1-3)] by (rule c1(4))
    moreover have "mutex_inv c (gtMutex s') (holds_lock (system_tcb s' ! c))" unfolding field sel(4) by (rule c1(5))
    moreover have "length (system_tcb s') = 64" using s(1) by (simp add: sel(1))
    moreover have "holds_lock (system_tcb s' ! c) = 0" unfolding field by (rule 3(1))
    ultimately have "kinv n ?ls s' Dev_wait_window"
      unfolding kinv_def view using q s(2,3) c(1) unfolding sel(2,3) by blast
    moreover have "next_match (devices s' ! e) = next_match (devices s ! e)" for e
      unfolding sel(5) by (rule field_update) simp
    moreover have "sys_time s' = sys_time s" by (simp add: s'_def upd_dev_def upd_tcb_def)
    moreover have "irq_enabled s'" by (simp add: s'_def)
    ultimately show ?thesis using step view d by (intro disjI2) (intro exI [of _ s'] exI [of _ ?ls], simp)
  qed (use c c1(1) in \<open>auto simp: event_wait_enter_def get_cur_tcb_def deref_def\<close>)
qed

section \<open>Every step\<close>

text \<open>A create replaces the task set; all other calls leave the schedule as it is.\<close>

lemma task_create_cases:
  assumes k: "kinv n ls s User" and c: "cur_tcb s = Some c" "holds_lock (system_tcb s ! c) = 0"
    and m: "malloc (4 * num) \<noteq> 0"
  shows "\<exists>r s2. task_create malloc s tasks num = Inr (r, s2)
    \<and> ((\<exists>v. r = Returned v \<and> s2 = s)
       \<or> (\<exists>s'. r = Switched \<and> resume s2 = (s', User) \<and> kinv (unat num) (replicate 4 []) s' User
            \<and> irq_enabled s' \<and> v_fresh (unat num) (view s' User (replicate 4 []))))"
  using task_create_inv [OF kinv_creatable [OF k c], of malloc num tasks] m by fastforce

lemma mutex_create_inv:
  assumes k: "kinv n ls s User" and en: "irq_enabled s"
  shows "kinv n ls (snd (mutex_create s)) User" "irq_enabled (snd (mutex_create s))"
    "view (snd (mutex_create s)) User ls = view s User ls" "cur_tcb (snd (mutex_create s)) = cur_tcb s"
    "devices (snd (mutex_create s)) = devices s" "sys_time (snd (mutex_create s)) = sys_time s"
proof -
  let ?s = "snd (mutex_create s)"
  let ?m = "nat (cur_mutex_num s)" and ?ms = "gtMutex ?s"
  have "?ms = gtMutex s \<or> ?ms = (gtMutex s)[?m := (gtMutex s ! ?m)\<lparr>bAvailable := False\<rparr>]"
    by (simp add: mutex_create_def Let_def upd_mutex_def disable_interrupts_def enable_interrupts_def)
  then have ms: "length ?ms = length (gtMutex s)" "bLock (?ms ! m) = bLock (gtMutex s ! m)"
    "pHolding_Tcb (?ms ! m) = pHolding_Tcb (gtMutex s ! m)" "pSleep_queue (?ms ! m) = pSleep_queue (gtMutex s ! m)" for m
    by (auto simp: field_update)
  have sel: "system_tcb ?s = system_tcb s" "run_q ?s = run_q s" "cur_tcb ?s = cur_tcb s"
    "devices ?s = devices s" "sys_time ?s = sys_time s" "irq_enabled ?s"
    by (simp_all add: mutex_create_def Let_def upd_mutex_def)
  show "irq_enabled ?s" "view ?s User ls = view s User ls" "cur_tcb ?s = cur_tcb s"
    "devices ?s = devices s" "sys_time ?s = sys_time s"
    using sel by (simp_all add: view_def)
  have "mutex_inv c ?ms h \<longleftrightarrow> mutex_inv c (gtMutex s) h" for c h
    by (simp add: mutex_inv_def held_def ms)
  then show "kinv n ls ?s User"
    using k by (simp add: kinv_def prios_ok_def dev_queues_def view_def sel ms)
qed

lemmas swi_cases = READ_SWI_def WRITE_SWI_def TIME_SWI_def SLEEP_SWI_def CREATE_SWI_def
  MUTEX_CREATE_def MUTEX_LOCK_def MUTEX_UNLOCK_def EVENT_WAIT_def SWI_BASE_def

text \<open>What a step may do to the schedule: steps of it on the same task set, or a new set.\<close>

definition schedule_step :: "nat \<Rightarrow> sched_view \<Rightarrow> nat \<Rightarrow> sched_view \<Rightarrow> bool \<Rightarrow> bool" where
  "schedule_step n v n' v' created \<longleftrightarrow>
     (\<exists>f. vsteps f v v' \<and> n' = n \<and> (f \<longrightarrow> v_window v)) \<or> (created \<and> v_fresh n' v')"

lemma schedule_same: "v' = v \<Longrightarrow> schedule_step n v n v' b"
  using vsteps.none [of v] by (auto simp: schedule_step_def)

text \<open>
  The calls that neither wait nor create a task set return to their caller and leave the
  schedule, the devices and the clock alone.
\<close>

lemma swi_quiet:
  assumes k: "kinv n ls s User" and c: "cur_tcb s = Some c" "c \<noteq> 63" and en: "irq_enabled s"
    and swi: "swi \<in> calls" "swi \<noteq> EVENT_WAIT" "swi \<noteq> CREATE_SWI"
  shows "\<exists>r s'. swi_dispatch malloc readings swi x s = Inr r \<and> after_swi r = (s', User)
    \<and> kinv n ls s' User \<and> irq_enabled s' \<and> view s' User ls = view s User ls
    \<and> devices s' = devices s \<and> sys_time s' = sys_time s"
proof -
  note d = swi_dispatch_def Let_def swi_cases swi_return_def
  have same: ?thesis if "swi_dispatch malloc readings swi x s = Inr (o', s')" "o' \<noteq> Switched_away"
    "kinv n ls s' User" "irq_enabled s'" "view s' User ls = view s User ls"
    "devices s' = devices s" "sys_time s' = sys_time s" for o' s'
    using that by (intro exI [of _ "(o', s')"] exI [of _ s']) (auto simp: after_swi_def split: swi_result.splits)
  consider "swi = READ_SWI" | "swi = WRITE_SWI" | "swi = TIME_SWI" | "swi = SLEEP_SWI"
    | "swi = MUTEX_CREATE" | "swi = MUTEX_LOCK" | "swi = MUTEX_UNLOCK"
    using swi by (auto simp: calls_def)
  then show ?thesis
  proof cases
    case 1
    show ?thesis
    proof (cases "read_syscall (reg_to_int (ex_r0 x)) (ex_r1 x) (ex_r2 x) s")
      case None
      then show ?thesis using 1 k en by (intro same [of Waiting s]) (simp_all add: d)
    next
      case (Some vs)
      obtain v s' where vs: "vs = (v, s')" by (cases vs)
      with Some have "io_frame s s'" by (auto dest: read_frame)
      from kinv_io [OF k this] show ?thesis
        using 1 en Some vs by (intro same [of "Done (x\<lparr>ex_r0 := int_to_reg v\<rparr>)" s']) (simp_all add: d)
    qed
  next
    case 2
    obtain v s' where vs: "write_syscall (reg_to_int (ex_r0 x)) (ex_r1 x) (ex_r2 x) s = (v, s')"
      by (cases "write_syscall (reg_to_int (ex_r0 x)) (ex_r1 x) (ex_r2 x) s")
    from kinv_io [OF k write_frame [OF this]] show ?thesis
      using 2 en vs by (intro same [of "Done (x\<lparr>ex_r0 := int_to_reg v\<rparr>)" s']) (simp_all add: d)
  next
    case 3
    then show ?thesis
      using k en by (intro same [of "Done (x\<lparr>ex_r0 := time_syscall s\<rparr>)" s]) (simp_all add: d)
  next
    case 4
    then have "swi_dispatch malloc readings swi x s
        = Inr (if sleep_syscall (ex_r0 x) readings = None then Waiting else Done x, s)"
      by (simp add: d split: option.splits)
    then show ?thesis using k en by (intro same) (auto split: if_splits)
  next
    case 5
    then have "swi_dispatch malloc readings swi x s
        = Inr (Done (x\<lparr>ex_r0 := int_to_reg (fst (mutex_create s))\<rparr>), snd (mutex_create s))"
      by (simp add: d split: prod.splits)
    from same [OF this] show ?thesis using mutex_create_inv [OF k en] by simp
  next
    case 6
    obtain r s' where "mutex_lock s (reg_to_int (ex_r0 x)) = Inr (Returned r, s')" "kinv n ls s' User"
      "irq_enabled s'" "view s' User ls = view s User ls" "devices s' = devices s" "sys_time s' = sys_time s"
      using lock_inv [OF k c en] by blast
    then show ?thesis using 6 by (intro same [of "Done (x\<lparr>ex_r0 := int_to_reg r\<rparr>)" s']) (simp_all add: d)
  next
    case 7
    obtain r s' where "mutex_unlock s (reg_to_int (ex_r0 x)) = Inr (r, s')" "kinv n ls s' User"
      "irq_enabled s'" "view s' User ls = view s User ls" "devices s' = devices s" "sys_time s' = sys_time s"
      using unlock_inv [OF k c en] by blast
    then show ?thesis using 7 by (intro same [of "Done (x\<lparr>ex_r0 := int_to_reg r\<rparr>)" s']) (simp_all add: d)
  qed
qed

lemma swi_inv:
  assumes k: "kinv n ls s User" and c: "cur_tcb s = Some c" "c \<noteq> 63" and en: "irq_enabled s"
    and swi: "swi \<in> calls" "swi \<noteq> EVENT_WAIT"
    and cr: "swi = CREATE_SWI \<Longrightarrow> malloc (4 * ex_r1 x) \<noteq> 0 \<and> holds_lock (system_tcb s ! c) = 0"
  shows "\<exists>r s' n' ls'. swi_dispatch malloc readings swi x s = Inr r \<and> after_swi r = (s', User)
    \<and> kinv n' ls' s' User \<and> irq_enabled s'
    \<and> schedule_step n (view s User ls) n' (view s' User ls') (swi = CREATE_SWI)"
proof (cases "swi = CREATE_SWI")
  case False
  from swi_quiet [OF k c en swi this] show ?thesis using schedule_same by metis
next
  case True
  obtain r s2 where r: "task_create malloc s (ex_r0 x) (ex_r1 x) = Inr (r, s2)"
    and *: "(\<exists>v. r = Returned v \<and> s2 = s)
     \<or> (\<exists>s'. r = Switched \<and> resume s2 = (s', User) \<and> kinv (unat (ex_r1 x)) (replicate 4 []) s' User
          \<and> irq_enabled s' \<and> v_fresh (unat (ex_r1 x)) (view s' User (replicate 4 [])))"
    using task_create_cases [OF k c(1), of malloc "ex_r1 x" "ex_r0 x"] cr [OF True] by blast
  have sw: "swi_dispatch malloc readings swi x s = Inr (swi_return x r, s2)"
    using True r by (simp add: swi_dispatch_def Let_def swi_cases)
  from * show ?thesis
  proof
    assume "\<exists>v. r = Returned v \<and> s2 = s"
    then show ?thesis using sw k en schedule_same [of "view s User ls" "view s User ls" n]
      by (intro exI [of _ "(swi_return x r, s2)"] exI [of _ s] exI [of _ n] exI [of _ ls])
        (auto simp: swi_return_def after_swi_def)
  next
    assume "\<exists>s'. r = Switched \<and> resume s2 = (s', User) \<and> kinv (unat (ex_r1 x)) (replicate 4 []) s' User
          \<and> irq_enabled s' \<and> v_fresh (unat (ex_r1 x)) (view s' User (replicate 4 []))"
    then show ?thesis
      using sw True by (intro exI [of _ "(swi_return x r, s2)"]) (force simp: after_swi_def swi_return_def schedule_step_def)
  qed
qed

text \<open>Every polite step succeeds, keeps the invariant and is a step of the schedule.\<close>

definition creates :: "event \<Rightarrow> bool" where
  "creates e = (case e of Swi swi _ _ \<Rightarrow> swi = CREATE_SWI | _ \<Rightarrow> False)"

lemma kstep_inv:
  assumes step: "kstep malloc (s, m) e r" and pol: "polite malloc s e"
    and k: "kinv n ls s m" and en: "irq_enabled s"
  shows "\<exists>s' m' n' ls'. r = Inr (s', m') \<and> kinv n' ls' s' m' \<and> irq_enabled s'
    \<and> schedule_step n (view s m ls) n' (view s' m' ls') (creates e)"
  using step
proof (cases rule: kstep.cases)
  case swi: (swi swi x readings)
  obtain c where c: "cur_tcb s = Some c" "c \<noteq> 63"
    using kinv_cur [OF k] swi(4) by (auto simp: IDLE_PRIO_def)
  have k': "kinv n ls s User" using k swi by simp
  have "swi \<in> calls" "swi = CREATE_SWI \<Longrightarrow> malloc (4 * ex_r1 x) \<noteq> 0 \<and> holds_lock (system_tcb s ! c) = 0"
    using pol c(1) swi(2) by (auto simp: polite_def)
  then obtain o' s' n' ls' where "swi_dispatch malloc readings swi x s = Inr o'" "after_swi o' = (s', User)"
    "kinv n' ls' s' User" "irq_enabled s'"
    "schedule_step n (view s User ls) n' (view s' User ls') (swi = CREATE_SWI)"
    using swi_inv [OF k' c en, of swi malloc x readings] swi(5) by blast
  then show ?thesis using swi(1-3) by (auto simp: creates_def)
next
  case (wait x readings)
  obtain c where c: "cur_tcb s = Some c" "c \<noteq> 63"
    using kinv_cur [OF k] wait(4) by (auto simp: IDLE_PRIO_def)
  have k': "kinv n ls s User" using k wait by simp
  from wait_inv [OF k' c en, of "ex_r0 x"] show ?thesis
  proof (elim disjE exE conjE)
    fix v assume "event_wait_enter s (ex_r0 x) = Inr (Some v, s)"
    then show ?thesis using wait k en by (auto intro!: schedule_same)
  next
    fix s' ls' assume *: "event_wait_enter s (ex_r0 x) = Inr (None, s')" "kinv n ls' s' Dev_wait_window"
      "irq_enabled s'" "view s' Dev_wait_window ls' = v_enqueue (view s User ls)"
    have "vstep False (view s User ls) (v_enqueue (view s User ls))"
      using c by (intro vstep.enqueue) simp_all
    then have "schedule_step n (view s User ls) n (view s' Dev_wait_window ls') False"
      using vsteps_one *(4) by (auto simp: schedule_step_def)
    then show ?thesis using wait *(1-3) by (auto simp: creates_def swi_cases intro!: exI [of _ n] exI [of _ ls'])
  qed
next
  case sleep
  obtain s1 s' m' where s': "dev_wait_sleep s = Inr s1" "resume s1 = (s', m')" "kinv n ls s' m'" "irq_enabled s'"
    "vstep False (view s m ls) (view s' m' ls)"
    using sleep_inv [of n ls s] k sleep(1) by blast
  have "schedule_step n (view s m ls) n (view s' m' ls) b" for b
    using vsteps_one [OF s'(5)] by (auto simp: schedule_step_def)
  then show ?thesis using s' sleep by (auto intro!: exI [of _ n] exI [of _ ls])
next
  case (irq p)
  obtain o' s' m' ls' f where *: "C_IRQ_handler (s\<lparr>periph := p\<rparr>) (irq_point m) = Inr o'" "after_irq m o' = (s', m')"
    "kinv n ls' s' m'" "irq_enabled s'" "vsteps f (view s m ls) (view s' m' ls')" "f \<longrightarrow> m = Dev_wait_window"
    using irq_inv [OF k en, of p] pol irq(1) by (auto simp: polite_def)
  have "schedule_step n (view s m ls) n (view s' m' ls') b" for b
    using *(5,6) by (auto simp: schedule_step_def)
  then show ?thesis using * irq by auto
next
  case (user mem' input)
  let ?s = "s\<lparr>mem := mem', uart_in := input\<rparr>"
  have k': "kinv n ls ?s m" using kinv_cong [OF k] by simp
  have "view ?s m ls = view s m ls" "irq_enabled ?s" using en by (simp_all add: view_def irq_enabled_def)
  then show ?thesis using user k' by (auto intro!: schedule_same exI [of _ n] exI [of _ ls])
qed

section \<open>From the start of the kernel\<close>

text \<open>
  Before the first task set there is no current task: the user program runs on the boot
  stack, may read and write, read the clock, create mutexes, and is interrupted.
\<close>

inductive booted :: "kstate \<Rightarrow> bool" where
  start: "kmain irq_handler swi_handler table s = Inr s' \<Longrightarrow> booted (s'\<lparr>cpsr := c\<rparr>)"
| io: "booted s \<Longrightarrow> io_frame s s' \<Longrightarrow> booted s'"
| new_mutex: "booted s \<Longrightarrow> booted (snd (mutex_create s))"
| tick: "booted s \<Longrightarrow> C_IRQ_handler (s\<lparr>periph := p\<rparr>) k = Inr (out, s') \<Longrightarrow> booted s'"

definition boot_inv :: "kstate \<Rightarrow> bool" where
  "boot_inv s \<longleftrightarrow> creatable s \<and> cur_tcb s = None \<and> (\<forall>d<4. dev_sleep_queue (devices s ! d) = None)"

lemma boot_inv_cong:
  assumes "boot_inv s" "system_tcb s' = system_tcb s" "run_q s' = run_q s" "cur_tcb s' = cur_tcb s"
    "gtMutex s' = gtMutex s" "devices s' = devices s"
  shows "boot_inv s'"
  using assms by (simp add: boot_inv_def creatable_def prios_ok_def)

lemma mutex_init_fold:
  "n \<le> length (gtMutex s) \<Longrightarrow> fold (\<lambda>i s. upd_mutex s i init_mutex) [0..<n] s
     = s\<lparr>gtMutex := map init_mutex (take n (gtMutex s)) @ drop n (gtMutex s)\<rparr>"
proof (induction n)
  case (Suc n)
  then have "drop n (gtMutex s) = gtMutex s ! n # drop (Suc n) (gtMutex s)" by (simp add: Cons_nth_drop_Suc)
  with Suc show ?case
    by (simp add: upd_mutex_def take_Suc_conv_app_nth nth_append list_update_append min_def)
qed simp

lemma mutex_init_eq: "length (gtMutex s) = 32 \<Longrightarrow> mutex_init s = s\<lparr>gtMutex := map init_mutex (gtMutex s), cur_mutex_num := 0\<rparr>"
  using mutex_init_fold [of 32 s] by (simp add: mutex_init_def OS_NUM_MUTEX_def)

lemma wiring_frame:
  "wiring_handler s v h = Inr (r, s') \<Longrightarrow> system_tcb s' = system_tcb s \<and> run_q s' = run_q s \<and> cur_tcb s' = cur_tcb s
     \<and> gtMutex s' = gtMutex s \<and> devices s' = devices s"
  by (auto simp: wiring_handler_def Let_def split: if_splits)

lemma init_timer_frame:
  "init_timer s = Inr s' \<Longrightarrow> system_tcb s' = system_tcb s \<and> run_q s' = run_q s \<and> cur_tcb s' = cur_tcb s
     \<and> gtMutex s' = gtMutex s \<and> devices s' = devices s"
  by (auto simp: init_timer_def Let_def update_timer_eq reg_set_def reg_clear_def reg_write_def split: if_splits)

lemma kmain_boot:
  assumes "kmain irq_handler swi_handler table s = Inr s'" shows "boot_inv s'"
proof -
  let ?s = "(app_startup s)\<lparr>global_data := table\<rparr>"
  obtain s1 s2 s3 r1 r2 where "wiring_handler ?s EX_IRQ irq_handler = Inr (r1, s1)"
    "wiring_handler s1 EX_SWI swi_handler = Inr (r2, s2)" "init_timer s2 = Inr s3" and s': "s' = mutex_init s3"
    using assms by (auto simp: kmain_def Let_def init_interrupt_def init_swi_def bind_eq_Inr)
  with wiring_frame [OF this(1)] wiring_frame [OF this(2)] init_timer_frame [OF this(3)]
  have sel: "system_tcb s3 = replicate 64 zero_tcb" "run_q s3 = zero_run_queue" "cur_tcb s3 = None"
    "gtMutex s3 = replicate 32 zero_mutex" "devices s3 = replicate 4 zero_dev"
    by (simp_all add: app_startup_def OS_MAX_TASKS_def OS_NUM_MUTEX_def)
  have "rq_shape zero_run_queue" by (simp add: rq_shape_def zero_run_queue_def)
  then show ?thesis
    unfolding s' by (simp add: sel mutex_init_eq boot_inv_def creatable_def prios_ok_def mutexes_free_def
        zero_tcb_def zero_dev_def init_mutex_def)
qed

lemma boot_update_one:
  assumes "boot_inv s" "i < 4"
  shows "\<exists>s'. dev_update_one millis i (False, s) = Inr (False, s') \<and> boot_inv s'"
proof -
  have none: "dev_sleep_queue (devices s ! i) = None" using assms by (simp add: boot_inv_def)
  let ?s = "upd_dev s i (\<lambda>d. d\<lparr>dev_sleep_queue := None, next_match := next_match d + dev_freq ! i\<rparr>)"
  have "boot_inv ?s"
    using assms by (auto simp: boot_inv_def creatable_def prios_ok_def upd_dev_def nth_list_update)
  then show ?thesis
    using assms(1) none by (auto simp: dev_update_one_def dev_wake.simps)
qed

lemma boot_update_loop:
  "boot_inv s \<Longrightarrow> set is \<subseteq> {0..<4} \<Longrightarrow> \<exists>s'. dev_update_loop millis is (False, s) = Inr (False, s') \<and> boot_inv s'"
proof (induction "is" arbitrary: s)
  case (Cons i "is")
  then obtain s1 where "dev_update_one millis i (False, s) = Inr (False, s1)" "boot_inv s1"
    using boot_update_one [of s i millis] by auto
  then show ?case using Cons by auto
qed simp

lemma boot_tick:
  assumes b: "boot_inv s" and irq: "C_IRQ_handler (s\<lparr>periph := p\<rparr>) k = Inr (out, s')"
  shows "boot_inv s'"
proof -
  have upd: "boot_inv s'" if u: "dev_update s millis k = Inr (out, s')" and s: "boot_inv s" for s millis
  proof -
    have "boot_inv (disable_interrupts s)" by (rule boot_inv_cong [OF s]) simp_all
    then obtain s1 where "dev_update_loop millis [0..<4] (False, disable_interrupts s) = Inr (False, s1)" "boot_inv s1"
      using boot_update_loop [of "disable_interrupts s" "[0..<4]"] by fastforce
    then have "s' = enable_interrupts s1" "boot_inv s1" using u by (auto simp: dev_update_def NUM_DEVICES_def)
    then show ?thesis by (auto intro: boot_inv_cong)
  qed
  have b': "boot_inv (s\<lparr>periph := p\<rparr>)" by (rule boot_inv_cong [OF b]) simp_all
  show ?thesis
  proof (cases "reg_read (s\<lparr>periph := p\<rparr>) INT_ICPR_ADDR AND push_bit INT_OSTMR_0 1 \<noteq> 0")
    case True
    let ?s1 = "(s\<lparr>periph := p\<rparr>)\<lparr>sys_time := sys_time s + TIME_RESOLUTION\<rparr>"
    obtain s3 where s3: "update_timer (reg_set ?s1 OSTMR_OSSR_ADDR OSTMR_OSSR_M0) TIME_RESOLUTION = Inr s3"
      "dev_update s3 (sys_time s3) k = Inr (out, s')"
      using irq True by (auto simp: C_IRQ_handler_def Let_def bind_eq_Inr)
    have "boot_inv s3"
      using s3(1) by (intro boot_inv_cong [OF b]) (auto simp: update_timer_eq reg_set_def reg_write_def split: if_splits)
    then show ?thesis using upd s3(2) by blast
  next
    case False
    then show ?thesis using irq b' by (simp add: C_IRQ_handler_def)
  qed
qed

lemma booted_inv: "booted s \<Longrightarrow> boot_inv s"
proof (induction rule: booted.induct)
  case (start irq_handler swi_handler table s s' c)
  then show ?case by (intro boot_inv_cong [OF kmain_boot]) auto
next
  case (io s s')
  then show ?case using io_frame_sel by (intro boot_inv_cong [OF io.IH]) auto
next
  case (new_mutex s)
  let ?s = "snd (mutex_create s)"
  have "gtMutex ?s = gtMutex s \<or> gtMutex ?s = (gtMutex s)[nat (cur_mutex_num s) := (gtMutex s ! nat (cur_mutex_num s))\<lparr>bAvailable := False\<rparr>]"
    by (simp add: mutex_create_def Let_def upd_mutex_def disable_interrupts_def enable_interrupts_def)
  then have "mutexes_free (gtMutex ?s)"
    using new_mutex.IH by (auto simp: boot_inv_def creatable_def mutexes_free_def field_update)
  moreover have "system_tcb ?s = system_tcb s" "run_q ?s = run_q s" "cur_tcb ?s = cur_tcb s" "devices ?s = devices s"
    by (simp_all add: mutex_create_def Let_def upd_mutex_def)
  ultimately show ?case using new_mutex.IH by (simp add: boot_inv_def creatable_def prios_ok_def)
next
  case (tick s p k out s')
  then show ?case using boot_tick by blast
qed

text \<open>The states of a run, once a task set was created.\<close>

inductive reachable :: "(u32 \<Rightarrow> u32) \<Rightarrow> nat \<Rightarrow> kstate \<times> mode \<Rightarrow> bool" for malloc where
  first: "booted s \<Longrightarrow> malloc (4 * num) \<noteq> 0 \<Longrightarrow> task_create malloc s tasks num = Inr (Switched, s')
     \<Longrightarrow> reachable malloc (unat num) (resume s')"
| step: "reachable malloc n sm \<Longrightarrow> polite malloc (fst sm) e \<Longrightarrow> \<not> creates e \<Longrightarrow> kstep malloc sm e (Inr sm')
     \<Longrightarrow> reachable malloc n sm'"
| again: "reachable malloc n (s, User) \<Longrightarrow> polite malloc s (Swi CREATE_SWI c rs)
     \<Longrightarrow> task_create malloc s (ex_r0 c) (ex_r1 c) = Inr (Switched, s')
     \<Longrightarrow> reachable malloc (unat (ex_r1 c)) (resume s')"

lemma reachable_kinv:
  "reachable malloc n sm \<Longrightarrow> \<exists>ls. kinv n ls (fst sm) (snd sm) \<and> irq_enabled (fst sm)"
proof (induction rule: reachable.induct)
  case (first s num tasks s')
  have "creatable s" using booted_inv [OF first(1)] by (simp add: boot_inv_def)
  from task_create_inv [where malloc = malloc and tasks = tasks, OF this first(2)] first(3)
  obtain s2 where "resume s' = (s2, User)" "kinv (unat num) (replicate 4 []) s2 User" "irq_enabled s2"
    by auto
  then show ?case by auto
next
  case (step n sm e sm')
  obtain s m where sm: "sm = (s, m)" by (cases sm)
  obtain s' m' where sm': "sm' = (s', m')" by (cases sm')
  obtain ls where "kinv n ls s m" "irq_enabled s" using step.IH sm by auto
  from kstep_inv [OF _ _ this, of malloc e] step sm sm' show ?case
    by (fastforce simp: schedule_step_def)
next
  case (again n s c rs s')
  obtain ls where k: "kinv n ls s User" "irq_enabled s" using again.IH by auto
  obtain t where t: "cur_tcb s = Some t" using kinv_cur [OF k(1)] by blast
  have "malloc (4 * ex_r1 c) \<noteq> 0" "holds_lock (system_tcb s ! t) = 0"
    using again(2) t by (auto simp: polite_def)
  from task_create_cases [OF k(1) t this(2), of malloc "ex_r1 c" "ex_r0 c"] this(1) again(3)
  show ?case by auto
qed

end
