(* ===== verification/Kernel_Turns.thy ===== *)
theory Kernel_Turns
  imports Kernel_Run
begin

text \<open>
  Single steps of a run at a state whose schedule is known: a task waits for a device, goes to
  sleep, and the timer ticks. Runs of concrete programs are put together from these.
\<close>

text \<open>
  A state of a run in which nobody holds a mutex: its mode, the sleep queues, the schedule,
  the time, and the match times of the devices.
\<close>

definition kernel_at :: "(u32 \<Rightarrow> u32) \<Rightarrow> nat \<Rightarrow> mode \<Rightarrow> nat list list \<Rightarrow> sched_view \<Rightarrow> u32 \<times> (nat \<Rightarrow> u32)
    \<Rightarrow> kstate \<Rightarrow> bool" where
  "kernel_at malloc n m ls v t s \<longleftrightarrow> reachable malloc n (s, m) \<and> kinv n ls s m \<and> irq_enabled s
     \<and> view s m ls = v \<and> \<not> holding s \<and> sys_time s = fst t
     \<and> (\<forall>d<4. next_match (devices s ! d) = snd t d)"

lemma at_cur:
  assumes "kernel_at malloc n m ls v t s"
  shows "cur_tcb s = Some (v_cur v)" "v_cur v < length (system_tcb s)" "holds_lock (system_tcb s ! v_cur v) = 0"
proof -
  obtain c where "cur_tcb s = Some c" "c < length (system_tcb s)"
    using assms kinv_cur unfolding kernel_at_def by metis
  moreover have "v_cur (view s m ls) = v_cur v" using assms by (simp add: kernel_at_def)
  ultimately show "cur_tcb s = Some (v_cur v)" "v_cur v < length (system_tcb s)" "holds_lock (system_tcb s ! v_cur v) = 0"
    using assms by (auto simp: kernel_at_def holding_def)
qed

lemma at_mode: "kernel_at malloc n m ls v t s \<Longrightarrow> v_window v \<longleftrightarrow> m = Dev_wait_window"
  using view_sel(4) [of s m ls] by (simp add: kernel_at_def)

lemma at_user: "kernel_at malloc n m ls v t s \<Longrightarrow> \<not> v_window v \<Longrightarrow> kernel_at malloc n User ls v t s"
  using at_mode by (metis mode.exhaust)

lemma at_dev: "kernel_at malloc n m ls v t s \<Longrightarrow> v_window v \<Longrightarrow> kernel_at malloc n Dev_wait_window ls v t s"
  using at_mode by metis

lemma at_queues: "kernel_at malloc n m ls v t s \<Longrightarrow> length ls = 4"
  by (simp add: kernel_at_def kinv_def dev_queues_def)

lemma reachable_wait:
  assumes "reachable malloc n (s, User)" "event_wait_enter s d = Inr (None, s')" "cur_tcb s \<noteq> Some 63"
  shows "reachable malloc n (s', Dev_wait_window)"
proof -
  let ?x = "\<lparr>ex_r0 = d, ex_r1 = 0, ex_r2 = 0, ex_r3 = 0, ex_r4 = 0, ex_r5 = 0, ex_r6 = 0, ex_r7 = 0, ex_r8 = 0,
    ex_r9 = 0, ex_r10 = 0, ex_r11 = 0, ex_r12 = 0\<rparr>"
  have "kstep malloc (s, User) (Swi EVENT_WAIT ?x []) (Inr (s', Dev_wait_window))"
    using kstep.wait [of s malloc ?x "[]"] assms(2,3) by (simp add: IDLE_PRIO_def)
  then show ?thesis
    by (rule reachable.step [OF assms(1), rotated 2]) (auto simp: polite_def creates_def calls_def swi_defs)
qed

text \<open>The running task waits for device d.\<close>

lemma at_wait:
  assumes a: "kernel_at malloc n User ls v t s" and c: "v_cur v \<noteq> 63" and d: "unat d < 4"
  shows "\<exists>s'. event_wait_enter s d = Inr (None, s') \<and> gtMutex s' = gtMutex s
    \<and> kernel_at malloc n Dev_wait_window (ls[unat d := v_cur v # ls ! unat d]) (v_enqueue v) t s'"
proof -
  have k: "kinv n ls s User" and en: "irq_enabled s" and r: "reachable malloc n (s, User)"
    using a by (simp_all add: kernel_at_def)
  note cur = at_cur [OF a]
  have nd: "\<not> of_nat NUM_DEVICES \<le> d" using d by (simp add: NUM_DEVICES_def word_le_nat_alt)
  have "event_wait_enter s d \<noteq> Inr (Some r, s)" for r
    using cur nd by (auto simp: event_wait_enter_def get_cur_tcb_def deref_def bind_eq_Inr)
  with wait_inv [OF k cur(1) c en, of d] obtain s' where
    s': "event_wait_enter s d = Inr (None, s')" "kinv n (ls[unat d := v_cur v # ls ! unat d]) s' Dev_wait_window"
    "irq_enabled s'" "view s' Dev_wait_window (ls[unat d := v_cur v # ls ! unat d]) = v_enqueue (view s User ls)"
    "sys_time s' = sys_time s" "\<forall>d. next_match (devices s' ! d) = next_match (devices s ! d)"
    by blast
  have "gtMutex s' = gtMutex s"
    using s'(1) cur nd
    by (auto simp: event_wait_enter_def get_cur_tcb_def deref_def bind_eq_Inr dev_wait_enqueue_def Let_def
        upd_tcb_def upd_dev_def split: if_splits)
  moreover have "\<not> holding s'" using kinv_cur [OF s'(2)] by (metis holding_def option.sel)
  moreover have "reachable malloc n (s', Dev_wait_window)" using reachable_wait [OF r s'(1)] cur(1) c by simp
  ultimately show ?thesis using s' a by (auto simp: kernel_at_def)
qed

text \<open>It goes to sleep, and the highest of the ready tasks goes on.\<close>

lemma at_sleep:
  assumes a: "kernel_at malloc n Dev_wait_window ls v t s"
  shows "\<exists>s1 m' s'. dev_wait_sleep s = Inr s1 \<and> resume s1 = (s', m') \<and> gtMutex s' = gtMutex s
    \<and> kernel_at malloc n m' ls (v_sleep (Min (v_ready v)) v) t s'"
proof -
  have k: "kinv n ls s Dev_wait_window" and r: "reachable malloc n (s, Dev_wait_window)"
    and v: "view s Dev_wait_window ls = v" using a by (simp_all add: kernel_at_def)
  obtain s1 s' m' where s': "dev_wait_sleep s = Inr s1" "resume s1 = (s', m')" "kinv n ls s' m'" "irq_enabled s'"
    "vstep False v (view s' m' ls)" "devices s' = devices s" "sys_time s' = sys_time s" "\<not> holding s'" "gtMutex s' = gtMutex s"
    using sleep_inv [OF k] unfolding v by blast
  have vi: "vinv n v" using k v by (simp add: kinv_def)
  have "view s' m' ls = v_sleep (Min (v_ready v)) v"
    using s'(5)
  proof (cases rule: vstep.cases)
    case (sleep t)
    then have "Min (v_ready v) = t" using vinv_finite [OF vi] by (intro Min_eqI) auto
    with sleep show ?thesis by simp
  qed (use at_mode [OF a] in simp_all)
  moreover have "kstep malloc (s, Dev_wait_window) Sleep_now (Inr (s', m'))"
    using kstep.sleep [of malloc s] s'(1,2) by simp
  then have "reachable malloc n (s', m')"
    by (rule reachable.step [OF r, rotated 2]) (simp_all add: polite_def creates_def)
  ultimately have "kernel_at malloc n m' ls (v_sleep (Min (v_ready v)) v) t s'" using s' a by (simp add: kernel_at_def)
  then show ?thesis using s' by blast
qed

text \<open>A tick: the devices whose match time has come lose their queues.\<close>

definition next_matches :: "u32 \<Rightarrow> (nat \<Rightarrow> u32) \<Rightarrow> nat \<Rightarrow> u32" where
  "next_matches now nm d = (if nm d \<le> now then nm d + dev_freq ! d else nm d)"

definition queues_left :: "u32 \<Rightarrow> (nat \<Rightarrow> u32) \<Rightarrow> nat list list \<Rightarrow> nat list list" where
  "queues_left now nm ls = map (\<lambda>d. if nm d \<le> now then [] else ls ! d) [0..<4]"

definition tasks_due :: "u32 \<Rightarrow> (nat \<Rightarrow> u32) \<Rightarrow> nat list list \<Rightarrow> nat set" where
  "tasks_due now nm ls = (\<Union>d\<in>{d. d < 4 \<and> nm d \<le> now}. set (ls ! d))"

definition safe_tick :: "(u32 \<Rightarrow> u32) \<Rightarrow> bool" where
  "safe_tick p \<longleftrightarrow> tick_pending p \<and> unat (p (PERIPHERAL_BASE + OSTMR_OSCR_ADDR)) < 2 ^ 32 - 18432"

lemma at_tick:
  assumes a: "kernel_at malloc n m ls v (t, nm) s" and p: "safe_tick p" and now: "now = t + 5"
  shows "\<exists>r s' m'. C_IRQ_handler (s\<lparr>periph := p\<rparr>) (irq_point m) = Inr r \<and> after_irq m r = (s', m')
    \<and> gtMutex s' = gtMutex s
    \<and> kernel_at malloc n m' (queues_left now nm ls) (v_tick False (tasks_due now nm ls) v) (now, next_matches now nm) s'"
proof -
  have k: "kinv n ls s m" and en: "irq_enabled s" and r: "reachable malloc n (s, m)" and h: "\<not> holding s"
    and v: "view s m ls = v" using a by (simp_all add: kernel_at_def)
  have p': "tick_pending p" "unat (p (PERIPHERAL_BASE + OSTMR_OSCR_ADDR)) < 2 ^ 32 - 18432"
    using p by (simp_all add: safe_tick_def)
  have now': "now = sys_time s + 5" using a now by (simp add: kernel_at_def)
  obtain o' s' m' where s': "C_IRQ_handler (s\<lparr>periph := p\<rparr>) (irq_point m) = Inr o'" "after_irq m o' = (s', m')"
    "kinv n (after_update s now ls [0..<4]) s' m'" "irq_enabled s'" "sys_time s' = now" "holding s' \<longrightarrow> holding s"
    "view s' m' (after_update s now ls [0..<4]) = v_tick (holding s) (set (due_tasks s now ls [0..<4])) v"
    "\<forall>d<4. devices s' ! d = (if due s now d then fired (devices s ! d) d else devices s ! d)"
    "gtMutex s' = gtMutex s"
    using irq_tick [OF k p' now'] unfolding v by blast
  have due: "due s now d \<longleftrightarrow> nm d \<le> now" if "d < 4" for d
    using a that by (simp add: due_def kernel_at_def)
  then have ls: "after_update s now ls [0..<4] = queues_left now nm ls"
    by (auto simp: after_update_def queues_left_def)
  have F: "set (due_tasks s now ls [0..<4]) = tasks_due now nm ls"
    using due by (auto simp: due_tasks_def tasks_due_def split: if_splits)
  have "next_match (devices s' ! d) = next_matches now nm d" if "d < 4" for d
    using s'(8) due a that by (simp add: kernel_at_def fired_def next_matches_def)
  moreover have "kstep malloc (s, m) (Timer_irq p) (Inr (s', m'))"
    using kstep.irq [OF en, of malloc m p] s'(1,2) by simp
  then have "reachable malloc n (s', m')"
    by (rule reachable.step [OF r, rotated 2]) (use p' in \<open>simp_all add: polite_def creates_def\<close>)
  ultimately show ?thesis using s' h unfolding ls F by (intro exI [of _ o'] exI [of _ s'] exI [of _ m']) (simp add: kernel_at_def)
qed

text \<open>A tick at which no device is due changes the time only.\<close>

lemma v_tick_none: "v_tick h {} v = v"
  by (cases v) (simp add: v_tick_def v_fire_def)

lemma queues_left_none: "(\<And>d. d < 4 \<Longrightarrow> now < nm d) \<Longrightarrow> length ls = 4 \<Longrightarrow> queues_left now nm ls = ls"
  by (intro nth_equalityI) (auto simp: queues_left_def linorder_not_less [symmetric])

lemma tasks_due_none: "(\<And>d. d < 4 \<Longrightarrow> now < nm d) \<Longrightarrow> tasks_due now nm ls = {}"
  by (auto simp: tasks_due_def linorder_not_less [symmetric])

end
