(* ===== verification/Kernel_Props.thy ===== *)
theory Kernel_Props
  imports Kernel_Turns
begin

text \<open>
  The properties of the running kernel: it never fails, locks never block, only the running
  task holds mutexes, what a timer tick does, which tasks can get lost. They are shown at
  concrete runs of two tasks that wait for the fourth device.
\<close>

section \<open>Two tasks\<close>

text \<open>Two task descriptors at the start of the user segment: 1 ms every 10, 2 ms every 20.\<close>

definition demo_mem :: memory where
  "demo_mem a = (if a = 0xa000000c then 1 else if a = 0xa0000010 then 10
     else if a = 0xa0000024 then 2 else if a = 0xa0000028 then 20 else 0)"

lemma demo_tasks:
  "C_time (read_task demo_mem 0xa0000000) = 1" "T_period (read_task demo_mem 0xa0000000) = 10"
  "B_time (read_task demo_mem 0xa0000000) = 0"
  "C_time (read_task demo_mem 0xa0000018) = 2" "T_period (read_task demo_mem 0xa0000018) = 20"
  "B_time (read_task demo_mem 0xa0000018) = 0"
  by (simp_all add: read_task_def load32_def demo_mem_def)

lemma demo_schedule:
  "assign_schedule (read_task demo_mem) [0xa0000000, 0xa0000018] 2 = Inr (True, [0xa0000000, 0xa0000018])"
proof -
  have "sort_outer (read_task demo_mem) (length [0xa0000000, 0xa0000018 :: u32]) [0xa0000000, 0xa0000018]
      = [0xa0000000, 0xa0000018]"
    by (simp add: sort_step_def demo_tasks)
  moreover have "length [0xa0000000, 0xa0000018 :: u32] = 2" by simp
  ultimately have "sort_outer (read_task demo_mem) 2 [0xa0000000, 0xa0000018] = [0xa0000000, 0xa0000018]"
    by (simp only:)
  moreover have "ub_loop (map (read_task demo_mem) [0xa0000000, 0xa0000018]) 0 (Fin 0) = Inr True"
    by (simp add: demo_tasks this_util_def plain_util_def float_of_u32_def q32_def bound_table_nth
        bound_digits_def fl_eval)
  ultimately show ?thesis by (simp add: assign_schedule_def)
qed

lemma mutex_init_time: "sys_time (mutex_init s) = sys_time s"
proof -
  have "sys_time (fold (\<lambda>i s. upd_mutex s i init_mutex) is s) = sys_time s" for "is"
    by (induction "is" arbitrary: s) (simp_all add: upd_mutex_def)
  then show ?thesis by (simp add: mutex_init_def)
qed

lemma demo_boot: "\<exists>s. booted s \<and> mem s = demo_mem \<and> sys_time s = 0 \<and> \<not> bad_mutex s 0"
proof -
  have "wiring_handler s v h = Inr (- 1, s)" if "mem s = (\<lambda>_. 0)" for s v h
    using that by (simp add: wiring_handler_def Let_def load32_def)
  moreover have "\<exists>s'. init_timer s = Inr s'" if "periph s = (\<lambda>_. 0)" for s
    using that by (simp add: init_timer_def update_timer_eq Let_def reg_read_def)
  ultimately have "\<exists>s. kmain 0 0 0 blank_machine = Inr s"
    by (simp add: kmain_def Let_def init_interrupt_def init_swi_def app_startup_def blank_machine_def bind_eq_Inr)
  then obtain s where k: "kmain 0 0 0 blank_machine = Inr s" by blast
  have "sys_time s' = 0" if "init_timer s = Inr s'" for s s'
    using that by (auto simp: init_timer_def update_timer_eq Let_def reg_set_def reg_clear_def reg_write_def split: if_splits)
  with k have "sys_time s = 0"
    by (auto simp: kmain_def Let_def bind_eq_Inr mutex_init_time)
  moreover have "booted (s\<lparr>cpsr := 0, mem := demo_mem\<rparr>)"
    by (rule booted.io [OF booted.start [OF k, of 0]]) (simp add: io_frame_def)
  moreover have "cur_mutex_num s = 0"
    using k by (auto simp: kmain_def Let_def bind_eq_Inr mutex_init_def)
  moreover have "length (gtMutex s) = 32"
    using kmain_boot [OF k] by (simp add: boot_inv_def creatable_def mutexes_free_def)
  moreover have "sys_time (snd (mutex_create s)) = sys_time s" "mem (snd (mutex_create s)) = mem s"
    "cur_mutex_num s = 0 \<Longrightarrow> length (gtMutex s) = 32 \<Longrightarrow> \<not> bad_mutex (snd (mutex_create s)) 0" for s
    by (simp_all add: mutex_create_def Let_def upd_mutex_def disable_interrupts_def enable_interrupts_def
        OS_NUM_MUTEX_def bad_mutex_def)
  ultimately show ?thesis
    using booted.new_mutex by (intro exI [of _ "snd (mutex_create (s\<lparr>cpsr := 0, mem := demo_mem\<rparr>))"]) simp
qed

abbreviation has_memory :: "u32 \<Rightarrow> u32" where "has_memory \<equiv> \<lambda>_. 1"

abbreviation run_at :: "nat \<Rightarrow> mode \<Rightarrow> nat list list \<Rightarrow> sched_view \<Rightarrow> u32 \<times> (nat \<Rightarrow> u32) \<Rightarrow> kstate \<Rightarrow> bool" where
  "run_at \<equiv> kernel_at has_memory"

text \<open>No device has fired yet.\<close>

definition at_ms :: "u32 \<Rightarrow> u32 \<times> (nat \<Rightarrow> u32)" where
  "at_ms t = (t, \<lambda>d. dev_freq ! d)"

lemma demo_created:
  "\<exists>s s2 s'. booted s \<and> task_create has_memory s 0xa0000000 2 = Inr (Switched, s2) \<and> resume s2 = (s', User)
     \<and> kinv 2 (replicate 4 []) s' User \<and> irq_enabled s' \<and> v_fresh 2 (view s' User (replicate 4 []))
     \<and> fresh_devices s' \<and> sys_time s' = 0 \<and> \<not> holding s' \<and> \<not> bad_mutex s' 0"
proof -
  obtain s where s: "booted s" "mem s = demo_mem" "sys_time s = 0" "\<not> bad_mutex s 0" using demo_boot by blast
  have cr: "creatable s" using booted_inv [OF s(1)] by (simp add: boot_inv_def)
  have ptrs: "task_pointers 0xa0000000 2 = [0xa0000000, 0xa0000018]"
    by (simp add: task_pointers_def sizeof_task_def numeral_2_eq_2)
  have "task_create has_memory s 0xa0000000 2 \<noteq> Inr (Returned r, s)" for r
    by (auto simp: task_create_def Let_def OS_AVAIL_TASKS_def valid_addr_def sizeof_task_def USR_START_ADDR_def
        USR_END_ADDR_def ptrs s(2) demo_schedule bind_eq_Inr split: if_splits)
  with task_create_inv [OF cr, of has_memory 2 "0xa0000000"] obtain s2 s' where
    *: "task_create has_memory s 0xa0000000 2 = Inr (Switched, s2)" "resume s2 = (s', User)"
    "kinv (unat (2 :: u32)) (replicate 4 []) s' User" "irq_enabled s'"
    "v_fresh (unat (2 :: u32)) (view s' User (replicate 4 []))" "fresh_devices s'" "sys_time s' = sys_time s"
    "\<not> holding s'" "gtMutex s' = gtMutex s"
    by auto
  moreover have "\<not> bad_mutex s' 0" using s(4) *(9) by (simp add: bad_mutex_def)
  ultimately show ?thesis using s(1,3) by auto
qed

lemma demo_start:
  "\<exists>v s. v_fresh 2 v \<and> run_at 2 User (replicate 4 []) v (at_ms 0) s \<and> \<not> bad_mutex s 0"
proof -
  obtain s s2 s' where *: "booted s" "task_create has_memory s 0xa0000000 2 = Inr (Switched, s2)"
    "resume s2 = (s', User)" "kinv 2 (replicate 4 []) s' User" "irq_enabled s'"
    "v_fresh 2 (view s' User (replicate 4 []))" "fresh_devices s'" "sys_time s' = 0" "\<not> holding s'" "\<not> bad_mutex s' 0"
    using demo_created by blast
  have "reachable has_memory (unat (2 :: u32)) (resume s2)"
    by (rule reachable.first [OF *(1) _ *(2)]) simp
  with * have "run_at 2 User (replicate 4 []) (view s' User (replicate 4 [])) (at_ms 0) s'"
    by (simp add: kernel_at_def fresh_devices_def at_ms_def)
  with *(6,10) show ?thesis by blast
qed

lemma run_wait:
  assumes "run_at n User ls v t s" "v_cur v \<noteq> 63"
  shows "\<exists>s'. run_at n Dev_wait_window (ls[3 := v_cur v # ls ! 3]) (v_enqueue v) t s'"
  using at_wait [OF assms, of 3] by auto

lemma run_sleep:
  assumes "run_at n Dev_wait_window ls v t s"
  shows "\<exists>m' s'. run_at n m' ls (v_sleep (Min (v_ready v)) v) t s'"
  using at_sleep [OF assms] by blast

definition tick_regs :: "u32 \<Rightarrow> u32" where
  "tick_regs a = (if a = PERIPHERAL_BASE + INT_ICPR_ADDR then push_bit INT_OSTMR_0 1 else 0)"

lemma tick_regs_safe: "safe_tick tick_regs"
  by (simp add: safe_tick_def tick_pending_def tick_regs_def INT_OSTMR_0_def PERIPHERAL_BASE_def INT_ICPR_ADDR_def
      OSTMR_OSCR_ADDR_def)

lemma dev_cases: "d < 4 \<Longrightarrow> d = 0 \<or> d = 1 \<or> d = 2 \<or> d = (3 :: nat)"
  by auto

lemma run_quiet_tick:
  assumes a: "run_at n m ls v (at_ms t) s" and now: "now = t + 5" "now < 50"
  shows "\<exists>s'. run_at n m ls v (at_ms now) s'"
proof -
  have fr: "now < dev_freq ! d" if "d < 4" for d
    using dev_cases [OF that] now(2) by (auto simp: dev_freq_def word_less_nat_alt)
  obtain m' s' where s': "run_at n m' (queues_left now (nth dev_freq) ls) (v_tick False (tasks_due now (nth dev_freq) ls) v)
      (now, next_matches now (nth dev_freq)) s'"
    using at_tick [OF a [unfolded at_ms_def] tick_regs_safe now(1)] by blast
  then have "run_at n m' ls v (now, next_matches now (nth dev_freq)) s'"
    using fr by (simp add: tasks_due_none queues_left_none [OF _ at_queues [OF a]] v_tick_none)
  moreover from this have "m' = m" using at_mode [OF a] at_mode by (metis mode.exhaust)
  ultimately have "run_at n m ls v (at_ms now) s'"
    using fr by (auto simp: kernel_at_def at_ms_def next_matches_def not_le [symmetric])
  then show ?thesis by blast
qed

text \<open>Both tasks wait for the fourth device, the second one not asleep yet when it fires.\<close>

lemma demo_second_waits:
  "\<exists>v s. run_at 2 Dev_wait_window [[], [], [], [2, 1]] v (at_ms 45) s
     \<and> v_cur v = 2 \<and> v_ready v = {63} \<and> v_waiting v = {1, 2}
     \<and> v_point v 1 = In_dev_wait \<and> v_point v 63 = At_idle"
proof -
  obtain v0 s0 where v0: "v_fresh 2 v0" "run_at 2 User [[], [], [], []] v0 (at_ms 0) s0"
    using demo_start by (auto simp: numeral_eq_Suc)
  then have f: "v_cur v0 = 1" "v_ready v0 = {2, 63}" "v_waiting v0 = {}" "\<not> v_window v0"
    "v_point v0 1 = At_launch_task" "v_point v0 2 = At_launch_task" "v_point v0 63 = At_idle"
    by (auto simp: v_fresh_def live_def)
  obtain s1 where "run_at 2 Dev_wait_window [[], [], [], [1]] (v_enqueue v0) (at_ms 0) s1"
    using run_wait [OF v0(2)] f by auto
  from run_sleep [OF this] obtain m2 s2 where
    "run_at 2 m2 [[], [], [], [1]] (v_sleep (Min (v_ready (v_enqueue v0))) (v_enqueue v0)) (at_ms 0) s2" by blast
  moreover define v2 where "v2 = v_sleep (Min (v_ready (v_enqueue v0))) (v_enqueue v0)"
  ultimately have r2: "run_at 2 m2 [[], [], [], [1]] v2 (at_ms 0) s2" by simp
  have f2: "v_cur v2 = 2" "v_ready v2 = {63}" "v_waiting v2 = {1}" "\<not> v_window v2"
    "v_point v2 1 = In_dev_wait" "v_point v2 63 = At_idle"
    using f by (auto simp: v2_def v_sleep_def v_switch_def v_enqueue_def)
  have tick: "\<exists>s'. run_at 2 User [[], [], [], [1]] v2 (at_ms (t + 5)) s'"
    if "run_at 2 User [[], [], [], [1]] v2 (at_ms t) s" "t + 5 < 50" for t s
    by (rule run_quiet_tick [OF that(1) refl that(2)])
  obtain s3 where "run_at 2 User [[], [], [], [1]] v2 (at_ms 5) s3"
    using tick [OF at_user [OF r2 f2(4)]] by auto
  then obtain s4 where "run_at 2 User [[], [], [], [1]] v2 (at_ms 10) s4" using tick by fastforce
  then obtain s5 where "run_at 2 User [[], [], [], [1]] v2 (at_ms 15) s5" using tick by fastforce
  then obtain s6 where "run_at 2 User [[], [], [], [1]] v2 (at_ms 20) s6" using tick by fastforce
  then obtain s7 where "run_at 2 User [[], [], [], [1]] v2 (at_ms 25) s7" using tick by fastforce
  then obtain s8 where "run_at 2 User [[], [], [], [1]] v2 (at_ms 30) s8" using tick by fastforce
  then obtain s9 where "run_at 2 User [[], [], [], [1]] v2 (at_ms 35) s9" using tick by fastforce
  then obtain s10 where "run_at 2 User [[], [], [], [1]] v2 (at_ms 40) s10" using tick by fastforce
  then obtain s11 where "run_at 2 User [[], [], [], [1]] v2 (at_ms 45) s11" using tick by fastforce
  from run_wait [OF this] f2 obtain s12 where "run_at 2 Dev_wait_window [[], [], [], [2, 1]] (v_enqueue v2) (at_ms 45) s12"
    by auto
  moreover have "v_cur (v_enqueue v2) = 2" "v_ready (v_enqueue v2) = {63}" "v_waiting (v_enqueue v2) = {1, 2}"
    "v_point (v_enqueue v2) 1 = In_dev_wait" "v_point (v_enqueue v2) 63 = At_idle"
    using f2 by (auto simp: v_enqueue_def)
  ultimately show ?thesis by blast
qed

lemma run_fourth_fires:
  assumes a: "run_at n m [[], [], [], l] v (at_ms 45) s"
  shows "\<exists>m' s' nm. run_at n m' [[], [], [], []] (v_tick False (set l) v) (50, nm) s'"
proof -
  have "tasks_due 50 (nth dev_freq) [[], [], [], l] = set l"
  proof -
    have "{d. d < 4 \<and> dev_freq ! d \<le> 50} = {3}" by (auto simp: dev_freq_def dest!: dev_cases)
    then show ?thesis by (simp add: tasks_due_def)
  qed
  moreover have "queues_left 50 (nth dev_freq) [[], [], [], l] = [[], [], [], []]"
    by (simp add: queues_left_def dev_freq_def upt_rec)
  ultimately show ?thesis using at_tick [OF a [unfolded at_ms_def] tick_regs_safe, of 50] by auto
qed

text \<open>A task that neither runs, nor is ready, nor waits.\<close>

definition lost :: "nat \<Rightarrow> kstate \<Rightarrow> bool" where
  "lost t s \<longleftrightarrow> cur_tcb s \<noteq> Some t \<and> rq_abs (run_q s) t = None
     \<and> (\<exists>ls. dev_queues s ls \<and> t \<notin> set (concat ls))"

lemma dev_queues_unique:
  assumes "dev_queues s ls" "dev_queues s ls'" shows "ls = ls'"
proof (rule nth_equalityI)
  show "length ls = length ls'" using assms by (simp add: dev_queues_def)
  fix d assume "d < length ls"
  then have "d < 4" using assms by (simp add: dev_queues_def)
  then have "sleep_list (system_tcb s) (dev_sleep_queue (devices s ! d)) (ls ! d)"
    "sleep_list (system_tcb s) (dev_sleep_queue (devices s ! d)) (ls' ! d)"
    using assms by (simp_all add: dev_queues_def)
  then show "ls ! d = ls' ! d" by (rule sleep_list_unique)
qed

lemma kinv_queues: "kinv n ls s m \<Longrightarrow> dev_queues s ls"
  by (simp add: kinv_def)

lemma lost_view:
  assumes "kinv n ls s m" shows "lost t s \<longleftrightarrow> t \<noteq> v_cur (view s m ls) \<and> t \<notin> v_ready (view s m ls) \<and> t \<notin> v_waiting (view s m ls)"
proof -
  obtain c where c: "cur_tcb s = Some c" using kinv_cur [OF assms] by blast
  have q: "dev_queues s ls" using assms by (simp add: kinv_def)
  have "(\<exists>ls. dev_queues s ls \<and> t \<notin> set (concat ls)) \<longleftrightarrow> t \<notin> set (concat ls)"
    using dev_queues_unique [OF q] q by blast
  then show ?thesis unfolding lost_def using c by auto
qed

lemma v_sleep_sel: "v_cur (v_sleep t v) = t" "v_ready (v_sleep t v) = v_ready v - {t}" "v_waiting (v_sleep t v) = v_waiting v"
  "v_point (v_sleep t v) = (v_point v)(v_cur v := In_dev_wait)"
  "v_window (v_sleep t v) \<longleftrightarrow> ((v_point v)(v_cur v := In_dev_wait)) t = In_irq_over_dev_wait"
  by (simp_all add: v_sleep_def v_switch_def)

lemma demo_second_lost: "\<exists>s. reachable has_memory 2 (s, User) \<and> lost 2 s"
proof -
  obtain v s where v: "run_at 2 Dev_wait_window [[], [], [], [2, 1]] v (at_ms 45) s"
    "v_cur v = 2" "v_ready v = {63}" "v_waiting v = {1, 2}" "v_point v 1 = In_dev_wait" "v_point v 63 = At_idle"
    using demo_second_waits by blast
  define v1 where "v1 = v_tick False (set [2, 1]) v"
  have "v_window v" using at_mode [OF v(1)] by simp
  have "v1 = v_preempt 1 (v_fire {2, 1} v)"
    using v by (simp add: v1_def v_tick_def Let_def v_fire_def)
  then have v1: "v_cur v1 = 1" "v_ready v1 = {2, 63}" "v_waiting v1 = {}" "\<not> v_window v1"
    "v_point v1 2 = In_irq_over_dev_wait" "v_point v1 63 = At_idle"
    using v \<open>v_window v\<close> by (auto simp: v_preempt_def v_switch_def v_fire_def)
  obtain m1 s1 nm where "run_at 2 m1 [[], [], [], []] v1 (50, nm) s1"
    using run_fourth_fires [OF v(1)] v1_def by blast
  from at_user [OF this v1(4)] have "run_at 2 User [[], [], [], []] v1 (50, nm) s1" .
  then obtain s2 where r2: "run_at 2 Dev_wait_window [[], [], [], [1]] (v_enqueue v1) (50, nm) s2"
    using run_wait [OF \<open>run_at 2 User [[], [], [], []] v1 (50, nm) s1\<close>] v1 by auto
  define v2 where "v2 = v_enqueue v1"
  have v2: "v_cur v2 = 1" "v_ready v2 = {2, 63}" "v_waiting v2 = {1}" "v_point v2 2 = In_irq_over_dev_wait"
    "v_point v2 63 = At_idle"
    using v1 by (auto simp: v2_def v_enqueue_def)
  define v3 where "v3 = v_sleep 2 v2"
  have v3: "v_cur v3 = 2" "v_ready v3 = {63}" "v_waiting v3 = {1}" "v_window v3" "v_point v3 63 = At_idle"
    using v2 by (auto simp: v3_def v_sleep_sel)
  obtain m3 s3 where "run_at 2 m3 [[], [], [], [1]] v3 (50, nm) s3"
    using run_sleep [OF r2 [folded v2_def]] v2(2) by (auto simp: v3_def)
  from run_sleep [OF at_dev [OF this v3(4)]] v3(2) obtain m4 s4 where
    r4: "run_at 2 m4 [[], [], [], [1]] (v_sleep 63 v3) (50, nm) s4" by auto
  have "\<not> v_window (v_sleep 63 v3)" using v3 by (simp add: v_sleep_sel)
  then have r5: "run_at 2 User [[], [], [], [1]] (v_sleep 63 v3) (50, nm) s4" by (rule at_user [OF r4])
  then have "lost 2 s4"
    using lost_view [of 2 "[[], [], [], [1]]" s4 User 2] v3 by (simp add: kernel_at_def v_sleep_sel)
  with r5 show ?thesis by (auto simp: kernel_at_def)
qed

section \<open>Safety\<close>


text \<open>
  C3: Mutual exclusion under the highest locker protocol: whoever holds a mutex is the
  running task, a task of the set, at the highest priority, and the mutex is locked; no
  task waits for a mutex.
\<close>

theorem only_running_task_holds_mutex:
  assumes "reachable malloc n (s, m)" and "i < 32"
  shows "pSleep_queue (gtMutex s ! i) = None
    \<and> (\<forall>t. pHolding_Tcb (gtMutex s ! i) = Some t \<longrightarrow> cur_tcb s = Some t \<and> t \<in> {1..n}
         \<and> cur_prio (system_tcb s ! t) = HIGHEST_PRIO \<and> bLock (gtMutex s ! i))"
proof (intro conjI allI impI)
  obtain ls where k: "kinv n ls s m" using reachable_kinv [OF assms(1)] by auto
  obtain c where c: "cur_tcb s = Some c" "c \<in> live n" "prio_inv n c (system_tcb s)"
    "mutex_inv c (gtMutex s) (holds_lock (system_tcb s ! c))" "c = 63 \<Longrightarrow> holds_lock (system_tcb s ! c) = 0"
    using kinv_cur [OF k] by metis
  show "pSleep_queue (gtMutex s ! i) = None" using c(4) assms(2) by (simp add: mutex_inv_def)
  fix t assume t: "pHolding_Tcb (gtMutex s ! i) = Some t"
  then have tc: "t = c" using c(4) assms(2) unfolding mutex_inv_def by fastforce
  then have "i \<in> held (gtMutex s) c" using t assms(2) by (simp add: held_def)
  then have h: "holds_lock (system_tcb s ! c) \<noteq> 0"
    using c(4) by (auto simp: mutex_inv_def card_gt_0_iff)
  show "cur_tcb s = Some t" using c(1) tc by simp
  show "cur_prio (system_tcb s ! t) = HIGHEST_PRIO" using c(3) h tc by (simp add: prio_inv_def)
  show "t \<in> {1..n}" using c(2,5) h tc by (auto simp: live_def)
  show "bLock (gtMutex s ! i)" using c(4) assms(2) t by (simp add: mutex_inv_def)
qed

text \<open>The first task of the demonstration takes mutex 0.\<close>

definition no_args :: ex_context where
  "no_args = \<lparr>ex_r0 = 0, ex_r1 = 0, ex_r2 = 0, ex_r3 = 0, ex_r4 = 0, ex_r5 = 0, ex_r6 = 0, ex_r7 = 0, ex_r8 = 0,
    ex_r9 = 0, ex_r10 = 0, ex_r11 = 0, ex_r12 = 0\<rparr>"

lemma demo_locks:
  "\<exists>s ls. reachable has_memory 2 (s, User) \<and> pHolding_Tcb (gtMutex s ! 0) = Some 1
     \<and> cur_tcb s = Some 1 \<and> kinv 2 ls s User \<and> irq_enabled s \<and> v_fresh 2 (view s User ls)"
proof -
  obtain v s where v: "v_fresh 2 v" "run_at 2 User (replicate 4 []) v (at_ms 0) s" "\<not> bad_mutex s 0"
    using demo_start by blast
  then have r: "reachable has_memory 2 (s, User)" and k: "kinv 2 (replicate 4 []) s User" and en: "irq_enabled s"
    and vv: "view s User (replicate 4 []) = v" and nh: "\<not> holding s"
    by (simp_all add: kernel_at_def)
  obtain c where "cur_tcb s = Some c" "mutex_inv c (gtMutex s) (holds_lock (system_tcb s ! c))"
    using kinv_cur [OF k] by metis
  moreover have "v_cur v = 1" using v(1) by (simp add: v_fresh_def)
  ultimately have c: "cur_tcb s = Some 1" and mx: "mutex_inv 1 (gtMutex s) 0"
    using nh vv by (auto simp: holding_def)
  have "pHolding_Tcb (gtMutex s ! 0) = None" by (rule mutex_inv_none [OF mx]) simp
  with lock_inv [OF k c _ en, of 0] v(3) obtain s' where
    s': "mutex_lock s 0 = Inr (Returned 0, s')" "kinv 2 (replicate 4 []) s' User" "irq_enabled s'"
    "view s' User (replicate 4 []) = v" "cur_tcb s' = Some 1" "pHolding_Tcb (gtMutex s' ! 0) = Some 1"
    using vv by auto
  have "swi_dispatch has_memory [] MUTEX_LOCK no_args s = Inr (Done no_args, s')"
    using s'(1) by (simp add: swi_dispatch_def Let_def swi_cases no_args_def reg_to_int_def swi_return_def int_to_reg_def)
  then have "kstep has_memory (s, User) (Swi MUTEX_LOCK no_args []) (Inr (s', User))"
    using kstep.swi [of s MUTEX_LOCK has_memory no_args "[]"] c by (simp add: IDLE_PRIO_def swi_cases after_swi_def)
  then have "reachable has_memory 2 (s', User)"
    by (rule reachable.step [OF r, rotated 2]) (simp_all add: polite_def calls_def creates_def swi_cases)
  then show ?thesis using s' v(1) by blast
qed


theorem only_running_task_holds_mutex_witness:
  "\<exists>s. reachable has_memory 2 (s, User) \<and> pHolding_Tcb (gtMutex s ! 0) = Some 1
     \<and> cur_tcb s = Some 1 \<and> cur_prio (system_tcb s ! 1) = 0"
proof -
  obtain s where s: "reachable has_memory 2 (s, User)" "pHolding_Tcb (gtMutex s ! 0) = Some 1"
    using demo_locks by blast
  from only_running_task_holds_mutex [OF s(1), of 0] s show ?thesis by (auto simp: HIGHEST_PRIO_def)
qed

text \<open>
  C21: A lock is never contended: for every task that runs, mutex_lock returns at once, with
  the error codes for a mutex that does not exist and for one it holds already, else with
  the mutex taken. The wait of mutex_lock is dead code under this scheduler.
\<close>

theorem mutex_lock_never_blocks:
  assumes "reachable malloc n (s, User)" and "cur_tcb s = Some c" and "c \<noteq> 63"
  shows "\<exists>s'. mutex_lock s i = Inr (Returned (if bad_mutex s i then - EINVAL
       else if pHolding_Tcb (gtMutex s ! nat i) = Some c then - EDEADLOCK else 0), s')
     \<and> (bad_mutex s i \<or> pHolding_Tcb (gtMutex s' ! nat i) = Some c) \<and> cur_tcb s' = Some c"
proof -
  obtain ls where k: "kinv n ls s User" "irq_enabled s" using reachable_kinv [OF assms(1)] by auto
  from lock_inv [OF k(1) assms(2,3) k(2), of i] show ?thesis
  proof (elim exE conjE)
    fix r s'
    assume *: "mutex_lock s i = Inr (Returned r, s')" "cur_tcb s' = Some c"
      "r = (if bad_mutex s i then - EINVAL else if pHolding_Tcb (gtMutex s ! nat i) = Some c then - EDEADLOCK else 0)"
      "r = 0 \<longrightarrow> pHolding_Tcb (gtMutex s' ! nat i) = Some c"
    have "pHolding_Tcb (gtMutex s' ! nat i) = Some c" if "\<not> bad_mutex s i" "pHolding_Tcb (gtMutex s ! nat i) = Some c"
      using *(1) that assms(2) by (auto simp: mutex_lock_def Let_def get_cur_tcb_def)
    with * show ?thesis by (intro exI [of _ s']) (auto split: if_splits)
  qed
qed

theorem mutex_lock_never_blocks_witness:
  "\<exists>s s'. reachable has_memory 2 (s, User) \<and> mutex_lock s 32 = Inr (Returned (- EINVAL), s')"
proof -
  obtain s where s: "reachable has_memory 2 (s, User)" "cur_tcb s = Some 1"
    using demo_locks by blast
  from mutex_lock_never_blocks [OF s, of 32] s(1) show ?thesis by (auto simp: bad_mutex_def OS_NUM_MUTEX_def)
qed

section \<open>Refinement of the scheduler\<close>



section \<open>Losing a task\<close>

text \<open>Runs in which no interrupt comes between queueing and sleeping.\<close>

inductive calm :: "(u32 \<Rightarrow> u32) \<Rightarrow> nat \<Rightarrow> kstate \<times> mode \<Rightarrow> bool" for malloc where
  first: "booted s \<Longrightarrow> malloc (4 * num) \<noteq> 0 \<Longrightarrow> task_create malloc s tasks num = Inr (Switched, s')
     \<Longrightarrow> calm malloc (unat num) (resume s')"
| step: "calm malloc n (s, m) \<Longrightarrow> polite malloc s e \<Longrightarrow> \<not> creates e
     \<Longrightarrow> (m = Dev_wait_window \<Longrightarrow> e = Sleep_now) \<Longrightarrow> kstep malloc (s, m) e (Inr sm') \<Longrightarrow> calm malloc n sm'"
| again: "calm malloc n (s, User) \<Longrightarrow> polite malloc s (Swi CREATE_SWI c rs)
     \<Longrightarrow> task_create malloc s (ex_r0 c) (ex_r1 c) = Inr (Switched, s') \<Longrightarrow> calm malloc (unat (ex_r1 c)) (resume s')"

lemma calm_step_partition:
  assumes "kinv n ls s m" "irq_enabled s" "v_partition n (view s m ls)"
    "polite malloc s e" "\<not> creates e" "m = Dev_wait_window \<Longrightarrow> e = Sleep_now" "kstep malloc (s, m) e (Inr (s', m'))"
  shows "\<exists>ls'. kinv n ls' s' m' \<and> irq_enabled s' \<and> v_partition n (view s' m' ls')"
proof (cases "e = Sleep_now")
  case True
  then have m: "m = Dev_wait_window" and *: "res_map resume (dev_wait_sleep s) = Inr (s', m')"
    using assms(7) by (auto elim!: kstep_sleepE)
  from sleep_inv [OF assms(1) [unfolded m]] * have "kinv n ls s' m'" "irq_enabled s'"
    "vstep False (view s m ls) (view s' m' ls)" unfolding m by auto
  moreover from this have "v_partition n (view s' m' ls)"
    using v_partition_step assms(1,3) by (auto simp: kinv_def)
  ultimately show ?thesis by blast
next
  case False
  then have m: "m = User" using assms(6) by (cases m) auto
  obtain n' ls' where *: "kinv n' ls' s' m'" "irq_enabled s'" "schedule_step n (view s m ls) n' (view s' m' ls') (creates e)"
    using kstep_inv [OF assms(7,4,1,2)] by auto
  then have v: "vsteps False (view s m ls) (view s' m' ls')" "n' = n"
    using assms(5) m by (auto simp: schedule_step_def)
  then have "v_partition n (view s' m' ls')"
    using v_partition_steps [OF v(1)] assms(1,3) by (auto simp: kinv_def)
  with * v(2) show ?thesis by blast
qed

lemma calm_partition:
  "calm malloc n sm \<Longrightarrow> \<exists>ls. kinv n ls (fst sm) (snd sm) \<and> irq_enabled (fst sm) \<and> v_partition n (view (fst sm) (snd sm) ls)"
proof (induction rule: calm.induct)
  case (first s num tasks s')
  have "creatable s" using booted_inv [OF first(1)] by (simp add: boot_inv_def)
  from task_create_inv [where malloc = malloc and tasks = tasks, OF this first(2)] first(3)
  obtain s2 where s2: "resume s' = (s2, User)" "kinv (unat num) (replicate 4 []) s2 User" "irq_enabled s2"
    "v_fresh (unat num) (view s2 User (replicate 4 []))" by auto
  have "v_partition (unat num) (view s2 User (replicate 4 []))"
    using v_fresh_inv [OF s2(4)] s2(2) by (simp add: kinv_def vinv_def)
  with s2 show ?case by auto
next
  case (step n s m e sm')
  obtain s' m' where "sm' = (s', m')" by (cases sm')
  with step calm_step_partition [of n _ s m malloc e s' m'] show ?case by fastforce
next
  case (again n s c rs s')
  obtain ls where k: "kinv n ls s User" "irq_enabled s" using again.IH by auto
  obtain t where t: "cur_tcb s = Some t" using kinv_cur [OF k(1)] by blast
  have mal: "malloc (4 * ex_r1 c) \<noteq> 0" and "holds_lock (system_tcb s ! t) = 0"
    using again(2) t by (auto simp: polite_def)
  from task_create_cases [OF k(1) t this(2), of malloc "ex_r1 c" "ex_r0 c"] mal again(3)
  obtain s2 where s2: "resume s' = (s2, User)" "kinv (unat (ex_r1 c)) (replicate 4 []) s2 User" "irq_enabled s2"
    "v_fresh (unat (ex_r1 c)) (view s2 User (replicate 4 []))" by auto
  have "v_partition (unat (ex_r1 c)) (view s2 User (replicate 4 []))"
    using v_fresh_inv [OF s2(4)] s2(2) by (simp add: kinv_def vinv_def)
  with s2 show ?case by auto
qed

text \<open>
  C4: If no interrupt comes in while a task is between queueing for a device and sleeping,
  no task is ever lost: each one runs, is ready, or is on exactly one device queue, and only
  one of these (in the window the running task is on its queue already).
\<close>

theorem no_task_lost:
  assumes "calm malloc n (s, m)"
  shows "\<exists>ls. dev_queues s ls \<and> live n = insert (the (cur_tcb s)) (dom (rq_abs (run_q s))) \<union> set (concat ls)
    \<and> the (cur_tcb s) \<notin> dom (rq_abs (run_q s)) \<and> dom (rq_abs (run_q s)) \<inter> set (concat ls) = {}
    \<and> (the (cur_tcb s) \<in> set (concat ls) \<longleftrightarrow> m = Dev_wait_window)"
proof -
  obtain ls where "kinv n ls s m" "v_partition n (view s m ls)"
    using calm_partition [OF assms] by auto
  then show ?thesis by (intro exI [of _ ls]) (auto simp: v_partition_def kinv_def)
qed

text \<open>
  C19: With an interrupt in that window a task can be lost. Two tasks wait for the same
  device; it fires while the second one, already queued, is about to sleep. Both are made
  ready and the first one preempts; when the second one runs again it goes to sleep, on no
  queue.
\<close>

theorem dev_wait_loses_task: "\<exists>s. reachable has_memory 2 (s, User) \<and> lost 2 s"
  by (rule demo_second_lost)

lemma lost_step: "vstep r v v' \<Longrightarrow> t \<noteq> v_cur v \<and> t \<notin> v_ready v \<and> t \<notin> v_waiting v
    \<Longrightarrow> t \<noteq> v_cur v' \<and> t \<notin> v_ready v' \<and> t \<notin> v_waiting v'"
  by (erule vstep_E) (auto simp: v_enqueue_def v_fire_def v_preempt_def v_switch_def v_sleep_def)

lemma lost_steps: "vsteps r v v' \<Longrightarrow> t \<noteq> v_cur v \<and> t \<notin> v_ready v \<and> t \<notin> v_waiting v
    \<Longrightarrow> t \<noteq> v_cur v' \<and> t \<notin> v_ready v' \<and> t \<notin> v_waiting v'"
  by (induction rule: vsteps.induct) (simp, blast dest: lost_step)

text \<open>
  C20: A lost task never runs again, whatever the other tasks and the devices do, until a new
  task set is created.
\<close>

theorem lost_task_stays_lost:
  assumes "reachable malloc n (s, m)" and "lost t s" and "polite malloc s e" and "\<not> creates e"
    and "kstep malloc (s, m) e (Inr (s', m'))"
  shows "lost t s'"
proof -
  obtain ls where k: "kinv n ls s m" "irq_enabled s" using reachable_kinv [OF assms(1)] by auto
  from kstep_inv [OF assms(5,3) k] obtain n' ls' where *: "kinv n' ls' s' m'"
    "schedule_step n (view s m ls) n' (view s' m' ls') (creates e)" by auto
  then obtain f where "vsteps f (view s m ls) (view s' m' ls')"
    using assms(4) by (auto simp: schedule_step_def)
  from lost_steps [OF this] show ?thesis
    using assms(2) unfolding lost_view [OF k(1)] lost_view [OF *(1)] .
qed

theorem no_task_lost_witness:
  "\<exists>s ls. calm has_memory 2 (s, User) \<and> dev_queues s ls
    \<and> live 2 = insert (the (cur_tcb s)) (dom (rq_abs (run_q s))) \<union> set (concat ls)"
proof -
  obtain s s2 where s: "booted s" "task_create has_memory s 0xa0000000 2 = Inr (Switched, s2)"
    "snd (resume s2) = User"
    using demo_created by fastforce
  have "calm has_memory (unat (2 :: u32)) (resume s2)"
    by (rule calm.first [OF s(1) _ s(2)]) simp
  then have c: "calm has_memory 2 (fst (resume s2), User)" using s(3) by (cases "resume s2") simp
  from no_task_lost [OF c] c show ?thesis by blast
qed

theorem lost_task_stays_lost_witness:
  "\<exists>s s'. reachable has_memory 2 (s, User) \<and> lost 2 s
     \<and> kstep has_memory (s, User) (User_code (\<lambda>_. 7) []) (Inr (s', User)) \<and> lost 2 s'"
proof -
  obtain s where s: "reachable has_memory 2 (s, User)" "lost 2 s" using demo_second_lost by blast
  note step = kstep.user [of has_memory s "\<lambda>_. 7" "[]"]
  have "lost 2 (s\<lparr>mem := (\<lambda>_. 7), uart_in := []\<rparr>)"
    by (rule lost_task_stays_lost [OF s _ _ step]) (simp_all add: polite_def creates_def)
  with s step show ?thesis by blast
qed

section \<open>Ticks, sleeps and unlocks\<close>

text \<open>
  C6: A timer tick, exactly: the time moves by five milliseconds; the devices whose time has
  come lose their queues and are due one period later; their tasks become ready; and if there
  are any, and the running task holds no mutex, the highest of the ready tasks takes over
  when it is higher than the running one.
\<close>

theorem timer_tick_exact:
  assumes "reachable malloc n (s, m)" and "dev_queues s ls" and "tick_pending p"
    and "unat (p (PERIPHERAL_BASE + OSTMR_OSCR_ADDR)) < 2 ^ 32 - 18432" and "now = sys_time s + 5"
  shows "\<exists>s' m'. kstep malloc (s, m) (Timer_irq p) (Inr (s', m')) \<and> sys_time s' = now
    \<and> dev_queues s' (after_update s now ls [0..<4])
    \<and> view s' m' (after_update s now ls [0..<4])
        = v_tick (holding s) (set (due_tasks s now ls [0..<4])) (view s m ls)
    \<and> list_all (\<lambda>d. devices s' ! d = (if next_match (devices s ! d) \<le> now
          then fired (devices s ! d) d else devices s ! d)) [0..<4]"
proof -
  obtain ls0 where k: "kinv n ls0 s m" "irq_enabled s" using reachable_kinv [OF assms(1)] by auto
  then have "ls0 = ls" using dev_queues_unique [OF kinv_queues assms(2)] by blast
  with irq_tick [OF k(1) assms(3,4,5)] obtain o' s' m' where
    s': "C_IRQ_handler (s\<lparr>periph := p\<rparr>) (irq_point m) = Inr o'" "after_irq m o' = (s', m')" "sys_time s' = now"
    "kinv n (after_update s now ls [0..<4]) s' m'"
    "view s' m' (after_update s now ls [0..<4]) = v_tick (holding s) (set (due_tasks s now ls [0..<4])) (view s m ls)"
    "\<forall>d<4. devices s' ! d = (if due s now d then fired (devices s ! d) d else devices s ! d)"
    by blast
  have "kstep malloc (s, m) (Timer_irq p) (Inr (s', m'))"
    using kstep.irq [OF k(2), of malloc m p] s'(1,2) by simp
  with s' kinv_queues [OF s'(4)] show ?thesis
    by (intro exI [of _ s'] exI [of _ m']) (simp add: list_all_iff due_def)
qed

theorem timer_tick_exact_witness:
  "\<exists>s s' m'. reachable has_memory 2 (s, Dev_wait_window) \<and> cur_tcb s = Some 2
     \<and> kstep has_memory (s, Dev_wait_window) (Timer_irq tick_regs) (Inr (s', m')) \<and> sys_time s' = 50"
proof -
  obtain v s where v: "run_at 2 Dev_wait_window [[], [], [], [2, 1]] v (at_ms 45) s" "v_cur v = 2"
    using demo_second_waits by blast
  then have r: "reachable has_memory 2 (s, Dev_wait_window)" and k: "kinv 2 [[], [], [], [2, 1]] s Dev_wait_window"
    and t: "50 = sys_time s + 5" and vv: "view s Dev_wait_window [[], [], [], [2, 1]] = v"
    by (simp_all add: kernel_at_def at_ms_def)
  have p: "tick_pending tick_regs" "unat (tick_regs (PERIPHERAL_BASE + OSTMR_OSCR_ADDR)) < 2 ^ 32 - 18432"
    using tick_regs_safe by (simp_all add: safe_tick_def)
  obtain c where c: "cur_tcb s = Some c" using kinv_cur [OF k] by blast
  with v(2) vv have "c = 2" by auto
  with timer_tick_exact [OF r kinv_queues [OF k] p t] r c show ?thesis by blast
qed

text \<open>
  C26: A task that goes to sleep hands the processor to the highest of the ready tasks, that
  is, the idle task only if nothing else is ready.
\<close>

theorem sleep_runs_highest:
  assumes "reachable malloc n (s, Dev_wait_window)" and "kstep malloc (s, Dev_wait_window) Sleep_now (Inr (s', m'))"
  shows "cur_tcb s' = Some (Min (dom (rq_abs (run_q s)))) \<and> dom (rq_abs (run_q s')) = dom (rq_abs (run_q s)) - {the (cur_tcb s')}"
proof -
  obtain ls where k: "kinv n ls s Dev_wait_window" using reachable_kinv [OF assms(1)] by auto
  let ?v = "view s Dev_wait_window ls"
  have vi: "vinv n ?v" using k by (simp add: kinv_def)
  have *: "kinv n ls s' m'" "vstep False ?v (view s' m' ls)"
    using sleep_inv [OF k] assms(2) by (auto elim!: kstep_sleepE)
  obtain c where c: "cur_tcb s' = Some c" using kinv_cur [OF *(1)] by blast
  from *(2) show ?thesis
  proof (cases rule: vstep.cases)
    case (sleep t)
    then have t: "Min (v_ready ?v) = t" using vinv_finite [OF vi] by (intro Min_eqI) auto
    have "v_cur (view s' m' ls) = t" "v_ready (view s' m' ls) = v_ready ?v - {t}"
      using sleep(1) by (simp_all add: v_sleep_sel)
    then show ?thesis using c t by simp
  qed simp_all
qed

theorem sleep_runs_highest_witness:
  "\<exists>s s' m'. kstep has_memory (s, Dev_wait_window) Sleep_now (Inr (s', m')) \<and> cur_tcb s = Some 2 \<and> cur_tcb s' = Some 63"
proof -
  obtain v s where v: "run_at 2 Dev_wait_window [[], [], [], [2, 1]] v (at_ms 45) s" "v_cur v = 2" "v_ready v = {63}"
    using demo_second_waits by blast
  then have r: "reachable has_memory 2 (s, Dev_wait_window)" and k: "kinv 2 [[], [], [], [2, 1]] s Dev_wait_window"
    and vv: "view s Dev_wait_window [[], [], [], [2, 1]] = v"
    by (simp_all add: kernel_at_def)
  obtain c where c: "cur_tcb s = Some c" using kinv_cur [OF k] by blast
  obtain s1 s' m' where "dev_wait_sleep s = Inr s1" "resume s1 = (s', m')" using sleep_inv [OF k] by blast
  then have step: "kstep has_memory (s, Dev_wait_window) Sleep_now (Inr (s', m'))"
    using kstep.sleep [of has_memory s] by simp
  have "dom (rq_abs (run_q s)) = v_ready v" "v_cur v = c" unfolding vv [symmetric] using c by simp_all
  then have "dom (rq_abs (run_q s)) = {63}" "c = 2" using v(2,3) by simp_all
  with sleep_runs_highest [OF r step] step c show ?thesis by auto
qed

text \<open>
  mutex_unlock gives the mutex back and returns to its caller: a task of higher priority
  that became ready in the critical section does not take over at its end.
\<close>

theorem mutex_unlock_returns_to_caller:
  assumes "reachable malloc n (s, User)" and "cur_tcb s = Some c" and "c \<noteq> 63"
  shows "\<exists>s'. mutex_unlock s i = Inr (if bad_mutex s i then - EINVAL
       else if pHolding_Tcb (gtMutex s ! nat i) \<noteq> Some c then - EPERM else 0, s')
     \<and> cur_tcb s' = Some c \<and> dom (rq_abs (run_q s')) = dom (rq_abs (run_q s))"
proof -
  obtain ls where k: "kinv n ls s User" "irq_enabled s" using reachable_kinv [OF assms(1)] by auto
  from unlock_inv [OF k(1) assms(2,3) k(2), of i] show ?thesis
  proof (elim exE conjE)
    fix r s' assume "view s' User ls = view s User ls"
    then have "v_ready (view s' User ls) = v_ready (view s User ls)" by simp
    moreover assume "mutex_unlock s i = Inr (r, s')" "cur_tcb s' = Some c"
      "r = (if bad_mutex s i then - EINVAL else if pHolding_Tcb (gtMutex s ! nat i) \<noteq> Some c then - EPERM else 0)"
    ultimately show ?thesis by (intro exI [of _ s']) simp
  qed
qed

theorem mutex_unlock_returns_to_caller_witness:
  "\<exists>s s'. reachable has_memory 2 (s, User) \<and> pHolding_Tcb (gtMutex s ! 0) = Some 1
     \<and> mutex_unlock s 40 = Inr (- EINVAL, s') \<and> cur_tcb s' = Some 1"
proof -
  obtain s where s: "reachable has_memory 2 (s, User)" "cur_tcb s = Some 1" "pHolding_Tcb (gtMutex s ! 0) = Some 1"
    using demo_locks by blast
  from mutex_unlock_returns_to_caller [OF s(1,2), of 40] s show ?thesis
    by (auto simp: bad_mutex_def OS_NUM_MUTEX_def)
qed

end
