(* ===== verification/Kernel_Types.thy ===== *)
theory Kernel_Types
  imports Kernel_Props
begin

text \<open>
  The types of the kernel's data, which C does not check: which pointers and indices are
  in range, and which lists end, in every state a run reaches.
\<close>

definition ptr_ok :: "kstate \<Rightarrow> tcb_ptr \<Rightarrow> bool" where
  "ptr_ok s p = (case p of None \<Rightarrow> True | Some t \<Rightarrow> t < length (system_tcb s))"

text \<open>
  The arrays have the sizes of their C declarations, the running task exists, every priority
  indexes the run list, every task the trie calls ready is where its priority says, and the
  heads of all queues and the holders of all mutexes are null or tasks.
\<close>

definition data_typed :: "kstate \<Rightarrow> bool" where
  "data_typed s \<longleftrightarrow> length (system_tcb s) = OS_MAX_TASKS \<and> length (gtMutex s) = OS_NUM_MUTEX
     \<and> length (devices s) = NUM_DEVICES
     \<and> length (run_list (run_q s)) = OS_MAX_TASKS \<and> length (run_bits (run_q s)) = 8
     \<and> cur_tcb s \<noteq> None \<and> ptr_ok s (cur_tcb s)
     \<and> list_all (\<lambda>t. unat (cur_prio t) < OS_MAX_TASKS) (system_tcb s)
     \<and> list_all (\<lambda>p. prio_bit (run_q s) p \<longrightarrow> run_list (run_q s) ! p = Some p) [0..<64]
     \<and> list_all (\<lambda>m. ptr_ok s (pHolding_Tcb m) \<and> ptr_ok s (pSleep_queue m)) (gtMutex s)
     \<and> list_all (\<lambda>d. ptr_ok s (dev_sleep_queue d)) (devices s)"

text \<open>The sleep queue of a device is a chain of distinct tasks that ends in a null pointer.\<close>

definition chains_end :: "kstate \<Rightarrow> bool" where
  "chains_end s \<longleftrightarrow> (\<exists>ls. length ls = length (devices s) \<and> distinct (concat ls)
     \<and> (\<forall>d<length (devices s). sleep_list (system_tcb s) (dev_sleep_queue (devices s ! d)) (ls ! d)))"

lemma sleep_list_head: "sleep_list (system_tcb s) p xs \<Longrightarrow> ptr_ok s p"
  by (cases xs) (auto simp: ptr_ok_def)

lemma mutex_inv_ptrs:
  assumes "mutex_inv c (gtMutex s) k" "c < length (system_tcb s)" "m \<in> set (gtMutex s)"
  shows "ptr_ok s (pHolding_Tcb m) \<and> ptr_ok s (pSleep_queue m)"
proof -
  obtain i where i: "i < 32" "m = gtMutex s ! i"
    using assms(1,3) by (auto simp: in_set_conv_nth mutex_inv_def)
  then have "pSleep_queue m = None" "pHolding_Tcb m = None \<or> pHolding_Tcb m = Some c"
    using assms(1) by (auto simp: mutex_inv_def)
  then show ?thesis using assms(2) by (auto simp: ptr_ok_def)
qed

lemma rq_own_ready:
  assumes "rq_wf q" "rq_own q" "prio_bit q p" shows "run_list q ! p = Some p"
proof -
  obtain t where "run_list q ! p = Some t" using assms(1,3) by (auto simp: rq_wf_def)
  moreover from this have "t = p" using assms(2,3) by (simp add: rq_own_def rq_abs_def)
  ultimately show ?thesis by simp
qed

lemma kinv_typed:
  assumes k: "kinv n ls s m" shows "data_typed s" "chains_end s"
proof -
  obtain c where c: "cur_tcb s = Some c" "c < length (system_tcb s)"
    "mutex_inv c (gtMutex s) (holds_lock (system_tcb s ! c))" using kinv_cur [OF k] by metis
  have s: "length (system_tcb s) = 64" "rq_wf (run_q s)" "rq_own (run_q s)" "prios_ok s" "dev_queues s ls"
    using k by (auto simp: kinv_def)
  have d: "length (devices s) = 4" "length ls = 4" "distinct (concat ls)"
    "\<And>d. d < 4 \<Longrightarrow> sleep_list (system_tcb s) (dev_sleep_queue (devices s ! d)) (ls ! d)"
    using s(5) by (auto simp: dev_queues_def)
  show "chains_end s" using d by (auto simp: chains_end_def)
  have "length (gtMutex s) = 32" using c(3) by (simp add: mutex_inv_def)
  moreover have "list_all (\<lambda>t. unat (cur_prio t) < 64) (system_tcb s)"
    using s(1,4) by (auto simp: prios_ok_def list_all_length)
  moreover have "list_all (\<lambda>p. prio_bit (run_q s) p \<longrightarrow> run_list (run_q s) ! p = Some p) [0..<64]"
    using rq_own_ready [OF s(2,3)] by (auto simp: list_all_iff)
  moreover have "list_all (\<lambda>m. ptr_ok s (pHolding_Tcb m) \<and> ptr_ok s (pSleep_queue m)) (gtMutex s)"
    using mutex_inv_ptrs [OF c(3,2)] by (simp add: list_all_iff)
  moreover have "list_all (\<lambda>d. ptr_ok s (dev_sleep_queue d)) (devices s)"
    using sleep_list_head [OF d(4)] d(1) by (simp add: list_all_length)
  moreover have "length (run_list (run_q s)) = 64" "length (run_bits (run_q s)) = 8"
    using s(2) by (auto simp: rq_wf_def)
  ultimately show "data_typed s"
    using c s(1) d(1) unfolding data_typed_def
    by (simp add: ptr_ok_def OS_MAX_TASKS_def OS_NUM_MUTEX_def NUM_DEVICES_def)
qed

text \<open>C5: The kernel's data is well typed in every state a run reaches, whatever the tasks and
  the interrupts do: the arrays keep their sizes, cur_tcb points to a task, every priority is
  an index of the run list, every ready bit leads to the task of that priority, mutex holders
  and the heads of sleep queues are null or tasks, and the chains of sleeping tasks end in a
  null pointer and never share a task.\<close>
theorem kernel_data_typed:
  assumes "reachable malloc n (s, m)"
  shows "data_typed s \<and> chains_end s"
proof -
  obtain ls where "kinv n ls s m" using reachable_kinv [OF assms] by auto
  then show ?thesis using kinv_typed by blast
qed

text \<open>Two tasks after their creation.\<close>

theorem kernel_data_typed_witness:
  "\<exists>s. reachable has_memory 2 (s, User) \<and> data_typed s \<and> chains_end s"
proof -
  obtain s where "reachable has_memory 2 (s, User)" using demo_start by (auto simp: kernel_at_def)
  with kernel_data_typed [OF this] show ?thesis by blast
qed

end
