(* ===== verification/Kernel_Liveness.thy ===== *)
theory Kernel_Liveness
  imports Kernel_Props
begin

text \<open>
  How long a task waits for a device: over any run of the kernel it stays on the queue until
  the tick at which the clock reaches the match time of the device, and this tick makes it
  ready.
\<close>

definition pending_tick :: "event \<Rightarrow> bool" where
  "pending_tick e = (case e of Timer_irq p \<Rightarrow> tick_pending p | _ \<Rightarrow> False)"

text \<open>The runs with k ticks of the timer, whatever else the tasks do in between.\<close>

inductive run_ticks :: "(u32 \<Rightarrow> u32) \<Rightarrow> nat \<Rightarrow> kstate \<times> mode \<Rightarrow> kstate \<times> mode \<Rightarrow> bool" for malloc where
  start: "run_ticks malloc 0 sm sm"
| tick: "run_ticks malloc k sm sm1 \<Longrightarrow> polite malloc (fst sm1) e \<Longrightarrow> pending_tick e
     \<Longrightarrow> kstep malloc sm1 e (Inr sm2) \<Longrightarrow> run_ticks malloc (Suc k) sm sm2"
| other: "run_ticks malloc k sm sm1 \<Longrightarrow> polite malloc (fst sm1) e \<Longrightarrow> \<not> pending_tick e \<Longrightarrow> \<not> creates e
     \<Longrightarrow> kstep malloc sm1 e (Inr sm2) \<Longrightarrow> run_ticks malloc k sm sm2"

text \<open>Between two ticks the clock stands still, no device fires and the queues only grow.\<close>

definition queues_grow :: "kstate \<Rightarrow> nat list list \<Rightarrow> kstate \<Rightarrow> nat list list \<Rightarrow> bool" where
  "queues_grow s ls s' ls' \<longleftrightarrow> sys_time s' = sys_time s
     \<and> (\<forall>d<4. set (ls ! d) \<subseteq> set (ls' ! d) \<and> next_match (devices s' ! d) = next_match (devices s ! d))"

lemma queues_grow_same: "devices s' = devices s \<Longrightarrow> sys_time s' = sys_time s \<Longrightarrow> queues_grow s ls s' ls"
  by (simp add: queues_grow_def)

lemma other_step:
  assumes step: "kstep malloc (s, m) e (Inr (s', m'))" and pol: "polite malloc s e" "\<not> pending_tick e" "\<not> creates e"
    and k: "kinv n ls s m" "irq_enabled s"
  shows "\<exists>ls'. kinv n ls' s' m' \<and> irq_enabled s' \<and> queues_grow s ls s' ls'"
  using step
proof (cases rule: kstep.cases)
  case (swi swi x readings)
  obtain c where c: "cur_tcb s = Some c" "c \<noteq> 63" using kinv_cur [OF k(1)] swi(4) by (auto simp: IDLE_PRIO_def)
  have "kinv n ls s User" "swi \<in> calls" "swi \<noteq> CREATE_SWI" using k pol swi by (auto simp: polite_def creates_def)
  from swi_quiet [OF this(1) c k(2) this(2) swi(5) this(3), of malloc readings x]
  show ?thesis using swi(1-3) queues_grow_same [of s' s ls] by auto
next
  case (wait x readings)
  obtain c where c: "cur_tcb s = Some c" "c \<noteq> 63" using kinv_cur [OF k(1)] wait(4) by (auto simp: IDLE_PRIO_def)
  have "kinv n ls s User" using k wait by simp
  from wait_inv [OF this c k(2), of "ex_r0 x"] show ?thesis
  proof (elim disjE exE conjE)
    fix v assume "event_wait_enter s (ex_r0 x) = Inr (Some v, s)"
    then show ?thesis using wait k queues_grow_same [of s s ls] by auto
  next
    fix s1 ls' assume *: "event_wait_enter s (ex_r0 x) = Inr (None, s1)" "kinv n ls' s1 Dev_wait_window"
      "irq_enabled s1" "ls' = ls[unat (ex_r0 x) := c # ls ! unat (ex_r0 x)]" "sys_time s1 = sys_time s"
      "\<forall>d. next_match (devices s1 ! d) = next_match (devices s ! d)"
    have "set (ls ! d) \<subseteq> set (ls' ! d)" for d
      unfolding *(4) by (cases "unat (ex_r0 x) = d"; cases "d < length ls") (auto simp: not_less list_update_beyond)
    then have "queues_grow s ls s1 ls'" using *(5,6) by (simp add: queues_grow_def)
    then show ?thesis using wait *(1-3) by auto
  qed
next
  case sleep
  then show ?thesis using sleep_inv [of n ls s] k queues_grow_same [of s' s ls] by auto
next
  case (irq p)
  let ?s = "s\<lparr>periph := p\<rparr>"
  have "C_IRQ_handler ?s (irq_point m) = Inr (Returned (), ?s)"
    using pol(2) irq(1) by (simp add: C_IRQ_handler_def tick_pending_def pending_tick_def reg_read_def)
  then have "s' = ?s" "m' = m" using irq(2) by (simp_all add: after_irq_def)
  then show ?thesis using k queues_grow_same [of ?s s ls] kinv_cong [OF k(1), of ?s]
    by (auto simp: irq_enabled_def)
next
  case (user mem' input)
  then have s': "s' = s\<lparr>mem := mem', uart_in := input\<rparr>" "m' = m" by simp_all
  then have "kinv n ls s' m'" using kinv_cong [OF k(1), of s'] by simp
  then show ?thesis using s' k(2) queues_grow_same [of s' s ls] by (auto simp: irq_enabled_def)
qed

text \<open>A tick at which the device is not due yet.\<close>

lemma tick_result:
  assumes step: "kstep malloc (s, m) e (Inr (s', m'))" and pol: "polite malloc s e" "pending_tick e"
    and k: "kinv n ls s m"
  shows "\<exists>p. e = Timer_irq p \<and> kinv n (after_update s (sys_time s + 5) ls [0..<4]) s' m' \<and> irq_enabled s'
    \<and> sys_time s' = sys_time s + 5
    \<and> view s' m' (after_update s (sys_time s + 5) ls [0..<4])
        = v_tick (holding s) (set (due_tasks s (sys_time s + 5) ls [0..<4])) (view s m ls)
    \<and> (\<forall>d<4. devices s' ! d = (if due s (sys_time s + 5) d then fired (devices s ! d) d else devices s ! d))"
proof -
  obtain p where p: "e = Timer_irq p" "tick_pending p" using pol(2) by (auto simp: pending_tick_def split: event.splits)
  then have "unat (p (PERIPHERAL_BASE + OSTMR_OSCR_ADDR)) < 2 ^ 32 - 18432" using pol(1) by (simp add: polite_def)
  from irq_tick [OF k p(2) this refl] show ?thesis
    using step p(1) by (auto elim!: kstep_irqE)
qed

lemma still_waiting:
  assumes "run_ticks malloc k sm sm'" and "kinv n ls (fst sm) (snd sm)" "irq_enabled (fst sm)"
    and "d < 4" "t \<in> set (ls ! d)" and "unat (sys_time (fst sm)) + 5 * k < unat (next_match (devices (fst sm) ! d))"
  shows "\<exists>ls'. kinv n ls' (fst sm') (snd sm') \<and> irq_enabled (fst sm') \<and> t \<in> set (ls' ! d)
    \<and> unat (sys_time (fst sm')) = unat (sys_time (fst sm)) + 5 * k
    \<and> next_match (devices (fst sm') ! d) = next_match (devices (fst sm) ! d)"
  using assms
proof (induction rule: run_ticks.induct)
  case (start sm)
  then show ?case by auto
next
  case (tick k sm sm1 e sm2)
  obtain s1 m1 s2 m2 where sm: "sm1 = (s1, m1)" "sm2 = (s2, m2)" by (cases sm1; cases sm2) auto
  obtain ls1 where k1: "kinv n ls1 s1 m1" "irq_enabled s1" "t \<in> set (ls1 ! d)"
    "unat (sys_time s1) = unat (sys_time (fst sm)) + 5 * k"
    "next_match (devices s1 ! d) = next_match (devices (fst sm) ! d)"
    using tick.IH tick.prems sm(1) by auto
  let ?now = "sys_time s1 + 5"
  have bound: "unat (sys_time s1) + 5 < unat (next_match (devices s1 ! d))" using k1(4,5) tick.prems(5) by simp
  moreover have "unat (next_match (devices s1 ! d)) < 2 ^ LENGTH(32)" by (rule unsigned_less)
  ultimately have now: "unat ?now = unat (sys_time s1) + 5"
    using unat_add_lem [of "sys_time s1" 5] by simp
  then have nd: "\<not> due s1 ?now d" using bound by (simp add: due_def word_le_nat_alt)
  obtain p where *: "kinv n (after_update s1 ?now ls1 [0..<4]) s2 m2" "irq_enabled s2" "sys_time s2 = ?now"
    "\<forall>d<4. devices s2 ! d = (if due s1 ?now d then fired (devices s1 ! d) d else devices s1 ! d)"
    using tick_result [OF _ _ tick.hyps(3) k1(1)] tick.hyps(2,4) sm by auto
  have "after_update s1 ?now ls1 [0..<4] ! d = ls1 ! d" using tick.prems(3) nd by (simp add: after_update_def)
  then show ?case using * k1(3-5) nd now tick.prems(3) sm(2)
    by (intro exI [of _ "after_update s1 ?now ls1 [0..<4]"]) simp
next
  case (other k sm sm1 e sm2)
  obtain s1 m1 s2 m2 where sm: "sm1 = (s1, m1)" "sm2 = (s2, m2)" by (cases sm1; cases sm2) auto
  obtain ls1 where k1: "kinv n ls1 s1 m1" "irq_enabled s1" "t \<in> set (ls1 ! d)"
    "unat (sys_time s1) = unat (sys_time (fst sm)) + 5 * k"
    "next_match (devices s1 ! d) = next_match (devices (fst sm) ! d)"
    using other.IH other.prems sm(1) by auto
  obtain ls2 where "kinv n ls2 s2 m2" "irq_enabled s2" "queues_grow s1 ls1 s2 ls2"
    using other_step [of malloc s1 m1 e s2 m2 n ls1] other.hyps(2-5) k1(1,2) sm by auto
  then show ?case using k1(3-5) other.prems(3) sm(2) by (auto simp: queues_grow_def)
qed

text \<open>
  C7: No task waits longer for a device than until its next match time: over any run, whatever
  the tasks do, the task stays on the queue of the device before that time, and the first tick
  that moves the clock to the match time or past it leaves it running or ready.
\<close>

theorem waiting_task_wakes:
  assumes "reachable malloc n (s, m)" and "dev_queues s ls" "d < 4" "t \<in> set (ls ! d)"
    and "run_ticks malloc k (s, m) (s1, m1)"
    and "unat (sys_time s) + 5 * k < unat (next_match (devices s ! d))"
  shows "(\<exists>ls1. dev_queues s1 ls1 \<and> t \<in> set (ls1 ! d))
    \<and> (\<forall>e s2 m2. unat (next_match (devices s ! d)) \<le> unat (sys_time s) + 5 * Suc k \<and> unat (sys_time s) + 5 * Suc k < 2 ^ 32
          \<and> polite malloc s1 e \<and> pending_tick e \<and> kstep malloc (s1, m1) e (Inr (s2, m2))
        \<longrightarrow> cur_tcb s2 = Some t \<or> t \<in> dom (rq_abs (run_q s2)))"
proof (intro conjI allI impI; (elim conjE)?)
  obtain ls0 where k: "kinv n ls0 s m" "irq_enabled s" using reachable_kinv [OF assms(1)] by auto
  then have "ls0 = ls" using dev_queues_unique [OF kinv_queues assms(2)] by blast
  then obtain ls1 where k1: "kinv n ls1 s1 m1" "t \<in> set (ls1 ! d)"
    "unat (sys_time s1) = unat (sys_time s) + 5 * k" "next_match (devices s1 ! d) = next_match (devices s ! d)"
    using still_waiting [OF assms(5), of n ls d t] k assms(3,4,6) by auto
  then show "\<exists>ls1. dev_queues s1 ls1 \<and> t \<in> set (ls1 ! d)" using kinv_queues by blast
  let ?now = "sys_time s1 + 5"
  fix e s2 m2
  assume due: "unat (next_match (devices s ! d)) \<le> unat (sys_time s) + 5 * Suc k" "unat (sys_time s) + 5 * Suc k < 2 ^ 32"
    and e: "polite malloc s1 e" "pending_tick e" "kstep malloc (s1, m1) e (Inr (s2, m2))"
  have "unat ?now = unat (sys_time s1) + 5"
    using due(2) k1(3) unat_add_lem [of "sys_time s1" 5] by simp
  then have "due s1 ?now d" using due(1) k1(3,4) by (simp add: due_def word_le_nat_alt)
  then have t: "t \<in> set (due_tasks s1 ?now ls1 [0..<4])" using k1(2) assms(3) by (force simp: due_tasks_def)
  obtain ls2 where v: "kinv n ls2 s2 m2"
    "view s2 m2 ls2 = v_tick (holding s1) (set (due_tasks s1 ?now ls1 [0..<4])) (view s1 m1 ls1)"
    using tick_result [OF e(3,1,2) k1(1)] by blast
  have "t = v_cur (view s2 m2 ls2) \<or> t \<in> v_ready (view s2 m2 ls2)"
    using t unfolding v(2) by (auto simp: v_tick_def Let_def v_fire_def v_preempt_def v_switch_def)
  moreover obtain c where "cur_tcb s2 = Some c" using kinv_cur [OF v(1)] by blast
  ultimately show "cur_tcb s2 = Some t \<or> t \<in> dom (rq_abs (run_q s2))" by fastforce
qed

text \<open>The second of the two tasks of demo_second_waits waits for the tick at 50 ms.\<close>

theorem waiting_task_wakes_witness:
  "\<exists>s s' m'. reachable has_memory 2 (s, Dev_wait_window) \<and> sys_time s = 45
     \<and> kstep has_memory (s, Dev_wait_window) (Timer_irq tick_regs) (Inr (s', m'))
     \<and> (cur_tcb s' = Some 1 \<or> 1 \<in> dom (rq_abs (run_q s')))"
proof -
  obtain v s where v: "run_at 2 Dev_wait_window [[], [], [], [2, 1]] v (at_ms 45) s"
    using demo_second_waits by blast
  then have r: "reachable has_memory 2 (s, Dev_wait_window)" and k: "kinv 2 [[], [], [], [2, 1]] s Dev_wait_window"
    and en: "irq_enabled s" and t: "sys_time s = 45" and "next_match (devices s ! 3) = dev_freq ! 3"
    by (simp_all add: kernel_at_def at_ms_def)
  then have nm: "next_match (devices s ! 3) = 50" by (simp add: dev_freq_def)
  have p: "tick_pending tick_regs" "unat (tick_regs (PERIPHERAL_BASE + OSTMR_OSCR_ADDR)) < 2 ^ 32 - 18432"
    by (simp_all add: tick_pending_def tick_regs_def INT_OSTMR_0_def PERIPHERAL_BASE_def INT_ICPR_ADDR_def OSTMR_OSCR_ADDR_def)
  obtain o' s' m' where "C_IRQ_handler (s\<lparr>periph := tick_regs\<rparr>) (irq_point Dev_wait_window) = Inr o'"
    "after_irq Dev_wait_window o' = (s', m')"
    using irq_tick [OF k p refl] by blast
  then have step: "kstep has_memory (s, Dev_wait_window) (Timer_irq tick_regs) (Inr (s', m'))"
    using kstep.irq [OF en, of has_memory Dev_wait_window tick_regs] by simp
  have "1 \<in> set ([[], [], [], [2, 1 :: nat]] ! 3)" by simp
  from waiting_task_wakes [OF r kinv_queues [OF k] _ this run_ticks.start]
  have "cur_tcb s2 = Some 1 \<or> 1 \<in> dom (rq_abs (run_q s2))"
    if "polite has_memory s e" "pending_tick e" "kstep has_memory (s, Dev_wait_window) e (Inr (s2, m2))" for e s2 m2
    using that by (simp add: t nm) blast
  moreover have "polite has_memory s (Timer_irq tick_regs)" "pending_tick (Timer_irq tick_regs)"
    using p by (simp_all add: polite_def pending_tick_def)
  ultimately have "cur_tcb s' = Some 1 \<or> 1 \<in> dom (rq_abs (run_q s'))" using step by blast
  with r t step show ?thesis by blast
qed

end
