(* ===== verification/Vector_Props.thy ===== *)
theory Vector_Props
  imports Syscalls
begin

text \<open>
  The patching of U-Boot's exception handlers: what wiring_handler overwrites restore_handler
  puts back, but only where the wiring succeeded.
\<close>

lemma near_cases:
  fixes h x :: u32
  shows "x - h < 8 \<longleftrightarrow> x = h \<or> x = h + 1 \<or> x = h + 2 \<or> x = h + 3 \<or> x = h + 4 \<or> x = h + 5 \<or> x = h + 6 \<or> x = h + 7"
proof -
  define y where "y = x - h"
  have x: "x = h + y" by (simp add: y_def)
  have "y < 8 \<longleftrightarrow> y = 0 \<or> y = 1 \<or> y = 2 \<or> y = 3 \<or> y = 4 \<or> y = 5 \<or> y = 6 \<or> y = 7"
  proof
    assume "y < 8"
    then have "unat y \<in> {0, 1, 2, 3, 4, 5, 6, 7}" by (auto simp: word_less_nat_alt)
    then have "of_nat (unat y) \<in> (of_nat :: nat \<Rightarrow> u32) ` {0, 1, 2, 3, 4, 5, 6, 7}" by (rule imageI)
    then have "y \<in> of_nat ` {0, 1, 2, 3, 4, 5, 6, 7}" by simp
    then show "y = 0 \<or> y = 1 \<or> y = 2 \<or> y = 3 \<or> y = 4 \<or> y = 5 \<or> y = 6 \<or> y = 7" by simp
  qed auto
  then show ?thesis unfolding x by simp
qed

text \<open>The bytes of a word.\<close>

lemma load32_bytes:
  "ucast (load32 m a) = m a" "ucast (drop_bit 8 (load32 m a)) = m (a + 1)"
  "ucast (drop_bit 16 (load32 m a)) = m (a + 2)" "ucast (drop_bit 24 (load32 m a)) = m (a + 3)"
  by (rule bit_word_eqI, auto simp: load32_def bit_simps dest: bit_imp_le_length)+

lemma store32_two:
  "store32 (store32 m h (load32 m0 h)) (h + 4) (load32 m0 (h + 4)) = (\<lambda>x. if x - h < 8 then m0 x else m x)"
proof (rule ext)
  fix x
  have "a + k \<noteq> a + l" if "k \<noteq> l" for a k l :: u32 using that by simp
  then show "store32 (store32 m h (load32 m0 h)) (h + 4) (load32 m0 (h + 4)) x = (if x - h < 8 then m0 x else m x)"
    unfolding near_cases by (auto simp: store32_def load32_bytes add.assoc)
qed

lemma load_store32_next: "load32 (store32 (store32 m h w) (h + 4) w') h = w"
proof -
  have "load32 (store32 (store32 m h w) (h + 4) w') h = load32 (store32 m h w) h"
    by (simp add: load32_def store32_def add.assoc)
  then show ?thesis by (simp add: load_store32)
qed

lemma wiring_success:
  assumes "wiring_handler s v a = Inr (1, s1)"
    and "h = load32 (mem s) ((load32 (mem s) (of_nat v * 4) XOR 0xe59ff000) + of_nat v * 4 + 8)"
  shows "v < length (uboot_handler_addr s)" "v < length (instruction_backup s)"
    "mem s1 = store32 (store32 (mem s) h 0xe51ff004) (h + 4) a"
    "uboot_handler_addr s1 = (uboot_handler_addr s)[v := h]"
    "instruction_backup s1 = (instruction_backup s)[v := (load32 (mem s) h, load32 (mem s) (h + 4))]"
  using assms by (auto simp: wiring_handler_def Let_def split: if_splits)

text \<open>C25: Wiring a vector and restoring it are inverse, whatever the kernel did in between:
  wiring_handler redirects the eight bytes of the handler that the vector reaches (and no
  other byte) to the kernel's own handler, and restore_handler, run on any later memory, puts
  exactly those eight bytes back and leaves the rest of that memory alone.\<close>
theorem vectors_restored:
  assumes "wiring_handler s v a = Inr (1, s1)" "v < NUM_EXCEPTIONS"
    and "h = load32 (mem s) ((load32 (mem s) (of_nat v * 4) XOR 0xe59ff000) + of_nat v * 4 + 8)"
  shows "load32 (mem s1) h = 0xe51ff004 \<and> load32 (mem s1) (h + 4) = a
    \<and> (\<forall>x. mem s1 x = mem s x \<or> x - h < 8)
    \<and> restore_handler (s1\<lparr>mem := m'\<rparr>) v = Inr (s1\<lparr>mem := (\<lambda>x. if x - h < 8 then mem s x else m' x)\<rparr>)"
proof (intro conjI allI)
  note w = wiring_success [OF assms(1,3)]
  show "load32 (mem s1) h = 0xe51ff004" "load32 (mem s1) (h + 4) = a"
    unfolding w(3) by (rule load_store32_next, rule load_store32)
  show "mem s1 x = mem s x \<or> x - h < 8" for x
    unfolding w(3) near_cases by (auto simp: store32_def add.assoc)
  show "restore_handler (s1\<lparr>mem := m'\<rparr>) v = Inr (s1\<lparr>mem := (\<lambda>x. if x - h < 8 then mem s x else m' x)\<rparr>)"
    using assms(2) w by (simp add: restore_handler_def Let_def store32_two)
qed

text \<open>A memory whose interrupt vector loads the address 256 from its literal pool.\<close>

lemma wiring_demo:
  fixes s :: kstate
  assumes "mem s = store32 (store32 (\<lambda>_. 0) 24 0xe59ff000) 32 256" "length (uboot_handler_addr s) = 7" "length (instruction_backup s) = 7"
  shows "load32 (mem s) (of_nat EX_IRQ * 4) XOR 0xe59ff000 = 0" "load32 (mem s) 32 = 256"
    "\<exists>s1. wiring_handler s EX_IRQ a = Inr (1, s1)"
proof -
  have *: "load32 (mem s) 24 = 0xe59ff000"
    using load_store32_next [of "\<lambda>_. 0" 24 "0xe59ff000" 256]
    by (simp add: assms(1) load32_def store32_def)
  show "load32 (mem s) 32 = 256" unfolding assms(1) by (rule load_store32)
  show "load32 (mem s) (of_nat EX_IRQ * 4) XOR 0xe59ff000 = 0" using * by (simp add: EX_IRQ_def)
  then show "\<exists>s1. wiring_handler s EX_IRQ a = Inr (1, s1)"
    using assms(2,3) * by (simp add: wiring_handler_def Let_def EX_IRQ_def)
qed

text \<open>With that memory the interrupt vector is redirected and restored.\<close>

theorem vectors_restored_witness:
  "\<exists>s s1. wiring_handler s EX_IRQ 0x8000 = Inr (1, s1) \<and> load32 (mem s1) 256 = 0xe51ff004
    \<and> load32 (mem s1) (256 + 4) = 0x8000
    \<and> restore_handler (s1\<lparr>mem := (\<lambda>_. 7)\<rparr>) EX_IRQ
        = Inr (s1\<lparr>mem := (\<lambda>x. if x - 256 < 8 then mem s x else 7)\<rparr>)"
proof -
  define s where "s = (app_startup blank_machine)\<lparr>mem := store32 (store32 (\<lambda>_. 0) 24 0xe59ff000) 32 256\<rparr>"
  have s: "mem s = store32 (store32 (\<lambda>_. 0) 24 0xe59ff000) 32 256"
    "length (uboot_handler_addr s) = 7" "length (instruction_backup s) = 7"
    by (simp_all add: s_def app_startup_def)
  note demo = wiring_demo [OF s]
  obtain s1 where w: "wiring_handler s EX_IRQ 0x8000 = Inr (1, s1)" using demo(3) by blast
  have "load32 (mem s1) 256 = 0xe51ff004 \<and> load32 (mem s1) (256 + 4) = 0x8000
      \<and> (\<forall>x. mem s1 x = mem s x \<or> x - 256 < 8)
      \<and> restore_handler (s1\<lparr>mem := (\<lambda>_. 7)\<rparr>) EX_IRQ
          = Inr (s1\<lparr>mem := (\<lambda>x. if x - 256 < 8 then mem s x else 7)\<rparr>)"
    by (rule vectors_restored [OF w]) (use demo(1,2) in \<open>simp_all add: EX_IRQ_def NUM_EXCEPTIONS_def\<close>)
  with w show ?thesis by blast
qed

text \<open>kmain ignores that a wiring failed. A vector of another form than a load from the
  literal pool makes wiring_handler return -1 and change nothing; restoring that vector when
  the kernel ends then follows the zeroed table of handler addresses and writes zeros over the
  first eight bytes of memory, where the exception vectors are.\<close>
theorem failed_wiring_restore:
  assumes "load32 (mem s) (of_nat v * 4) XOR 0xe59ff000 > 0xfff" "v < 7"
    and "uboot_handler_addr s = uboot_handler_addr (app_startup s)"
    and "instruction_backup s = instruction_backup (app_startup s)"
  shows "wiring_handler s v a = Inr (- 1, s)
    \<and> restore_handler s v = Inr (s\<lparr>mem := (\<lambda>x. if x < 8 then 0 else mem s x)\<rparr>)"
proof
  show "wiring_handler s v a = Inr (- 1, s)" using assms(1) by (simp add: wiring_handler_def Let_def)
  have "store32 (store32 (mem s) 0 0) 4 0 x = (if x < 8 then 0 else mem s x)" for x
    using near_cases [of x 0] by (auto simp: store32_def)
  then have "store32 (store32 (mem s) 0 0) 4 0 = (\<lambda>x. if x < 8 then 0 else mem s x)" by (rule ext)
  then show "restore_handler s v = Inr (s\<lparr>mem := (\<lambda>x. if x < 8 then 0 else mem s x)\<rparr>)"
    using assms(2-4) by (simp add: restore_handler_def Let_def NUM_EXCEPTIONS_def app_startup_def nth_replicate)
qed

text \<open>A branch instruction in the interrupt vector.\<close>

theorem failed_wiring_restore_witness:
  "\<exists>s. wiring_handler s EX_IRQ 0x8000 = Inr (- 1, s) \<and> mem s 0 = 1
    \<and> restore_handler s EX_IRQ = Inr (s\<lparr>mem := (\<lambda>x. if x < 8 then 0 else mem s x)\<rparr>)"
proof -
  define s where "s = (app_startup blank_machine)\<lparr>mem := (\<lambda>_. 1)\<rparr>"
  have "wiring_handler s EX_IRQ 0x8000 = Inr (- 1, s)
      \<and> restore_handler s EX_IRQ = Inr (s\<lparr>mem := (\<lambda>x. if x < 8 then 0 else mem s x)\<rparr>)"
    by (rule failed_wiring_restore) (simp_all add: s_def load32_def EX_IRQ_def app_startup_def)
  moreover have "mem s 0 = 1" by (simp add: s_def)
  ultimately show ?thesis by blast
qed

end
