(* ===== verification/UB_Bound.thy ===== *)
theory UB_Bound
  imports UB_Test
begin

text \<open>
  The table of utilization bounds against the bound of Liu and Layland, n (2^(1/n) - 1).
\<close>

section \<open>Powers with a fixed point\<close>

text \<open>
  Powers of numbers with 24 bits behind the point, rounded up or down after each product, by
  repeated squaring: enough digits to tell the fourth decimal of every entry of the table.
\<close>

definition scale :: int where "scale = 16777216"

definition sq_up :: "int \<Rightarrow> int" where "sq_up p = p * p div scale + 1"
definition sq_dn :: "int \<Rightarrow> int" where "sq_dn p = p * p div scale"

primrec pow_up :: "int \<Rightarrow> num \<Rightarrow> int" where
  "pow_up b num.One = b"
| "pow_up b (num.Bit0 k) = sq_up (pow_up b k)"
| "pow_up b (num.Bit1 k) = sq_up (pow_up b k) * b div scale + 1"

primrec pow_dn :: "int \<Rightarrow> num \<Rightarrow> int" where
  "pow_dn b num.One = b"
| "pow_dn b (num.Bit0 k) = sq_dn (pow_dn b k)"
| "pow_dn b (num.Bit1 k) = sq_dn (pow_dn b k) * b div scale"

text \<open>One product, of numbers at most, or at least, p and q.\<close>

lemma product_up:
  fixes S p q :: int
  assumes "0 < S" "0 \<le> x" "x \<le> real_of_int p / real_of_int S" "0 \<le> y" "y \<le> real_of_int q / real_of_int S"
  shows "x * y \<le> real_of_int (p * q div S + 1) / real_of_int S"
proof -
  have f: "\<lfloor>real_of_int (p * q) / real_of_int S\<rfloor> = p * q div S" by (rule floor_divide_of_int_eq)
  have "x * y \<le> (real_of_int p / real_of_int S) * (real_of_int q / real_of_int S)"
    using assms by (intro mult_mono) linarith+
  also have "\<dots> = real_of_int (p * q) / real_of_int S / real_of_int S" by simp
  also have "\<dots> \<le> real_of_int (p * q div S + 1) / real_of_int S"
    using floor_correct [of "real_of_int (p * q) / real_of_int S"] assms(1) unfolding f by (intro divide_right_mono) auto
  finally show ?thesis .
qed

lemma product_dn:
  fixes S p q :: int
  assumes "0 < S" "0 \<le> p" "real_of_int p / real_of_int S \<le> x" "0 \<le> q" "real_of_int q / real_of_int S \<le> y"
  shows "real_of_int (p * q div S) / real_of_int S \<le> x * y"
proof -
  have f: "\<lfloor>real_of_int (p * q) / real_of_int S\<rfloor> = p * q div S" by (rule floor_divide_of_int_eq)
  have "real_of_int (p * q div S) / real_of_int S \<le> real_of_int (p * q) / real_of_int S / real_of_int S"
    using floor_correct [of "real_of_int (p * q) / real_of_int S"] assms(1) unfolding f by (intro divide_right_mono) auto
  also have "\<dots> = (real_of_int p / real_of_int S) * (real_of_int q / real_of_int S)" by simp
  also have "\<dots> \<le> x * y"
  proof (rule mult_mono)
    have "0 \<le> real_of_int p / real_of_int S" "0 \<le> real_of_int q / real_of_int S" using assms(1,2,4) by simp_all
    then show "0 \<le> x" "0 \<le> real_of_int q / real_of_int S" using assms(3) by linarith+
  qed (rule assms)+
  finally show ?thesis .
qed

lemma power_num: "x ^ numeral (num.Bit0 k) = x ^ numeral k * (x ^ numeral k :: real)"
  "x ^ numeral (num.Bit1 k) = x ^ numeral k * x ^ numeral k * (x :: real)"
  by (simp_all only: numeral_Bit0 numeral_Bit1 power_add power_one_right mult.assoc)

lemma pow_up_bound:
  assumes "0 \<le> b"
  shows "(real_of_int b / real_of_int scale) ^ numeral k \<le> real_of_int (pow_up b k) / real_of_int scale"
proof (induction k)
  case One
  show ?case by simp
next
  case (Bit0 k)
  show ?case unfolding power_num pow_up.simps sq_up_def
    by (intro product_up Bit0) (simp_all add: scale_def assms)
next
  case (Bit1 k)
  show ?case unfolding power_num pow_up.simps sq_up_def
    by (intro product_up Bit1) (simp_all add: scale_def assms)
qed

lemma pow_dn_nonneg: "0 \<le> b \<Longrightarrow> 0 \<le> pow_dn b k"
  by (induction k) (simp_all add: scale_def sq_dn_def pos_imp_zdiv_nonneg_iff)

lemma pow_dn_bound:
  assumes "0 \<le> b"
  shows "real_of_int (pow_dn b k) / real_of_int scale \<le> (real_of_int b / real_of_int scale) ^ numeral k"
proof (induction k)
  case One
  show ?case by simp
next
  case (Bit0 k)
  show ?case unfolding power_num pow_dn.simps sq_dn_def
    by (intro product_dn Bit0 pow_dn_nonneg) (simp_all add: scale_def assms)
next
  case (Bit1 k)
  have "0 \<le> pow_dn b k * pow_dn b k div scale"
    using pow_dn_nonneg [OF assms, of k] by (simp add: scale_def pos_imp_zdiv_nonneg_iff)
  then show ?case unfolding power_num pow_dn.simps sq_dn_def
    by (intro product_dn Bit1 pow_dn_nonneg) (simp_all add: scale_def assms)
qed

section \<open>The table\<close>

text \<open>The entry d for n tasks, checked on the digits.\<close>

definition entry_ok :: "num \<Rightarrow> int \<Rightarrow> bool" where
  "entry_ok n d \<longleftrightarrow> 0 < d
     \<and> pow_up (scale + scale * (2 * d - 1) div (20000 * numeral n) + 1) n \<le> 2 * scale
     \<and> 2 * scale \<le> pow_dn (scale + scale * (2 * d + 1) div (20000 * numeral n)) n"

primrec entries_ok :: "num \<Rightarrow> int list \<Rightarrow> bool" where
  "entries_ok n [] = True"
| "entries_ok n (d # ds) = (entry_ok n d \<and> entries_ok (Num.inc n) ds)"

lemma entries_nth:
  "entries_ok k ds \<Longrightarrow> i < length ds \<Longrightarrow> \<exists>n. numeral n = numeral k + i \<and> entry_ok n (ds ! i)"
proof (induction ds arbitrary: k i)
  case (Cons d ds)
  show ?case
  proof (cases i)
    case 0
    then show ?thesis using Cons.prems(1) by auto
  next
    case (Suc i')
    then obtain n where "numeral n = numeral (Num.inc k) + i'" "entry_ok n (ds ! i')"
      using Cons.IH [of "Num.inc k" i'] Cons.prems by auto
    moreover have "numeral (Num.inc k) = numeral k + (1 :: nat)" by (rule numeral_inc)
    ultimately have "numeral n = numeral k + i" "entry_ok n ((d # ds) ! i)" using Suc by (linarith, simp)
    then show ?thesis by blast
  qed
qed simp

lemma table_entries: "entries_ok num.One (map int bound_digits)"
proof -
  have "entries_ok num.One [10000, 8284, 7798, 7568, 7435, 7348, 7286, 7241,
    7205, 7177, 7155, 7136, 7120, 7106, 7094, 7084,
    7075, 7067, 7059, 7053, 7047, 7042, 7037, 7033,
    7028, 7025, 7021, 7018, 7015, 7012, 7010, 7007,
    7005, 7003, 7001, 6999, 6997, 6995, 6993, 6992,
    6990, 6989, 6988, 6986, 6985, 6984, 6983, 6982,
    6981, 6980, 6979, 6978, 6977, 6976, 6975, 6975,
    6974, 6973, 6972, 6972, 6971, 6970, 6970, 6969]"
    by code_simp
  then show ?thesis by (simp only: bound_digits_def list.map of_nat_numeral)
qed

lemma div_bounds:
  assumes "0 < K"
  shows "real_of_int (a div K) \<le> real_of_int a / real_of_int K" "real_of_int a / real_of_int K \<le> real_of_int (a div K) + 1"
proof -
  have f: "\<lfloor>real_of_int a / real_of_int K\<rfloor> = a div K" by (rule floor_divide_of_int_eq)
  show "real_of_int (a div K) \<le> real_of_int a / real_of_int K" "real_of_int a / real_of_int K \<le> real_of_int (a div K) + 1"
    using floor_correct [of "real_of_int a / real_of_int K"] unfolding f by linarith+
qed

lemma root_between:
  assumes "0 \<le> x" "x ^ n \<le> 2" "0 \<le> y" "2 \<le> y ^ n" "0 < n" shows "x \<le> root n 2" "root n 2 \<le> y"
  using real_root_le_mono [OF assms(5,2)] real_root_le_mono [OF assms(5,4)] assms by (simp_all add: real_root_power_cancel)

lemma cancel_20000: "0 < n \<Longrightarrow> n * (1 + c / (20000 * n) - 1) = c / (20000 :: real)"
  by simp

lemma half_digit:
  "real_of_int (2 * d - 1) / 20000 \<le> e \<Longrightarrow> e \<le> real_of_int (2 * d + 1) / 20000 \<Longrightarrow> \<bar>real_of_int d / 10000 - e\<bar> \<le> 1 / 20000"
  by (simp add: field_simps abs_if)

lemma entry_bound:
  assumes "entry_ok k d"
  shows "\<bar>real_of_int d / 10000 - numeral k * (root (numeral k) 2 - 1)\<bar> \<le> 1 / 20000"
proof -
  define K :: int where "K = 20000 * numeral k"
  have K: "0 < K" "real_of_int K = 20000 * numeral k" by (simp_all add: K_def)
  let ?S = "real_of_int scale" and ?up = "scale + scale * (2 * d - 1) div K + 1" and ?dn = "scale + scale * (2 * d + 1) div K"
  have d: "0 < d" "pow_up ?up k \<le> 2 * scale" "2 * scale \<le> pow_dn ?dn k" using assms by (auto simp: entry_ok_def K_def)
  have S: "0 < scale" "0 < ?S" by (simp_all add: scale_def)
  from d(2,3) have r: "real_of_int (pow_up ?up k) \<le> real_of_int (2 * scale)" "real_of_int (2 * scale) \<le> real_of_int (pow_dn ?dn k)"
    by (simp_all only: of_int_le_iff)
  have pos: "0 \<le> ?up" "0 \<le> ?dn" using S(1) d(1) K(1) by (simp_all add: pos_imp_zdiv_nonneg_iff add_nonneg_nonneg)
  let ?lo = "1 + real_of_int (2 * d - 1) / real_of_int K" and ?hi = "1 + real_of_int (2 * d + 1) / real_of_int K"
  have lo0: "0 \<le> ?lo" "0 \<le> ?hi" using d(1) K(1) by simp_all
  have scaled: "1 + real_of_int c / real_of_int K = (?S + real_of_int (scale * c) / real_of_int K) / ?S" for c
    using S(2) K(1) by (simp add: field_simps)
  have "?lo \<le> real_of_int ?up / ?S"
    unfolding scaled using div_bounds(2) [OF K(1), of "scale * (2 * d - 1)"] S(2) by (intro divide_right_mono) simp_all
  then have "?lo ^ numeral k \<le> (real_of_int ?up / ?S) ^ numeral k" using lo0(1) by (intro power_mono)
  also have "\<dots> \<le> real_of_int (pow_up ?up k) / ?S" by (rule pow_up_bound [OF pos(1)])
  also have "\<dots> \<le> 2" using r(1) S(2) by (simp add: pos_divide_le_eq)
  finally have lo: "?lo ^ numeral k \<le> 2" .
  have "real_of_int ?dn / ?S \<le> ?hi"
    unfolding scaled using div_bounds(1) [OF K(1), of "scale * (2 * d + 1)"] S(2) by (intro divide_right_mono) simp_all
  then have "(real_of_int ?dn / ?S) ^ numeral k \<le> ?hi ^ numeral k"
    using pos(2) S(2) by (intro power_mono) simp_all
  moreover have "real_of_int (pow_dn ?dn k) / ?S \<le> (real_of_int ?dn / ?S) ^ numeral k" by (rule pow_dn_bound [OF pos(2)])
  moreover have "2 \<le> real_of_int (pow_dn ?dn k) / ?S"
    using r(2) S(2) by (simp add: pos_le_divide_eq)
  ultimately have "2 \<le> ?hi ^ numeral k" by linarith
  from root_between [OF lo0(1) lo lo0(2) this] have "?lo \<le> root (numeral k) 2" "root (numeral k) 2 \<le> ?hi" by simp_all
  then have "numeral k * (?lo - 1) \<le> numeral k * (root (numeral k) 2 - 1)"
    "numeral k * (root (numeral k) 2 - 1) \<le> numeral k * (?hi - 1)" by (intro mult_left_mono; simp)+
  moreover have "numeral k * (1 + real_of_int c / real_of_int K - 1) = real_of_int c / 20000" for c
    unfolding K(2) by (rule cancel_20000) simp
  ultimately have "real_of_int (2 * d - 1) / 20000 \<le> numeral k * (root (numeral k) 2 - 1)"
    "numeral k * (root (numeral k) 2 - 1) \<le> real_of_int (2 * d + 1) / 20000" by (simp_all only:)
  then show ?thesis by (rule half_digit)
qed

text \<open>
  C15: The table of the test is the bound of Liu and Layland: its entry for n tasks is
  n (2^(1/n) - 1) to the fourth decimal, for every n up to 64, and the floats it is stored in
  add less than a millionth to the error.
\<close>

theorem bound_table_is_liu_layland:
  assumes "i < 64"
  shows "\<exists>b. bound_table ! i = Fin b \<and> \<bar>real_of_rat b - of_nat (i + 1) * (root (i + 1) 2 - 1)\<bar> \<le> 51 / 1000000"
proof -
  obtain b where b: "bound_table ! i = Fin b" using assms by (simp add: bound_table_nth)
  obtain n where n: "numeral n = Suc i" "entry_ok n (int (bound_digits ! i))"
    using entries_nth [OF table_entries, of i] assms by (auto simp: length_bound_digits)
  let ?x = "of_nat (bound_digits ! i) / 10000 :: rat"
  have "b \<le> ?x + 1 / 1000000" "?x - 1 / 1000000 \<le> b" using bound_table_near [OF b assms] by linarith+
  then have "real_of_rat b \<le> of_rat (?x + 1 / 1000000)" "of_rat (?x - 1 / 1000000) \<le> real_of_rat b"
    by (simp_all only: of_rat_less_eq)
  then have "real_of_rat b \<le> of_nat (bound_digits ! i) / 10000 + 1 / 1000000"
    "of_nat (bound_digits ! i) / 10000 - 1 / 1000000 \<le> real_of_rat b"
    by (simp_all add: of_rat_add of_rat_diff of_rat_divide)
  then have "\<bar>real_of_rat b - of_nat (bound_digits ! i) / 10000\<bar> \<le> 1 / 1000000" by linarith
  moreover have "\<bar>of_nat (bound_digits ! i) / 10000 - real (Suc i) * (root (Suc i) 2 - 1)\<bar> \<le> 1 / 20000"
    using entry_bound [OF n(2)] unfolding n(1) [symmetric] by simp
  ultimately have "\<bar>real_of_rat b - of_nat (i + 1) * (root (i + 1) 2 - 1)\<bar> \<le> 51 / 1000000"
    unfolding Suc_eq_plus1 by linarith
  then show ?thesis using b by blast
qed

theorem bound_table_is_liu_layland_witness:
  "\<exists>b. bound_table ! 1 = Fin b \<and> \<bar>real_of_rat b - 2 * (sqrt 2 - 1)\<bar> \<le> 51 / 1000000"
  using bound_table_is_liu_layland [of 1] by (simp add: sqrt_def numeral_2_eq_2)

end
