(* ===== verification/C_String.thy ===== *)
theory C_String
  imports Memory
begin

text \<open>
  tasks/libc/string: strings and blocks in byte memory. Pointers are 32 bit words; a plain
  char of this compiler is unsigned. A loop that runs until it meets a null byte does not
  return when there is none, which is None.
\<close>

section \<open>Blocks\<close>

fun memset_loop :: "nat \<Rightarrow> memory \<Rightarrow> u32 \<Rightarrow> u8 \<Rightarrow> memory" where
  "memset_loop 0 m to c = m"
| "memset_loop (Suc len) m to c = memset_loop len (m(to := c)) (to + 1) c"

definition memset :: "memory \<Rightarrow> u32 \<Rightarrow> int \<Rightarrow> u32 \<Rightarrow> u32 \<times> memory" where
  "memset m tov c len = (tov, memset_loop (unat len) m tov (word_of_int c))"

fun memcmp_loop :: "nat \<Rightarrow> memory \<Rightarrow> u32 \<Rightarrow> u32 \<Rightarrow> int" where
  "memcmp_loop 0 m s1 s2 = 0"
| "memcmp_loop (Suc n) m s1 s2 =
     (let a = ucast (m s1) :: u32; b = ucast (m s2) :: u32
      in if a \<noteq> b then reg_to_int (a - b) else memcmp_loop n m (s1 + 1) (s2 + 1))"

definition memcmp :: "memory \<Rightarrow> u32 \<Rightarrow> u32 \<Rightarrow> u32 \<Rightarrow> int" where
  "memcmp m s1 s2 sz = memcmp_loop (unat sz) m s1 s2"

text \<open>The upward loop has i elements done and n to do; the downward one n to do.\<close>

fun memmove_up :: "nat \<Rightarrow> u32 \<Rightarrow> memory \<Rightarrow> u32 \<Rightarrow> u32 \<Rightarrow> memory" where
  "memmove_up 0 i m d s = m"
| "memmove_up (Suc n) i m d s = memmove_up n (i + 1) (m(d + i := m (s + i))) d s"

fun memmove_down :: "nat \<Rightarrow> memory \<Rightarrow> u32 \<Rightarrow> u32 \<Rightarrow> memory" where
  "memmove_down 0 m d s = m"
| "memmove_down (Suc n) m d s = memmove_down n (m(d + of_nat n := m (s + of_nat n))) d s"

definition memmove :: "memory \<Rightarrow> u32 \<Rightarrow> u32 \<Rightarrow> u32 \<Rightarrow> u32 \<times> memory" where
  "memmove m dest src cnt =
     (dest, if dest < src then memmove_up (unat cnt) 0 m dest src
            else memmove_down (unat cnt) m dest src)"

definition memcpy :: "memory \<Rightarrow> u32 \<Rightarrow> u32 \<Rightarrow> u32 \<Rightarrow> u32 \<times> memory" where
  "memcpy m dest src cnt = memmove m dest src cnt"

section \<open>Copying strings\<close>

partial_function (option) strlen_loop :: "memory \<Rightarrow> u32 \<Rightarrow> u32 option" where
  "strlen_loop m string = (if m string \<noteq> 0 then strlen_loop m (string + 1) else Some (string + 1))"

definition strlen :: "memory \<Rightarrow> u32 \<Rightarrow> u32 option" where
  "strlen m string = map_option (\<lambda>e. e - 1 - string) (strlen_loop m string)"

partial_function (option) strcpy_loop :: "memory \<Rightarrow> u32 \<Rightarrow> u32 \<Rightarrow> memory option" where
  "strcpy_loop m to from =
     (let m' = m(to := m from) in if m from \<noteq> 0 then strcpy_loop m' (to + 1) (from + 1) else Some m')"

definition strcpy :: "memory \<Rightarrow> u32 \<Rightarrow> u32 \<Rightarrow> (u32 \<times> memory) option" where
  "strcpy m to from = map_option (Pair to) (strcpy_loop m to from)"

text \<open>
  The first loop of strncpy with what it leaves in count: when it ends because count was
  0, the decrement has wrapped it to the greatest size.
\<close>

fun strncpy_copy :: "nat \<Rightarrow> memory \<Rightarrow> u32 \<Rightarrow> u32 \<Rightarrow> memory \<times> u32 \<times> u32" where
  "strncpy_copy 0 m to from = (m, to, 0 - 1)"
| "strncpy_copy (Suc cnt) m to from =
     (let m' = m(to := m from)
      in if m from \<noteq> 0 then strncpy_copy cnt m' (to + 1) (from + 1) else (m', to + 1, of_nat cnt))"

definition strncpy :: "memory \<Rightarrow> u32 \<Rightarrow> u32 \<Rightarrow> u32 \<Rightarrow> u32 \<times> memory" where
  "strncpy m to from cnt =
     (let (m1, to1, cnt1) = strncpy_copy (unat cnt) m to from
      in (to, memset_loop (unat cnt1) m1 to1 0))"

partial_function (option) skip_to_null :: "memory \<Rightarrow> u32 \<Rightarrow> u32 option" where
  "skip_to_null m s = (if m s \<noteq> 0 then skip_to_null m (s + 1) else Some s)"

definition strcat :: "memory \<Rightarrow> u32 \<Rightarrow> u32 \<Rightarrow> (u32 \<times> memory) option" where
  "strcat m s add =
     (case skip_to_null m s of None \<Rightarrow> None
      | Some s1 \<Rightarrow> map_option (Pair s) (strcpy_loop m s1 add))"

fun strncat_copy :: "nat \<Rightarrow> memory \<Rightarrow> u32 \<Rightarrow> u32 \<Rightarrow> memory \<times> u32" where
  "strncat_copy 0 m d s = (m, d)"
| "strncat_copy (Suc n) m d s =
     (let m' = m(d := m s) in if m s = 0 then (m', d) else strncat_copy n m' (d + 1) (s + 1))"

definition strncat :: "memory \<Rightarrow> u32 \<Rightarrow> u32 \<Rightarrow> u32 \<Rightarrow> (u32 \<times> memory) option" where
  "strncat m dst src n =
     (if n \<noteq> 0
      then case skip_to_null m dst of None \<Rightarrow> None
           | Some d \<Rightarrow> (let (m', d') = strncat_copy (unat n) m d src in Some (dst, m'(d' := 0)))
      else Some (dst, m))"

section \<open>Comparing and searching\<close>

partial_function (option) strcmp :: "memory \<Rightarrow> u32 \<Rightarrow> u32 \<Rightarrow> int option" where
  "strcmp m s1 s2 =
     (let a = ucast (m s1) :: u32; b = ucast (m s2) :: u32
      in if a \<noteq> 0 \<and> b \<noteq> 0
         then if a \<noteq> b then Some (reg_to_int (a - b)) else strcmp m (s1 + 1) (s2 + 1)
         else Some (reg_to_int (a - b)))"

fun strncmp_loop :: "nat \<Rightarrow> memory \<Rightarrow> u32 \<Rightarrow> u32 \<Rightarrow> int" where
  "strncmp_loop 0 m s1 s2 = 0"
| "strncmp_loop (Suc n) m s1 s2 =
     (if m s1 \<noteq> m s2 then uint (m s1) - uint (m s2)
      else if m s1 = 0 then 0
      else strncmp_loop n m (s1 + 1) (s2 + 1))"

definition strncmp :: "memory \<Rightarrow> u32 \<Rightarrow> u32 \<Rightarrow> u32 \<Rightarrow> int" where
  "strncmp m s1 s2 n = strncmp_loop (unat n) m s1 s2"

text \<open>Pointers are 0 when nothing was found.\<close>

partial_function (option) strchr :: "memory \<Rightarrow> u32 \<Rightarrow> int \<Rightarrow> u32 option" where
  "strchr m s c = (if uint (m s) = c then Some s else if m s = 0 then Some 0 else strchr m (s + 1) c)"

partial_function (option) strrchr_loop :: "memory \<Rightarrow> u32 \<Rightarrow> int \<Rightarrow> u32 \<Rightarrow> u32 option" where
  "strrchr_loop m s c save =
     (if m s \<noteq> 0 then strrchr_loop m (s + 1) c (if uint (m s) = c then s else save) else Some save)"

definition strrchr :: "memory \<Rightarrow> u32 \<Rightarrow> int \<Rightarrow> u32 option" where
  "strrchr m s c = strrchr_loop m s c 0"

function strstr_loop :: "memory \<Rightarrow> u32 \<Rightarrow> u32 \<Rightarrow> int \<Rightarrow> int \<Rightarrow> u32" where
  "strstr_loop m haystack needle hlen nlen =
     (if hlen \<ge> nlen
      then if memcmp m haystack needle (word_of_int nlen) = 0 then haystack
           else strstr_loop m (haystack + 1) needle (hlen - 1) nlen
      else 0)"
  by pat_completeness auto
termination by (relation "measure (\<lambda>(m, h, n, hlen, nlen). nat (hlen - nlen + 1))") auto

declare strstr_loop.simps [simp del]

definition strstr :: "memory \<Rightarrow> u32 \<Rightarrow> u32 \<Rightarrow> u32 option" where
  "strstr m haystack needle =
     (case (strlen m haystack, strlen m needle) of
        (Some h, Some n) \<Rightarrow> Some (strstr_loop m haystack needle (reg_to_int h) (reg_to_int n))
      | _ \<Rightarrow> None)"

text \<open>The scan of the set s2 for c: strspn and strpbrk stop at the null, strcspn tests it too.\<close>

partial_function (option) in_set :: "memory \<Rightarrow> u32 \<Rightarrow> u8 \<Rightarrow> bool option" where
  "in_set m spanp c = (if m spanp = 0 then Some False else if m spanp = c then Some True else in_set m (spanp + 1) c)"

partial_function (option) in_set_or_null :: "memory \<Rightarrow> u32 \<Rightarrow> u8 \<Rightarrow> bool option" where
  "in_set_or_null m spanp c =
     (if m spanp = c then Some True else if m spanp \<noteq> 0 then in_set_or_null m (spanp + 1) c else Some False)"

partial_function (option) strspn_loop :: "memory \<Rightarrow> u32 \<Rightarrow> u32 \<Rightarrow> u32 option" where
  "strspn_loop m p s2 =
     (case in_set m s2 (m p) of None \<Rightarrow> None
      | Some found \<Rightarrow> if found then strspn_loop m (p + 1) s2 else Some (p + 1))"

definition strspn :: "memory \<Rightarrow> u32 \<Rightarrow> u32 \<Rightarrow> u32 option" where
  "strspn m s1 s2 = map_option (\<lambda>p. p - 1 - s1) (strspn_loop m s1 s2)"

partial_function (option) strcspn_loop :: "memory \<Rightarrow> u32 \<Rightarrow> u32 \<Rightarrow> u32 option" where
  "strcspn_loop m p s2 =
     (case in_set_or_null m s2 (m p) of None \<Rightarrow> None
      | Some found \<Rightarrow> if found then Some (p + 1) else strcspn_loop m (p + 1) s2)"

definition strcspn :: "memory \<Rightarrow> u32 \<Rightarrow> u32 \<Rightarrow> u32 option" where
  "strcspn m s1 s2 = map_option (\<lambda>p. p - 1 - s1) (strcspn_loop m s1 s2)"

partial_function (option) strpbrk :: "memory \<Rightarrow> u32 \<Rightarrow> u32 \<Rightarrow> u32 option" where
  "strpbrk m s1 s2 =
     (if m s1 = 0 then Some 0
      else case in_set m s2 (m s1) of None \<Rightarrow> None
        | Some found \<Rightarrow> if found then Some s1 else strpbrk m (s1 + 1) s2)"

section \<open>Strings in memory\<close>

text \<open>The bytes of a string, without the null that ends it.\<close>

fun c_string :: "memory \<Rightarrow> u32 \<Rightarrow> u8 list \<Rightarrow> bool" where
  "c_string m a [] \<longleftrightarrow> m a = 0"
| "c_string m a (c # cs) \<longleftrightarrow> m a = c \<and> c \<noteq> 0 \<and> c_string m (a + 1) cs"

text \<open>The n addresses from a on.\<close>

definition in_region :: "u32 \<Rightarrow> nat \<Rightarrow> u32 \<Rightarrow> bool" where
  "in_region a n x \<longleftrightarrow> unat (x - a) < n"

definition apart :: "u32 \<Rightarrow> nat \<Rightarrow> u32 \<Rightarrow> nat \<Rightarrow> bool" where
  "apart a n b k \<longleftrightarrow> (\<forall>x. \<not> (in_region a n x \<and> in_region b k x))"

fun write_bytes :: "memory \<Rightarrow> u32 \<Rightarrow> u8 list \<Rightarrow> memory" where
  "write_bytes m a [] = m"
| "write_bytes m a (c # cs) = write_bytes (m(a := c)) (a + 1) cs"

lemma c_string_unique: "c_string m a cs \<Longrightarrow> c_string m a ds \<Longrightarrow> cs = ds"
proof (induction cs arbitrary: a ds)
  case Nil
  then show ?case by (cases ds) auto
next
  case (Cons c cs)
  then show ?case by (cases ds) auto
qed

lemma in_region_self [simp]: "in_region a n a \<longleftrightarrow> 0 < n"
  by (simp add: in_region_def)

lemma in_region_Suc: "in_region (a + 1) n x \<Longrightarrow> in_region a (Suc n) x"
proof -
  have "unat (y + 1) \<le> unat y + 1" for y :: u32
    by (simp add: unat_word_ariths)
  from this [of "x - (a + 1)"] show "in_region (a + 1) n x \<Longrightarrow> in_region a (Suc n) x"
    by (simp add: in_region_def)
qed

lemma not_in_tail: "n < 2 ^ 32 \<Longrightarrow> \<not> in_region (a + 1) n a"
  by (simp add: in_region_def unsigned_minus_1_eq_mask mask_eq_exp_minus_1)

lemma apart_tl: "apart a (Suc n) b (Suc k) \<Longrightarrow> apart (a + 1) n (b + 1) k"
  unfolding apart_def using in_region_Suc by blast

lemma apart_sym: "apart a n b k \<longleftrightarrow> apart b k a n"
  by (auto simp: apart_def)

lemma apart_first: "apart a (Suc n) b k \<Longrightarrow> \<not> in_region b k a"
  using in_region_self [of a "Suc n"] by (auto simp: apart_def)

lemma c_string_upd: "\<not> in_region a (Suc (length cs)) x \<Longrightarrow> c_string (m(x := v)) a cs = c_string m a cs"
proof (induction cs arbitrary: a)
  case Nil
  have "x \<noteq> a" using Nil by auto
  then show ?case by simp
next
  case (Cons c cs)
  have "x \<noteq> a" using Cons.prems by auto
  moreover have "\<not> in_region (a + 1) (Suc (length cs)) x" using Cons.prems in_region_Suc by auto
  ultimately show ?case using Cons.IH by simp
qed

lemma c_string_cong:
  "c_string m a cs \<Longrightarrow> (\<And>x. in_region a (Suc (length cs)) x \<Longrightarrow> m' x = m x) \<Longrightarrow> c_string m' a cs"
proof (induction cs arbitrary: a)
  case (Cons c cs)
  have "c_string m' (a + 1) cs"
    by (rule Cons.IH) (use Cons.prems in_region_Suc in auto)
  then show ?case using Cons.prems by simp
qed simp

lemma write_bytes_other: "\<not> in_region a (length cs) x \<Longrightarrow> write_bytes m a cs x = m x"
proof (induction cs arbitrary: m a)
  case (Cons c cs)
  have "x \<noteq> a" "\<not> in_region (a + 1) (length cs) x" using Cons.prems in_region_Suc by auto
  then show ?case using Cons.IH by simp
qed simp

lemma c_string_write: "length cs < 2 ^ 32 \<Longrightarrow> 0 \<notin> set cs \<Longrightarrow> c_string (write_bytes m a (cs @ [0])) a cs"
proof (induction cs arbitrary: m a)
  case (Cons c cs)
  have "\<not> in_region (a + 1) (length (cs @ [0])) a" using Cons.prems by (intro not_in_tail) simp
  then have "write_bytes (m(a := c)) (a + 1) (cs @ [0]) a = c" by (simp add: write_bytes_other)
  moreover have "c_string (write_bytes (m(a := c)) (a + 1) (cs @ [0])) (a + 1) cs"
    by (rule Cons.IH) (use Cons.prems in auto)
  ultimately show ?case using Cons.prems by auto
qed simp

lemma c_string_nonzero: "c_string m a cs \<Longrightarrow> 0 \<notin> set cs"
  by (induction cs arbitrary: a) auto

lemma c_string_nth: "c_string m a cs \<Longrightarrow> i < length cs \<Longrightarrow> m (a + of_nat i) = cs ! i"
proof (induction cs arbitrary: a i)
  case (Cons c cs)
  then show ?case using Cons.IH [of "a + 1" "i - 1"] by (cases i) (auto simp: add.assoc)
qed simp

lemma c_string_end: "c_string m a cs \<Longrightarrow> m (a + of_nat (length cs)) = 0"
proof (induction cs arbitrary: a)
  case (Cons c cs)
  then show ?case using Cons.IH [of "a + 1"] by (simp add: add.assoc)
qed simp

end
