(* ===== verification/C_Stdlib.thy ===== *)
theory C_Stdlib
  imports C_String
begin

text \<open>
  tasks/libc/include/ctype.h and tasks/libc/stdlib: character classes, number parsers and
  the random generator. long is 32 bits wide; its arithmetic wraps, as on the machine.
\<close>

section \<open>Character classes\<close>

definition isascii :: "int \<Rightarrow> bool" where "isascii c \<longleftrightarrow> c \<ge> 0 \<and> c \<le> 127"
definition iscntrl :: "int \<Rightarrow> bool" where "iscntrl c \<longleftrightarrow> c < 32 \<or> c > 126"
definition isdigit :: "int \<Rightarrow> bool" where "isdigit c \<longleftrightarrow> c \<ge> 48 \<and> c \<le> 57"
definition isgraph :: "int \<Rightarrow> bool" where "isgraph c \<longleftrightarrow> c > 32 \<and> c \<le> 126"
definition islower :: "int \<Rightarrow> bool" where "islower c \<longleftrightarrow> c \<ge> 97 \<and> c \<le> 122"
definition isprint :: "int \<Rightarrow> bool" where "isprint c \<longleftrightarrow> c \<ge> 32 \<and> c \<le> 126"
definition isspace :: "int \<Rightarrow> bool" where
  "isspace c \<longleftrightarrow> c = 32 \<or> c = 12 \<or> c = 10 \<or> c = 10 \<or> c = 13 \<or> c = 9 \<or> c = 11"
definition isupper :: "int \<Rightarrow> bool" where "isupper c \<longleftrightarrow> c \<ge> 65 \<and> c \<le> 90"
definition isxdigit :: "int \<Rightarrow> bool" where
  "isxdigit c \<longleftrightarrow> isdigit c \<or> (c \<ge> 65 \<and> c \<le> 70) \<or> (c \<ge> 97 \<and> c \<le> 102)"
definition isalpha :: "int \<Rightarrow> bool" where "isalpha c \<longleftrightarrow> islower c \<or> isupper c"
definition isalnum :: "int \<Rightarrow> bool" where "isalnum c \<longleftrightarrow> isalpha c \<or> isdigit c"
definition ispunct :: "int \<Rightarrow> bool" where "ispunct c \<longleftrightarrow> isgraph c \<and> \<not> isalnum c"
definition toupper :: "int \<Rightarrow> int" where "toupper c = (if islower c then c - 97 + 65 else c)"
definition tolower :: "int \<Rightarrow> int" where "tolower c = (if isupper c then c - 65 + 97 else c)"

named_theorems ctype
declare isascii_def [ctype] iscntrl_def [ctype] isdigit_def [ctype] isgraph_def [ctype] islower_def [ctype]
  isprint_def [ctype] isspace_def [ctype] isupper_def [ctype] isxdigit_def [ctype] isalpha_def [ctype]
  isalnum_def [ctype] ispunct_def [ctype] toupper_def [ctype] tolower_def [ctype]

section \<open>Numbers\<close>

partial_function (option) atol_loop :: "memory \<Rightarrow> u32 \<Rightarrow> u32 \<Rightarrow> u32 option" where
  "atol_loop m str n =
     (if isdigit (uint (m str)) then atol_loop m (str + 1) (n * 10 + ucast (m str) - 48) else Some n)"

definition atol :: "memory \<Rightarrow> u32 \<Rightarrow> int option" where
  "atol m str = map_option reg_to_int (atol_loop m str 0)"

definition atoi :: "memory \<Rightarrow> u32 \<Rightarrow> int option" where
  "atoi m str = atol m str"

partial_function (option) skip_space :: "memory \<Rightarrow> u32 \<Rightarrow> u32 option" where
  "skip_space m p = (if isspace (uint (m p)) then skip_space m (p + 1) else Some p)"

text \<open>The 0x prefix and the base it or a leading 0 stands for.\<close>

definition number_prefix :: "memory \<Rightarrow> u32 \<Rightarrow> int \<Rightarrow> u32 \<times> int" where
  "number_prefix m p base =
     (let (p1, base1) = (if (base = 16 \<or> base = 0) \<and> m p = 48 \<and> (m (p + 1) = 120 \<or> m (p + 1) = 88)
                         then (p + 2, 16) else (p, base))
      in (p1, if base1 = 0 then (if m p1 = 48 then 8 else 10) else base1))"

text \<open>The value of a character that is a digit in the base.\<close>

definition digit_value :: "int \<Rightarrow> u8 \<Rightarrow> int option" where
  "digit_value base ch =
     (let c = uint ch
      in if c \<ge> 48 \<and> c \<le> 57 \<and> c - 48 < base then Some (c - 48)
         else if c \<ge> 97 \<and> c \<le> 122 \<and> c - 97 + 10 < base then Some (c - 97 + 10)
         else if c \<ge> 65 \<and> c \<le> 90 \<and> c - 65 + 10 < base then Some (c - 65 + 10)
         else None)"

partial_function (option) number_loop :: "memory \<Rightarrow> u32 \<Rightarrow> int \<Rightarrow> u32 \<Rightarrow> (u32 \<times> u32) option" where
  "number_loop m p base v =
     (case digit_value base (m p) of None \<Rightarrow> Some (v, p)
      | Some d \<Rightarrow> number_loop m (p + 1) base (v * word_of_int base + word_of_int d))"

text \<open>Both return the value and what goes to out_p.\<close>

definition strtol :: "memory \<Rightarrow> u32 \<Rightarrow> int \<Rightarrow> (int \<times> u32) option" where
  "strtol m p0 base0 =
     (case skip_space m p0 of None \<Rightarrow> None
      | Some p1 \<Rightarrow>
          let is_neg = (m p1 = 45);
              p2 = (if is_neg then p1 + 1 else p1);
              (p, base) = number_prefix m p2 base0
          in map_option (\<lambda>(v, e). (reg_to_int (if is_neg then - v else v), e)) (number_loop m p base 0))"

definition strtoul :: "memory \<Rightarrow> u32 \<Rightarrow> int \<Rightarrow> (u32 \<times> u32) option" where
  "strtoul m p0 base0 =
     (case skip_space m p0 of None \<Rightarrow> None
      | Some p1 \<Rightarrow> let (p, base) = number_prefix m p1 base0 in number_loop m p base 0)"

section \<open>Random numbers\<close>

definition rand :: "u32 \<times> u32 \<Rightarrow> u32 \<times> (u32 \<times> u32)" where
  "rand sd =
     (let (s0, s1) = sd;
          s0 = s0 + 0xa859c317;
          s0 = s0 + (push_bit 13 s1 OR drop_bit 19 s1);
          s1 = s1 + s0
      in (s0 AND 0x7FFFFFFF, (s0, s1)))"

definition srand :: "u32 \<Rightarrow> u32 \<times> u32" where
  "srand new_seed = (new_seed, new_seed)"

section \<open>Lemmas\<close>

text \<open>The value of digits, most significant first.\<close>

definition digits_value :: "int \<Rightarrow> int list \<Rightarrow> int" where
  "digits_value base ds = foldl (\<lambda>v d. v * base + d) 0 ds"

lemma digits_value_snoc: "digits_value base (ds @ [d]) = digits_value base ds * base + d"
  by (simp add: digits_value_def)

lemma number_loop_eq:
  assumes "c_string m p (cs @ rest)" and "map (digit_value base) cs = map Some ds"
    and "rest = [] \<or> digit_value base (hd rest) = None"
  shows "number_loop m p base (word_of_int v) =
    Some (word_of_int (foldl (\<lambda>v d. v * base + d) v ds), p + of_nat (length cs))"
  using assms(1,2)
proof (induction cs arbitrary: p v ds)
  case Nil
  have "digit_value base (m p) = None"
    using Nil(1) assms(3) by (cases rest) (auto simp: digit_value_def)
  then show ?case using Nil by (subst number_loop.simps) simp
next
  case (Cons c cs)
  then obtain d ds' where ds: "ds = d # ds'" "digit_value base c = Some d" "map (digit_value base) cs = map Some ds'"
    by (cases ds) auto
  have "(word_of_int v * word_of_int base + word_of_int d :: u32) = word_of_int (v * base + d)" by simp
  moreover have "number_loop m (p + 1) base (word_of_int (v * base + d)) =
      Some (word_of_int (foldl (\<lambda>v d. v * base + d) (v * base + d) ds'), p + 1 + of_nat (length cs))"
    by (rule Cons.IH) (use Cons.prems(1) ds(3) in simp_all)
  ultimately show ?case
    using Cons.prems(1) ds by (subst number_loop.simps) (simp add: add.assoc)
qed

text \<open>
  The random generator never loses information: its step is injective on the two seed
  words, so every state lies on a cycle; and its results are non-negative as an int.
\<close>

theorem rand_permutes: "inj (\<lambda>sd. snd (rand sd)) \<and> fst (rand sd) < 0x80000000"
proof
  show "inj (\<lambda>sd. snd (rand sd))"
  proof (rule injI)
    fix x y assume e: "snd (rand x) = snd (rand y)"
    obtain a b c d where x: "x = (a, b)" and y: "y = (c, d)" by (cases x; cases y) auto
    let ?f = "\<lambda>s1 :: u32. push_bit 13 s1 OR drop_bit 19 s1"
    have e': "a + 0xa859c317 + ?f b = c + 0xa859c317 + ?f d
        \<and> b + (a + 0xa859c317 + ?f b) = d + (c + 0xa859c317 + ?f d)"
      by (rule e [unfolded rand_def Let_def x y prod.case snd_conv prod.inject])
    then have 1: "a + 0xa859c317 + ?f b = c + 0xa859c317 + ?f d" by blast
    have "b + (a + 0xa859c317 + ?f b) = d + (a + 0xa859c317 + ?f b)" using conjunct2 [OF e'] unfolding 1 .
    then have "b = d" by (rule add_right_imp_eq)
    with 1 show "x = y" by (simp add: x y)
  qed
  obtain a b where "sd = (a, b)" by (cases sd)
  moreover have "w AND 0x7FFFFFFF < 0x80000000" for w :: u32
  proof -
    have "w AND 0x7FFFFFFF \<le> 0x7FFFFFFF" by (rule word_and_le1)
    then show ?thesis by (rule le_less_trans) simp
  qed
  ultimately show "fst (rand sd) < 0x80000000" by (simp add: rand_def Let_def)
qed

end
