(* ===== verification/Printf.thy ===== *)
theory Printf
  imports C_Stdlib
begin

text \<open>
  tasks/libc/stdio/doprnt.c: the formatter behind printf and sprintf. It is a function from
  the format, a list of bytes without the final null, and the arguments to the bytes it
  hands to putc, one call each. Using up the arguments, dividing by base 0 (libgcc calls
  raise), reading a digit past the digit table or writing a digit before the buffer are
  errors.
\<close>

section \<open>Digits\<close>

text \<open>A byte string literal.\<close>

definition asc :: "string \<Rightarrow> u8 list" where
  "asc cs = map of_char cs"

text \<open>The table with its terminating null, and the size of the digit buffer.\<close>

definition digs :: "u8 list" where
  "digs = [48, 49, 50, 51, 52, 53, 54, 55, 56, 57, 97, 98, 99, 100, 101, 102, 0]"

definition MAXBUF :: nat where "MAXBUF = 32"

text \<open>The do loop that fills the buffer from its end, room bytes of which are free.\<close>

fun digits_loop :: "nat \<Rightarrow> 'a::len word \<Rightarrow> 'a word \<Rightarrow> u8 list \<Rightarrow> u8 list res" where
  "digits_loop 0 u base acc = Inl OutOfBounds"
| "digits_loop (Suc room) u base acc =
     (if base = 0 then Inl DivByZero
      else if unat (u mod base) \<ge> length digs then Inl OutOfBounds
      else let acc' = digs ! unat (u mod base) # acc; u' = u div base
           in if u' \<noteq> 0 then digits_loop room u' base acc' else Inr acc')"

definition printnum :: "u32 \<Rightarrow> int \<Rightarrow> u8 list res" where
  "printnum u base = digits_loop MAXBUF u (word_of_int base) []"

definition printnum_16 :: "u32 \<Rightarrow> u8 list" where
  "printnum_16 u = rev (map (\<lambda>i. digs ! unat (drop_bit (4 * i) u AND 0x0f)) [0..<8])"

section \<open>Arguments\<close>

text \<open>
  What va_arg finds: words (int, long, char*) and long longs. The thread id of %t is
  passed as two words.
\<close>

datatype va_arg = Word u32 | Long_long u64

type_synonym va_list = "va_arg list"

fun va_word :: "va_list \<Rightarrow> (u32 \<times> va_list) res" where
  "va_word (Word w # args) = Inr (w, args)"
| "va_word _ = Inl Undefined"

fun va_long_long :: "va_list \<Rightarrow> (u64 \<times> va_list) res" where
  "va_long_long (Long_long w # args) = Inr (w, args)"
| "va_long_long _ = Inl Undefined"

section \<open>Conversion specifications\<close>

record spec =
  field_length :: int
  prec :: int
  ladjust :: bool
  padc :: u8
  plus_sign :: u8
  sign_char :: u8
  altfmt :: bool
  longopt :: nat

definition no_spec :: spec where
  "no_spec = \<lparr>field_length = 0, prec = - 1, ladjust = False, padc = 32, plus_sign = 0, sign_char = 0,
     altfmt = False, longopt = 0\<rparr>"

text \<open>The flags: # - + and blank (35, 45, 43, 32).\<close>

fun parse_flags :: "u8 list \<Rightarrow> spec \<Rightarrow> spec \<times> u8 list" where
  "parse_flags [] sp = (sp, [])"
| "parse_flags (c # fmt) sp =
     (if c = 35 then parse_flags fmt (sp\<lparr>altfmt := True\<rparr>)
      else if c = 45 then parse_flags fmt (sp\<lparr>ladjust := True\<rparr>)
      else if c = 43 then parse_flags fmt (sp\<lparr>plus_sign := 43\<rparr>)
      else if c = 32 then parse_flags fmt (if plus_sign sp = 0 then sp\<lparr>plus_sign := 32\<rparr> else sp)
      else (sp, c # fmt))"

fun parse_number :: "int \<Rightarrow> u8 list \<Rightarrow> int \<times> u8 list" where
  "parse_number n [] = (n, [])"
| "parse_number n (c # fmt) =
     (if isdigit (uint c) then parse_number (10 * n + (uint c - 48)) fmt else (n, c # fmt))"

definition starts_with :: "(u8 \<Rightarrow> bool) \<Rightarrow> u8 list \<Rightarrow> bool" where
  "starts_with P fmt \<longleftrightarrow> fmt \<noteq> [] \<and> P (hd fmt)"

text \<open>The width: digits, or * and an argument, whose sign turns the adjustment around.\<close>

definition parse_width :: "spec \<Rightarrow> u8 list \<Rightarrow> va_list \<Rightarrow> (spec \<times> u8 list \<times> va_list) res" where
  "parse_width sp fmt args =
     (if starts_with (\<lambda>c. isdigit (uint c)) fmt
      then let (n, fmt') = parse_number (field_length sp) fmt in Inr (sp\<lparr>field_length := n\<rparr>, fmt', args)
      else if starts_with (\<lambda>c. c = 42) fmt
      then bind (va_word args) (\<lambda>(w, args').
             let n = reg_to_int w
             in Inr (if n < 0 then sp\<lparr>ladjust := \<not> ladjust sp, field_length := - n\<rparr>
                     else sp\<lparr>field_length := n\<rparr>, tl fmt, args'))
      else Inr (sp, fmt, args))"

definition parse_prec :: "spec \<Rightarrow> u8 list \<Rightarrow> va_list \<Rightarrow> (spec \<times> u8 list \<times> va_list) res" where
  "parse_prec sp fmt0 args =
     (if starts_with (\<lambda>c. c = 46) fmt0
      then let fmt = tl fmt0
           in if starts_with (\<lambda>c. isdigit (uint c)) fmt
              then let (n, fmt') = parse_number 0 fmt in Inr (sp\<lparr>prec := n\<rparr>, fmt', args)
              else if starts_with (\<lambda>c. c = 42) fmt
              then bind (va_word args) (\<lambda>(w, args'). Inr (sp\<lparr>prec := reg_to_int w\<rparr>, tl fmt, args'))
              else Inr (sp, fmt, args)
      else Inr (sp, fmt0, args))"

definition parse_spec :: "u8 list \<Rightarrow> va_list \<Rightarrow> (spec \<times> u8 list \<times> va_list) res" where
  "parse_spec fmt0 args0 =
     (let (sp1, fmt1) = parse_flags fmt0 no_spec;
          (sp2, fmt2) = (if starts_with (\<lambda>c. c = 48) fmt1 then (sp1\<lparr>padc := 48\<rparr>, tl fmt1) else (sp1, fmt1))
      in bind (parse_width sp2 fmt2 args0) (\<lambda>(sp3, fmt3, args1).
         bind (parse_prec sp3 fmt3 args1) (\<lambda>(sp4, fmt4, args2).
           Inr (sp4\<lparr>longopt := length (takeWhile (\<lambda>c. c = 108) fmt4)\<rparr>,
                dropWhile (\<lambda>c. c = 108) fmt4, args2))))"

section \<open>Numbers\<close>

definition doprnt_truncates :: bool where "doprnt_truncates = False"

definition pad :: "int \<Rightarrow> u8 \<Rightarrow> u8 list" where
  "pad n c = replicate (nat n) c"

text \<open>
  print_num: after a loop while (--length >= 0) the length is negative, so at most one of the
  three paddings is not empty.
\<close>

definition print_num :: "spec \<Rightarrow> bool \<Rightarrow> int \<Rightarrow> u64 \<Rightarrow> u8 list res" where
  "print_num sp trunc base u0 =
     (let u = (if trunc then scast (ucast u0 :: u32) else u0);
          prefix = (if u \<noteq> 0 \<and> altfmt sp
                    then (if base = 8 then [48] else if base = 16 then [48, 120] else []) else [])
      in bind (digits_loop MAXBUF u (word_of_int base) []) (\<lambda>ds.
           let l0 = field_length sp - int (length ds) - (if sign_char sp \<noteq> 0 then 1 else 0) - int (length prefix);
               blanks = (padc sp = 32 \<and> \<not> ladjust sp);
               l1 = (if blanks then min l0 0 - 1 else l0);
               zeros = (padc sp = 48);
               l2 = (if zeros then min l1 0 - 1 else l1)
           in Inr ((if blanks then pad l0 32 else []) @ (if sign_char sp \<noteq> 0 then [sign_char sp] else [])
                   @ prefix @ (if zeros then pad l1 48 else []) @ ds @ (if ladjust sp then pad l2 32 else []))))"

definition print_signed :: "spec \<Rightarrow> bool \<Rightarrow> int \<Rightarrow> va_list \<Rightarrow> (u8 list \<times> va_list) res" where
  "print_signed sp trunc base args =
     bind (if longopt sp > 1 then va_long_long args
           else bind (va_word args) (\<lambda>(w, args'). Inr (scast w, args'))) (\<lambda>(n, args').
       let (u, sp') = (if sint n \<ge> 0 then (n, sp\<lparr>sign_char := plus_sign sp\<rparr>) else (- n, sp\<lparr>sign_char := 45\<rparr>))
       in bind (print_num sp' trunc base u) (\<lambda>out. Inr (out, args')))"

definition print_unsigned :: "spec \<Rightarrow> bool \<Rightarrow> int \<Rightarrow> va_list \<Rightarrow> (u8 list \<times> va_list) res" where
  "print_unsigned sp trunc base args =
     bind (if longopt sp > 1 then va_long_long args
           else bind (va_word args) (\<lambda>(w, args'). Inr (ucast w, args'))) (\<lambda>(u, args').
       bind (print_num sp trunc base u) (\<lambda>out. Inr (out, args')))"

section \<open>Strings\<close>

text \<open>The characters of a string, at most prec of them.\<close>

fun s_chars :: "memory \<Rightarrow> u32 \<Rightarrow> nat \<Rightarrow> u8 list" where
  "s_chars m p 0 = []"
| "s_chars m p (Suc n) = (if m p = 0 then [] else m p # s_chars m (p + 1) n)"

text \<open>
  The second loop counts one more than it prints when the precision stops it; the padding on
  the right goes by that count.
\<close>

definition conv_s :: "memory \<Rightarrow> spec \<Rightarrow> va_list \<Rightarrow> (u8 list \<times> va_list) res" where
  "conv_s m sp args =
     bind (va_word args) (\<lambda>(p, args').
       let pr = (if prec sp = - 1 then 0x7fffffff else prec sp);
           cs = (if p = 0 then [] else s_chars m p (nat pr));
           cut = (p \<noteq> 0 \<and> m (p + of_nat (length cs)) \<noteq> 0);
           n = int (length cs) + (if cut then 1 else 0)
       in Inr ((if field_length sp > 0 \<and> \<not> ladjust sp then pad (field_length sp - int (length cs)) 32 else [])
               @ cs @ (if ladjust sp then pad (field_length sp - n) 32 else []), args'))"

section \<open>Registers\<close>

text \<open>
  %b: the description behind the base, up to its null. A bit or field number the shifts of
  the code are not defined for is an error.
\<close>

partial_function (option) get_string :: "memory \<Rightarrow> u32 \<Rightarrow> u8 list option" where
  "get_string m p =
     (if m p = 0 then Some []
      else Option.bind (get_string m (p + 1)) (\<lambda>cs. Some (m p # cs)))"

abbreviation name_part :: "u8 list \<Rightarrow> u8 list" where "name_part \<equiv> takeWhile (\<lambda>c. c > 32)"
abbreviation after_name :: "u8 list \<Rightarrow> u8 list" where "after_name \<equiv> dropWhile (\<lambda>c. c > 32)"

function b_fields :: "u64 \<Rightarrow> int \<Rightarrow> bool \<Rightarrow> u8 list \<Rightarrow> (u8 list \<times> bool) res" where
  "b_fields u base any [] = Inr ([], any)"
| "b_fields u base any [i] = Inl Undefined"
| "b_fields u base any (i # j # rest) =
     (let separator = (if any then 44 else 60) in
      if j \<le> 32
      then if j \<ge> 1 \<and> j \<le> i \<and> unat i - unat j \<le> 29
           then let field = drop_bit (unat j - 1) u AND (2 ^ (unat i - unat j + 1) - 1)
                in bind (printnum (ucast field) base) (\<lambda>ds.
                   bind (b_fields u base True (after_name rest)) (\<lambda>(out, any').
                     Inr (separator # name_part rest @ ds @ out, any')))
           else Inl Undefined
      else if i > 32 then Inl Undefined
      else if bit u (unat i - 1)
      then bind (b_fields u base True (after_name (j # rest))) (\<lambda>(out, any').
             Inr (separator # name_part (j # rest) @ out, any'))
      else b_fields u base any (after_name (j # rest)))"
  by pat_completeness auto
termination
  by (relation "measure (\<lambda>(u, base, any, cs). length cs)")
    (auto simp: less_Suc_eq_le le_SucI length_dropWhile_le)

declare b_fields.simps [simp del]

definition conv_b :: "memory \<Rightarrow> va_list \<Rightarrow> (u8 list \<times> va_list) res" where
  "conv_b m args =
     bind (va_word args) (\<lambda>(u, args1).
     bind (va_word args1) (\<lambda>(p, args2).
       let base = uint (m p)
       in bind (printnum u base) (\<lambda>ds.
            if u = 0 then Inr (ds, args2)
            else case get_string m (p + 1) of None \<Rightarrow> Inl Diverges
              | Some desc \<Rightarrow> bind (b_fields (ucast u) base False desc) (\<lambda>(out, any).
                  Inr (ds @ out @ (if any then [62] else []), args2)))))"

text \<open>%t: an L4 thread id; its lthread and task numbers are bit fields of the first word.\<close>

definition conv_t :: "spec \<Rightarrow> va_list \<Rightarrow> (u8 list \<times> va_list) res" where
  "conv_t sp args =
     bind (va_word args) (\<lambda>(high, args1).
     bind (va_word args1) (\<lambda>(low, args2).
       let len = field_length sp;
           opening = (if altfmt sp then [91] else []);
           closing = (if altfmt sp then [93] else [])
       in if longopt sp > 0
          then let n0 = (if altfmt sp then 19 else 17);
                   left = (if len > 0 \<and> \<not> ladjust sp then pad (len - n0) 32 else []);
                   n1 = n0 + int (length left);
                   right = (if len > 0 \<and> ladjust sp then pad (len - n1) 32 else [])
               in Inr (left @ opening @ printnum_16 high @ [58] @ printnum_16 low @ closing @ right, args2)
          else let lthread = drop_bit 10 high AND 0x7f;
                   task = drop_bit 17 high AND 0x7ff;
                   n0 = (if altfmt sp then 4 else 2) + (if task \<ge> 0x10 then 1 else 0)
                        + (if task \<ge> 0x100 then 1 else 0);
                   k = 1 + (if lthread \<ge> 0x10 then 1 else 0);
                   pad1 = (if len > 0 \<and> \<not> ladjust sp \<and> padc sp = 32 then pad (len - 2 - n0) 32 else []);
                   n1 = n0 + int (length pad1);
                   pad2 = (if len > 0 \<and> \<not> ladjust sp \<and> padc sp = 48 then pad (len - 2 - n1) 48 else []);
                   n2 = n1 + int (length pad2);
                   pad3 = (if len > 0 \<and> \<not> ladjust sp then pad (len - k - n2) (padc sp) else []);
                   n3 = n2 + int (length pad3);
                   pad4 = (if ladjust sp then pad (len - k - n3) 32 else [])
               in bind (printnum task 16) (\<lambda>ts. bind (printnum lthread 16) (\<lambda>ls.
                    Inr (pad1 @ opening @ pad2 @ ts @ [46] @ pad3 @ ls @ closing @ pad4, args2)))))"

section \<open>The formatter\<close>

text \<open>The switch: one conversion, by its letter; any other letter is printed.\<close>

definition convert :: "memory \<Rightarrow> int \<Rightarrow> spec \<Rightarrow> u8 \<Rightarrow> va_list \<Rightarrow> (u8 list \<times> va_list) res" where
  "convert m radix sp k args =
     (if k = 98 \<or> k = 66 then conv_b m args
      else if k = 99 then bind (va_word args) (\<lambda>(c, args'). Inr ([ucast c], args'))
      else if k = 116 then conv_t sp args
      else if k = 115 then conv_s m sp args
      else if k = 111 then print_unsigned sp doprnt_truncates 8 args
      else if k = 79 then print_unsigned sp False 8 args
      else if k = 100 then print_signed sp doprnt_truncates 10 args
      else if k = 68 then print_signed sp False 10 args
      else if k = 117 then print_unsigned sp doprnt_truncates 10 args
      else if k = 85 then print_unsigned sp False 10 args
      else if k = 112 then
        bind (print_unsigned (sp\<lparr>padc := 48, field_length := 8\<rparr>) doprnt_truncates 16 args)
          (\<lambda>(out, args'). Inr (48 # 120 # out, args'))
      else if k = 120 then print_unsigned sp doprnt_truncates 16 args
      else if k = 88 then print_unsigned sp False 16 args
      else if k = 122 then print_signed sp doprnt_truncates 16 args
      else if k = 90 then print_signed sp False 16 args
      else if k = 114 then print_signed sp doprnt_truncates radix args
      else if k = 82 then print_signed sp False radix args
      else if k = 110 then print_unsigned sp doprnt_truncates radix args
      else if k = 78 then print_unsigned sp False radix args
      else Inr ([k], args))"

text \<open>What parsing leaves is no longer than the format.\<close>

lemma parse_flags_length: "length (snd (parse_flags fmt sp)) \<le> length fmt"
  by (induction fmt arbitrary: sp) (auto intro: le_SucI)

lemma parse_number_length: "length (snd (parse_number n fmt)) \<le> length fmt"
  by (induction fmt arbitrary: n) (auto intro: le_SucI)

lemma parse_width_length: "parse_width sp fmt args = Inr (sp', fmt', args') \<Longrightarrow> length fmt' \<le> length fmt"
  using parse_number_length [of "field_length sp" fmt]
  by (auto simp: parse_width_def bind_eq_Inr Let_def split: if_splits prod.splits)

lemma parse_prec_length: "parse_prec sp fmt args = Inr (sp', fmt', args') \<Longrightarrow> length fmt' \<le> length fmt"
  using parse_number_length [of 0 "tl fmt"]
  by (auto simp: parse_prec_def bind_eq_Inr Let_def split: if_splits prod.splits)

lemma parse_spec_length: "parse_spec fmt args = Inr (sp', fmt', args') \<Longrightarrow> length fmt' \<le> length fmt"
proof -
  assume "parse_spec fmt args = Inr (sp', fmt', args')"
  then obtain sp1 fmt1 sp2 fmt2 sp3 fmt3 args1 sp4 fmt4 where
    "parse_flags fmt no_spec = (sp1, fmt1)"
    "(if starts_with (\<lambda>c. c = 48) fmt1 then (sp1\<lparr>padc := 48\<rparr>, tl fmt1) else (sp1, fmt1)) = (sp2, fmt2)"
    "parse_width sp2 fmt2 args = Inr (sp3, fmt3, args1)" "parse_prec sp3 fmt3 args1 = Inr (sp4, fmt4, args')"
    "fmt' = dropWhile (\<lambda>c. c = 108) fmt4"
    by (auto simp: parse_spec_def Let_def bind_eq_Inr split: prod.splits)
  then have "length fmt1 \<le> length fmt" "length fmt2 \<le> length fmt1" "length fmt3 \<le> length fmt2"
    "length fmt4 \<le> length fmt3" "length fmt' \<le> length fmt4"
    using parse_flags_length [of fmt no_spec] parse_width_length parse_prec_length length_dropWhile_le
    by (auto split: if_splits)
  then show "length fmt' \<le> length fmt" by linarith
qed

lemma bind_cong [fundef_cong]:
  "r = r' \<Longrightarrow> (\<And>x. r' = Inr x \<Longrightarrow> f x = f' x) \<Longrightarrow> bind r f = bind r' f'"
  by (cases r') auto

function doprnt :: "memory \<Rightarrow> int \<Rightarrow> u8 list \<Rightarrow> va_list \<Rightarrow> u8 list res" where
  "doprnt m radix [] args = Inr []"
| "doprnt m radix (c # fmt) args =
     (if c \<noteq> 37 then bind (doprnt m radix fmt args) (\<lambda>out. Inr (c # out))
      else bind (parse_spec fmt args) (\<lambda>(sp, fmt1, args1).
        case fmt1 of [] \<Rightarrow> Inr []
        | k # fmt2 \<Rightarrow> bind (convert m radix sp k args1) (\<lambda>(out, args2).
            bind (doprnt m radix fmt2 args2) (\<lambda>rest. Inr (out @ rest)))))"
  by pat_completeness auto
termination
  by (relation "measure (\<lambda>(m, radix, fmt, args). length fmt)")
    (auto dest: parse_spec_length)

declare doprnt.simps [simp del]

end
