(* ===== verification/C_String_Props.thy ===== *)
theory C_String_Props
  imports C_String
begin

text \<open>
  What the functions of tasks/libc/string compute, on strings given as lists of bytes and
  on blocks given as regions of memory.
\<close>

section \<open>Copies\<close>

lemma strlen_loop_eq: "c_string m a cs \<Longrightarrow> strlen_loop m a = Some (a + of_nat (length cs) + 1)"
proof (induction cs arbitrary: a)
  case Nil
  then show ?case by (simp add: strlen_loop.simps)
next
  case (Cons c cs)
  then show ?case by (subst strlen_loop.simps) (simp add: algebra_simps)
qed

lemma strlen_eq: "c_string m a cs \<Longrightarrow> strlen m a = Some (of_nat (length cs))"
  by (simp add: strlen_def strlen_loop_eq)

lemma skip_to_null_eq: "c_string m a cs \<Longrightarrow> skip_to_null m a = Some (a + of_nat (length cs))"
proof (induction cs arbitrary: a)
  case Nil
  then show ?case by (simp add: skip_to_null.simps)
next
  case (Cons c cs)
  then show ?case by (subst skip_to_null.simps) (simp add: algebra_simps)
qed

lemma strcpy_loop_eq:
  "c_string m from cs \<Longrightarrow> apart to (Suc (length cs)) from (Suc (length cs))
     \<Longrightarrow> strcpy_loop m to from = Some (write_bytes m to (cs @ [0]))"
proof (induction cs arbitrary: m to "from")
  case Nil
  then show ?case by (simp add: strcpy_loop.simps Let_def fun_eq_iff)
next
  case (Cons c cs)
  let ?m = "m(to := c)"
  have "\<not> in_region from (Suc (length (c # cs))) to" using apart_first [OF Cons.prems(2)] by simp
  then have "c_string ?m from (c # cs)" using Cons.prems(1) by (rule c_string_upd [THEN iffD2])
  then have "c_string ?m (from + 1) cs" by simp
  moreover have "apart (to + 1) (Suc (length cs)) (from + 1) (Suc (length cs))"
    using Cons.prems(2) by (simp add: apart_tl)
  ultimately have "strcpy_loop ?m (to + 1) (from + 1) = Some (write_bytes ?m (to + 1) (cs @ [0]))"
    by (rule Cons.IH)
  then show ?case
    using Cons.prems(1) by (subst strcpy_loop.simps) (simp add: Let_def)
qed

section \<open>Blocks, exactly\<close>

lemma region_index: "in_region a n x \<longleftrightarrow> (\<exists>i<n. i < 2 ^ 32 \<and> x = a + of_nat i)"
proof
  assume "in_region a n x"
  then have "unat (x - a) < n" "x = a + of_nat (unat (x - a))" by (simp_all add: in_region_def)
  then show "\<exists>i<n. i < 2 ^ 32 \<and> x = a + of_nat i" using unat_u32_less [of "x - a"] by auto
next
  assume "\<exists>i<n. i < 2 ^ 32 \<and> x = a + of_nat i"
  then obtain i where i: "i < n" "i < 2 ^ 32" "x = a + of_nat i" by blast
  then have "unat (x - a) = i" by (simp add: unat_of_nat_u32)
  then show "in_region a n x" using i by (simp add: in_region_def)
qed

lemma region_Suc: "n < 2 ^ 32 \<Longrightarrow> in_region a (Suc n) x \<longleftrightarrow> in_region a n x \<or> x = a + of_nat n"
  by (auto simp: region_index less_Suc_eq)

lemma region_Suc': "n < 2 ^ 32 \<Longrightarrow> in_region a (Suc n) x \<longleftrightarrow> x = a \<or> in_region (a + 1) n x"
proof -
  have "(\<exists>i<Suc n. i < 2 ^ 32 \<and> x = a + of_nat i) \<longleftrightarrow> x = a \<or> (\<exists>i<n. Suc i < 2 ^ 32 \<and> x = a + of_nat (Suc i))"
    unfolding Ex_less_Suc2 by simp
  then show "n < 2 ^ 32 \<Longrightarrow> ?thesis" by (auto simp: region_index add.assoc)
qed

lemma memset_loop_eq:
  "n \<le> 2 ^ 32 \<Longrightarrow> memset_loop n m a c = (\<lambda>x. if in_region a n x then c else m x)"
proof (induction n arbitrary: m a)
  case 0
  then show ?case by (simp add: in_region_def)
next
  case (Suc n)
  then show ?case using region_Suc' [of n a] by (auto simp: fun_eq_iff)
qed

lemma memmove_down_eq:
  assumes "n \<le> 2 ^ 32" "\<And>i j. i < n \<Longrightarrow> j < i \<Longrightarrow> s + of_nat j \<noteq> d + of_nat i"
  shows "memmove_down n m d s = (\<lambda>x. if in_region d n x then m (s + (x - d)) else m x)"
  using assms
proof (induction n arbitrary: m)
  case 0
  then show ?case by (simp add: in_region_def)
next
  case (Suc n)
  let ?m = "m(d + of_nat n := m (s + of_nat n))"
  have n: "n < 2 ^ 32" using Suc.prems(1) by simp
  have nin: "\<not> in_region d n (d + of_nat n)" using n by (simp add: in_region_def unat_of_nat_u32)
  have *: "?m (s + (x - d)) = m (s + (x - d))" if "in_region d n x" for x
  proof -
    obtain j where "j < n" "x = d + of_nat j" using \<open>in_region d n x\<close> region_index by blast
    then show ?thesis using Suc.prems(2) [of n j] by simp
  qed
  have "memmove_down n ?m d s = (\<lambda>x. if in_region d n x then ?m (s + (x - d)) else ?m x)"
    by (rule Suc.IH) (use Suc.prems in auto)
  then show ?case using * nin by (auto simp: fun_eq_iff region_Suc [OF n])
qed

lemma memmove_up_eq:
  assumes "n + i \<le> 2 ^ 32" "\<And>a b. b < n + i \<Longrightarrow> a < b \<Longrightarrow> s + of_nat b \<noteq> d + of_nat a"
  shows "memmove_up n (of_nat i) m d s
    = (\<lambda>x. if in_region d (n + i) x \<and> \<not> in_region d i x then m (s + (x - d)) else m x)"
  using assms
proof (induction n arbitrary: m i)
  case 0
  then show ?case by auto
next
  case (Suc n)
  let ?m = "m(d + of_nat i := m (s + of_nat i))"
  have i: "i < 2 ^ 32" using Suc.prems(1) by simp
  have nin: "\<not> in_region d i (d + of_nat i)" and inn: "in_region d (Suc (n + i)) (d + of_nat i)"
    using i by (simp_all add: in_region_def unat_of_nat_u32)
  have *: "?m (s + (x - d)) = m (s + (x - d))" if x: "in_region d (n + Suc i) x" "\<not> in_region d (Suc i) x" for x
  proof -
    obtain j where j: "j < n + Suc i" "j < 2 ^ 32" "x = d + of_nat j" using x(1) region_index by blast
    then have "i < j" using x(2) region_index by (metis not_less_eq)
    then show ?thesis using Suc.prems(2) [of j i] j by simp
  qed
  have "memmove_up n (of_nat (Suc i)) ?m d s
      = (\<lambda>x. if in_region d (n + Suc i) x \<and> \<not> in_region d (Suc i) x then ?m (s + (x - d)) else ?m x)"
    by (rule Suc.IH) (use Suc.prems in auto)
  then show ?case using * nin inn by (auto simp: fun_eq_iff region_Suc [OF i] add.commute)
qed

lemma uint_ucast_u8: "uint (ucast a :: u32) = uint (a :: u8)"
  using uint_bounded [of a] by (simp add: unsigned_ucast_eq take_bit_int_eq_self)

lemma u8_conv [simp]:
  "uint (a :: u8) = uint b \<longleftrightarrow> a = b" "uint (a :: u8) = 0 \<longleftrightarrow> a = 0"
  "(ucast (a :: u8) :: u32) = ucast b \<longleftrightarrow> a = b" "(ucast (a :: u8) :: u32) = 0 \<longleftrightarrow> a = 0"
proof -
  show eq: "uint a = uint b \<longleftrightarrow> a = b" for a b :: u8 by (simp add: word_uint_eq_iff)
  show "uint a = 0 \<longleftrightarrow> a = 0" using eq [of a 0] by simp
  have u: "uint (ucast a :: u32) = uint a" for a :: u8 by (rule uint_ucast_u8)
  show ueq: "(ucast a :: u32) = ucast b \<longleftrightarrow> a = b" for a b :: u8
    unfolding word_uint_eq_iff [of "ucast a :: u32"] u by (rule eq)
  show "(ucast a :: u32) = 0 \<longleftrightarrow> a = 0" using ueq [of a 0] by simp
qed

lemma byte_diff: "reg_to_int (ucast (a :: u8) - ucast (b :: u8) :: u32) = uint a - uint b"
proof -
  have r: "uint a < 256" "uint b < 256" "0 \<le> uint a" "0 \<le> uint b"
    using uint_bounded [of a] uint_bounded [of b] by simp_all
  have "(ucast a - ucast b :: u32) = word_of_int (uint a - uint b)"
    unfolding word_sub_wi [of "ucast a"] uint_ucast_u8 ..
  moreover have "sint (word_of_int (uint a - uint b) :: u32) = uint a - uint b"
    using sint_of_int_u32 [of "uint a - uint b"] r by auto
  ultimately show ?thesis by (simp add: reg_to_int_def)
qed

lemma memcmp_loop_zero: "n \<le> 2 ^ 32 \<Longrightarrow> memcmp_loop n m a b = 0 \<longleftrightarrow> bytes m a n = bytes m b n"
proof (induction n arbitrary: a b)
  case (Suc n)
  then show ?case by (auto simp: bytes_Suc Let_def byte_diff)
qed simp

section \<open>Comparisons\<close>

text \<open>The difference at the first place where two strings differ, the null included.\<close>

fun first_diff :: "u8 list \<Rightarrow> u8 list \<Rightarrow> int" where
  "first_diff [] [] = 0"
| "first_diff (c # cs) [] = uint c"
| "first_diff [] (d # ds) = - uint d"
| "first_diff (c # cs) (d # ds) = (if c = d then first_diff cs ds else uint c - uint d)"

lemma strcmp_end: "m a = 0 \<or> m b = 0 \<Longrightarrow> strcmp m a b = Some (uint (m a) - uint (m b))"
  unfolding strcmp.simps [of m a b] Let_def byte_diff u8_conv by auto

lemma strcmp_eq: "c_string m a cs \<Longrightarrow> c_string m b ds \<Longrightarrow> strcmp m a b = Some (first_diff cs ds)"
proof (induction cs ds arbitrary: a b rule: first_diff.induct)
  case (4 c cs d ds)
  then show ?case by (subst strcmp.simps) (auto simp: Let_def byte_diff)
qed (auto simp: strcmp_end)

lemma first_diff_zero: "0 \<notin> set cs \<Longrightarrow> 0 \<notin> set ds \<Longrightarrow> first_diff cs ds = 0 \<longleftrightarrow> cs = ds"
  by (induction cs ds rule: first_diff.induct) auto

lemma first_diff_less:
  "0 \<notin> set cs \<Longrightarrow> 0 \<notin> set ds \<Longrightarrow> first_diff cs ds < 0 \<longleftrightarrow> (cs, ds) \<in> lexord {(x, y). x < y}"
proof (induction cs ds rule: first_diff.induct)
  case (3 d ds)
  then have "0 < uint d" by (simp add: uint_0_iff order_less_le)
  then show ?case by simp
next
  case (4 c cs d ds)
  then show ?case by (auto simp: word_less_def)
qed auto

lemma strncmp_loop_eq:
  "c_string m a cs \<Longrightarrow> c_string m b ds \<Longrightarrow> strncmp_loop n m a b = first_diff (take n cs) (take n ds)"
proof (induction n arbitrary: a b cs ds)
  case (Suc n)
  then show ?case by (cases cs; cases ds) auto
qed simp

section \<open>Searches\<close>

lemma in_set_eq: "c_string m a cs \<Longrightarrow> in_set m a c = Some (c \<in> set cs)" for c
proof (induction cs arbitrary: a)
  case Nil
  then show ?case by (simp add: in_set.simps)
next
  case (Cons d cs)
  then show ?case by (subst in_set.simps) auto
qed

lemma in_set_or_null_eq: "c_string m a cs \<Longrightarrow> in_set_or_null m a c = Some (c = 0 \<or> c \<in> set cs)" for c
proof (induction cs arbitrary: a)
  case Nil
  then show ?case by (subst in_set_or_null.simps) auto
next
  case (Cons d cs)
  then show ?case by (subst in_set_or_null.simps) auto
qed

lemma strspn_loop_eq:
  "c_string m a cs \<Longrightarrow> c_string m b ds
     \<Longrightarrow> strspn_loop m a b = Some (a + of_nat (length (takeWhile (\<lambda>c. c \<in> set ds) cs)) + 1)"
proof (induction cs arbitrary: a)
  case Nil
  then show ?case using c_string_nonzero [of m b ds] by (subst strspn_loop.simps) (simp add: in_set_eq)
next
  case (Cons c cs)
  then show ?case by (subst strspn_loop.simps) (auto simp: in_set_eq algebra_simps)
qed

lemma strcspn_loop_eq:
  "c_string m a cs \<Longrightarrow> c_string m b ds
     \<Longrightarrow> strcspn_loop m a b = Some (a + of_nat (length (takeWhile (\<lambda>c. c \<notin> set ds) cs)) + 1)"
proof (induction cs arbitrary: a)
  case Nil
  then show ?case by (subst strcspn_loop.simps) (simp add: in_set_or_null_eq)
next
  case (Cons c cs)
  then show ?case by (subst strcspn_loop.simps) (auto simp: in_set_or_null_eq algebra_simps)
qed

text \<open>The position of the first element of a list with a property, if there is one.\<close>

fun find_at :: "(u8 \<Rightarrow> bool) \<Rightarrow> u32 \<Rightarrow> u8 list \<Rightarrow> u32 option" where
  "find_at P a [] = None"
| "find_at P a (c # cs) = (if P c then Some a else find_at P (a + 1) cs)"

definition or_null :: "u32 option \<Rightarrow> u32" where
  "or_null p = (case p of None \<Rightarrow> 0 | Some a \<Rightarrow> a)"

lemma strpbrk_eq:
  "c_string m a cs \<Longrightarrow> c_string m b ds \<Longrightarrow> strpbrk m a b = Some (or_null (find_at (\<lambda>c. c \<in> set ds) a cs))"
proof (induction cs arbitrary: a)
  case Nil
  then show ?case by (subst strpbrk.simps) (simp add: or_null_def)
next
  case (Cons c cs)
  then show ?case by (subst strpbrk.simps) (auto simp: in_set_eq or_null_def)
qed

lemma strchr_eq:
  "c_string m a cs \<Longrightarrow> strchr m a (uint c) = Some (or_null (find_at (\<lambda>x. x = c) a (cs @ [0])))"
proof (induction cs arbitrary: a)
  case Nil
  then show ?case by (subst strchr.simps) (auto simp: or_null_def)
next
  case (Cons d cs)
  then show ?case by (subst strchr.simps) (auto simp: or_null_def)
qed

lemma strrchr_loop_eq:
  "c_string m a cs \<Longrightarrow> \<exists>r. strrchr_loop m a (uint c) save = Some r \<and> (c \<notin> set cs \<longrightarrow> r = save)
     \<and> (\<forall>i<length cs. cs ! i = c \<and> c \<notin> set (drop (Suc i) cs) \<longrightarrow> r = a + of_nat i)"
proof (induction cs arbitrary: a save)
  case Nil
  then show ?case by (simp add: strrchr_loop.simps)
next
  case (Cons d cs)
  then obtain r where r: "strrchr_loop m (a + 1) (uint c) (if d = c then a else save) = Some r"
    "c \<notin> set cs \<longrightarrow> r = (if d = c then a else save)"
    "\<forall>i<length cs. cs ! i = c \<and> c \<notin> set (drop (Suc i) cs) \<longrightarrow> r = a + 1 + of_nat i"
    by fastforce
  have "strrchr_loop m a (uint c) save = Some r"
    using Cons.prems r(1) by (subst strrchr_loop.simps) (auto split: if_splits)
  moreover have "r = a + of_nat i" if "i < length (d # cs)" "(d # cs) ! i = c" "c \<notin> set (drop (Suc i) (d # cs))" for i
    using that r(2,3) by (cases i) (auto simp: add.assoc)
  ultimately show ?case using r(2) by auto
qed

lemma bytes_drop: "c_string m a cs \<Longrightarrow> i + n \<le> length cs \<Longrightarrow> bytes m (a + of_nat i) n = take n (drop i cs)"
proof (rule nth_equalityI)
  fix k assume "c_string m a cs" "i + n \<le> length cs" "k < length (bytes m (a + of_nat i) n)"
  then show "bytes m (a + of_nat i) n ! k = take n (drop i cs) ! k"
    using c_string_nth [of m a cs "i + k"] by (simp add: bytes_def add.assoc)
qed simp

text \<open>Occurrences of one string in another, and the first of them.\<close>

definition occurs_at :: "u8 list \<Rightarrow> u8 list \<Rightarrow> nat \<Rightarrow> bool" where
  "occurs_at ns hs i \<longleftrightarrow> i + length ns \<le> length hs \<and> take (length ns) (drop i hs) = ns"

lemma strstr_loop_eq:
  assumes "c_string m h hs" "c_string m n ns" "length ns < 2 ^ 31" "i \<le> length hs"
  shows "(\<forall>j\<ge>i. \<not> occurs_at ns hs j) \<and> strstr_loop m (h + of_nat i) n (int (length hs - i)) (int (length ns)) = 0
    \<or> (\<exists>j\<ge>i. occurs_at ns hs j \<and> (\<forall>k<j. i \<le> k \<longrightarrow> \<not> occurs_at ns hs k)
          \<and> strstr_loop m (h + of_nat i) n (int (length hs - i)) (int (length ns)) = h + of_nat j)"
  using assms(4)
proof (induction "length hs - i" arbitrary: i)
  case 0
  then have i: "i = length hs" by simp
  show ?case
  proof (cases "ns = []")
    case True
    then have "occurs_at ns hs i" using i by (simp add: occurs_at_def)
    moreover have "strstr_loop m (h + of_nat i) n (int (length hs - i)) (int (length ns)) = h + of_nat i"
      using True i by (subst strstr_loop.simps) (simp add: memcmp_def)
    ultimately show ?thesis by (intro disjI2 exI [of _ i]) auto
  next
    case False
    then show ?thesis using i by (subst strstr_loop.simps) (auto simp: occurs_at_def)
  qed
next
  case (Suc k)
  have here: "memcmp m (h + of_nat i) n (word_of_int (int (length ns))) = 0 \<longleftrightarrow> occurs_at ns hs i"
    if "length ns \<le> length hs - i"
  proof -
    have "unat (word_of_int (int (length ns)) :: u32) = length ns"
      using assms(3) by (simp add: unat_of_nat_u32)
    moreover have "bytes m n (length ns) = ns" using bytes_drop [OF assms(2), of 0 "length ns"] by simp
    ultimately show ?thesis
      using that Suc.prems assms(3) bytes_drop [OF assms(1), of i "length ns"]
      by (auto simp: memcmp_def memcmp_loop_zero occurs_at_def)
  qed
  show ?case
  proof (cases "length ns \<le> length hs - i")
    case False
    then have "\<not> occurs_at ns hs j" if "i \<le> j" for j using that by (auto simp: occurs_at_def)
    then show ?thesis using False by (subst strstr_loop.simps) simp
  next
    case True
    show ?thesis
    proof (cases "occurs_at ns hs i")
      case occ: True
      then show ?thesis
        using True here by (intro disjI2 exI [of _ i]) (subst strstr_loop.simps, auto)
    next
      case nocc: False
      have i: "i < length hs" using Suc.hyps(2) by simp
      then have "int (length hs - i) - 1 = int (length hs - Suc i)" by simp
      moreover have "h + of_nat i + 1 = h + of_nat (Suc i)" by simp
      moreover have "memcmp m (h + of_nat i) n (word_of_int (int (length ns))) \<noteq> 0" "int (length ns) \<le> int (length hs - i)"
        using True here nocc by simp_all
      ultimately have step: "strstr_loop m (h + of_nat i) n (int (length hs - i)) (int (length ns))
          = strstr_loop m (h + of_nat (Suc i)) n (int (length hs - Suc i)) (int (length ns))"
        by (subst strstr_loop.simps) (simp only: if_True if_False)
      have skip: "i \<le> j \<Longrightarrow> occurs_at ns hs j \<Longrightarrow> Suc i \<le> j" for j
        using nocc by (cases "i = j") auto
      have "k = length hs - Suc i" "Suc i \<le> length hs" using Suc.hyps(2) i by simp_all
      from Suc.hyps(1) [OF this] show ?thesis
      proof (elim disjE exE conjE)
        assume "\<forall>j\<ge>Suc i. \<not> occurs_at ns hs j"
          "strstr_loop m (h + of_nat (Suc i)) n (int (length hs - Suc i)) (int (length ns)) = 0"
        then show ?thesis unfolding step by (intro disjI1) (use skip in blast)
      next
        fix j assume "Suc i \<le> j" "occurs_at ns hs j" "\<forall>k<j. Suc i \<le> k \<longrightarrow> \<not> occurs_at ns hs k"
          "strstr_loop m (h + of_nat (Suc i)) n (int (length hs - Suc i)) (int (length ns)) = h + of_nat j"
        then show ?thesis unfolding step by (intro disjI2 exI [of _ j]) (use skip in auto)
      qed
    qed
  qed
qed

lemma write_bytes_nth:
  "length cs \<le> 2 ^ 32 \<Longrightarrow> i < length cs \<Longrightarrow> write_bytes m a cs (a + of_nat i) = cs ! i"
proof (induction cs arbitrary: m a i)
  case (Cons c cs)
  show ?case
  proof (cases i)
    case 0
    have "\<not> in_region (a + 1) (length cs) a" using Cons.prems by (intro not_in_tail) simp
    then show ?thesis using 0 by (simp add: write_bytes_other)
  next
    case (Suc j)
    have eq: "a + of_nat (Suc j) = a + 1 + of_nat j" by simp
    show ?thesis
      unfolding write_bytes.simps Suc eq nth_Cons_Suc
      by (rule Cons.IH) (use Cons.prems Suc in simp_all)
  qed
qed simp

lemma strncpy_copy_eq:
  "c_string m from cs \<Longrightarrow> n \<le> length cs \<Longrightarrow> apart to n from (Suc (length cs))
     \<Longrightarrow> strncpy_copy n m to from = (write_bytes m to (take n cs), to + of_nat n, - 1)"
proof (induction n arbitrary: m to "from" cs)
  case (Suc n)
  then obtain c ds where cs: "cs = c # ds" by (cases cs) auto
  let ?m = "m(to := c)"
  have "\<not> in_region from (Suc (length cs)) to" using apart_first [OF Suc.prems(3)] by simp
  then have "c_string ?m from cs" using Suc.prems(1) by (rule c_string_upd [THEN iffD2])
  then have "c_string ?m (from + 1) ds" by (simp add: cs)
  moreover have "n \<le> length ds" using Suc.prems(2) cs by simp
  moreover have "apart (to + 1) n (from + 1) (Suc (length ds))"
    using Suc.prems(3) by (simp add: cs apart_tl)
  ultimately have "strncpy_copy n ?m (to + 1) (from + 1) = (write_bytes ?m (to + 1) (take n ds), to + 1 + of_nat n, - 1)"
    by (rule Suc.IH)
  then show ?case using Suc.prems(1) by (simp add: cs Let_def add.assoc)
qed simp

text \<open>A region that does not wrap is an interval.\<close>

lemma in_region_interval:
  assumes "unat a + n \<le> 2 ^ 32" shows "in_region a n x \<longleftrightarrow> unat a \<le> unat x \<and> unat x < unat a + n"
proof
  assume "in_region a n x"
  then obtain i where i: "i < n" "x = a + of_nat i" using region_index by blast
  then have "unat x = unat a + i" using assms by (simp add: unat_word_ariths unat_of_nat_u32)
  then show "unat a \<le> unat x \<and> unat x < unat a + n" using i by simp
next
  assume r: "unat a \<le> unat x \<and> unat x < unat a + n"
  then have "unat (x - a) = unat x - unat a" by (simp add: unat_sub word_le_nat_alt)
  then show "in_region a n x" using r unfolding in_region_def by linarith
qed

lemma apart_below: "unat a + n \<le> unat b \<Longrightarrow> unat b + k \<le> 2 ^ 32 \<Longrightarrow> apart a n b k"
  using in_region_interval [of a n] in_region_interval [of b k] unat_u32_less [of b] by (auto simp: apart_def)

section \<open>Properties\<close>

text \<open>
  strcpy: when the destination does not overlap the string, it becomes the same string,
  and nothing outside of it changes.
\<close>

theorem strcpy_copies:
  assumes "c_string m from cs" and "length cs < 2 ^ 32" and "apart to (Suc (length cs)) from (Suc (length cs))"
  shows "\<exists>m'. strcpy m to from = Some (to, m') \<and> c_string m' to cs \<and> c_string m' from cs
    \<and> (\<forall>x. \<not> in_region to (Suc (length cs)) x \<longrightarrow> m' x = m x)"
proof -
  let ?m = "write_bytes m to (cs @ [0])"
  have "strcpy m to from = Some (to, ?m)"
    using strcpy_loop_eq [OF assms(1,3)] by (simp add: strcpy_def)
  moreover have "c_string ?m to cs"
    by (rule c_string_write [OF assms(2) c_string_nonzero [OF assms(1)]])
  moreover have *: "\<forall>x. \<not> in_region to (Suc (length cs)) x \<longrightarrow> ?m x = m x"
    using write_bytes_other [of to "cs @ [0]"] by simp
  moreover have "c_string ?m from cs"
  proof -
    have "?m x = m x" if "in_region from (Suc (length cs)) x" for x
    proof -
      have "\<not> in_region to (Suc (length cs)) x" using that assms(3) unfolding apart_def by blast
      then show ?thesis using * by blast
    qed
    then show ?thesis by (rule c_string_cong [OF assms(1)])
  qed
  ultimately show ?thesis by blast
qed

text \<open>
  strcmp returns the sign of the lexicographic order, and 0 only for equal strings.
\<close>

theorem strcmp_lexicographic:
  assumes "c_string m a cs" and "c_string m b ds"
  shows "\<exists>r. strcmp m a b = Some r \<and> (r = 0 \<longleftrightarrow> cs = ds) \<and> (r < 0 \<longleftrightarrow> (cs, ds) \<in> lexord {(x, y). x < y})"
proof -
  have "0 \<notin> set cs" "0 \<notin> set ds" using c_string_nonzero assms by auto
  then show ?thesis
    using strcmp_eq [OF assms] by (intro exI [of _ "first_diff cs ds"] conjI first_diff_zero first_diff_less)
qed

text \<open>
  C39: memmove copies correctly whichever way the blocks overlap, as long as neither wraps
  around the address space.
\<close>

theorem memmove_exact:
  assumes "unat dest + unat cnt \<le> 2 ^ 32" and "unat src + unat cnt \<le> 2 ^ 32"
  shows "memmove m dest src cnt = (dest, \<lambda>x. if in_region dest (unat cnt) x then m (src + (x - dest)) else m x)"
proof -
  let ?n = "unat cnt"
  have n: "?n \<le> 2 ^ 32" using assms by simp
  have addr: "unat (a + of_nat i) = unat a + i" if "unat a + ?n \<le> 2 ^ 32" "i < ?n" for a :: u32 and i
    using that by (simp add: unat_word_ariths unat_of_nat_u32)
  show ?thesis
  proof (cases "dest < src")
    case True
    then have lt: "unat dest < unat src" by (simp add: word_less_nat_alt)
    have "src + of_nat b \<noteq> dest + of_nat a" if "b < ?n" "a < b" for a b
    proof
      assume "src + of_nat b = dest + of_nat a"
      then have "unat src + b = unat dest + a" using addr [OF assms(1), of a] addr [OF assms(2), of b] that by simp
      then show False using that lt by simp
    qed
    then have "memmove_up ?n (of_nat 0) m dest src
        = (\<lambda>x. if in_region dest (?n + 0) x \<and> \<not> in_region dest 0 x then m (src + (x - dest)) else m x)"
      using n by (intro memmove_up_eq) simp_all
    then show ?thesis using True by (simp add: memmove_def in_region_def)
  next
    case False
    then have le: "unat src \<le> unat dest" by (simp add: word_less_nat_alt)
    have "src + of_nat j \<noteq> dest + of_nat i" if "i < ?n" "j < i" for i j
    proof
      assume "src + of_nat j = dest + of_nat i"
      then have "unat src + j = unat dest + i" using addr [OF assms(1), of i] addr [OF assms(2), of j] that by simp
      then show False using that le by simp
    qed
    then have "memmove_down ?n m dest src = (\<lambda>x. if in_region dest ?n x then m (src + (x - dest)) else m x)"
      using n by (intro memmove_down_eq) simp_all
    then show ?thesis using False by (simp add: memmove_def)
  qed
qed

text \<open>
  C40: strncpy of a string that is at least as long as the count wraps its counter and then
  writes zeros over the whole address space: only the last byte it copied survives.
\<close>

theorem strncpy_wipes_memory:
  assumes "c_string m from cs" and "0 < unat cnt" and "unat cnt \<le> length cs"
    and "apart to (unat cnt) from (Suc (length cs))"
  shows "strncpy m to from cnt = (to, \<lambda>x. if x = to + cnt - 1 then cs ! (unat cnt - 1) else 0)"
proof -
  let ?n = "unat cnt" and ?m = "write_bytes m to (take (unat cnt) cs)"
  have "strncpy_copy ?n m to from = (?m, to + cnt, - 1)"
    using strncpy_copy_eq [OF assms(1,3,4)] by simp
  then have *: "strncpy m to from cnt = (to, memset_loop (2 ^ 32 - 1) ?m (to + cnt) 0)"
    by (simp add: strncpy_def unsigned_minus_1_eq_mask mask_eq_exp_minus_1)
  have reg: "in_region (to + cnt) (2 ^ 32 - 1) x \<longleftrightarrow> x \<noteq> to + cnt - 1" for x
  proof -
    have "unat w < 2 ^ 32 - 1 \<longleftrightarrow> w \<noteq> - 1" for w :: u32
      using unat_u32_less [of w] unat_u32_max [of w] by (simp add: less_le)
    from this [of "x - (to + cnt)"] show ?thesis unfolding in_region_def by (auto simp: algebra_simps)
  qed
  have last: "?m (to + cnt - 1) = cs ! (?n - 1)"
  proof -
    have eq: "to + cnt - 1 = to + of_nat (?n - 1)" using assms(2) by (simp add: of_nat_diff)
    have "?m (to + of_nat (?n - 1)) = take ?n cs ! (?n - 1)"
      by (rule write_bytes_nth) (use assms(2,3) unat_u32_less [of cnt] in simp_all)
    then show ?thesis unfolding eq using assms(2) by simp
  qed
  have "memset_loop (2 ^ 32 - 1) ?m (to + cnt) 0 = (\<lambda>x. if in_region (to + cnt) (2 ^ 32 - 1) x then 0 else ?m x)"
    by (rule memset_loop_eq) simp
  also have "\<dots> = (\<lambda>x. if x = to + cnt - 1 then cs ! (?n - 1) else 0)"
    unfolding reg using last by (auto simp: fun_eq_iff)
  finally show ?thesis using * by simp
qed

text \<open>
  strstr returns the first occurrence of the needle, or a null pointer when there is
  none.
\<close>

theorem strstr_finds_first:
  assumes "c_string m h hs" and "c_string m n ns" and "length hs < 2 ^ 31" and "length ns < 2 ^ 31"
  shows "\<exists>r. strstr m h n = Some r
    \<and> ((\<forall>j. \<not> occurs_at ns hs j) \<and> r = 0
       \<or> (\<exists>j. occurs_at ns hs j \<and> (\<forall>k<j. \<not> occurs_at ns hs k) \<and> r = h + of_nat j))"
proof -
  have i: "reg_to_int (of_nat k) = int k" if "k < 2 ^ 31" for k
    using sint_of_int_u32 [of "int k"] that by (simp add: reg_to_int_def)
  have "strstr m h n = Some (strstr_loop m (h + of_nat 0) n (int (length hs - 0)) (int (length ns)))"
    using assms by (simp add: strstr_def strlen_eq i)
  with strstr_loop_eq [OF assms(1,2,4), of 0] show ?thesis by auto
qed

text \<open>
  strspn and strcspn return the lengths of the longest prefixes inside and outside the
  set, and strpbrk points at the end of the second one unless the string ends there.
\<close>

theorem spans_exact:
  assumes "c_string m a cs" and "c_string m b ds"
  shows "strspn m a b = Some (of_nat (length (takeWhile (\<lambda>c. c \<in> set ds) cs)))
    \<and> strcspn m a b = Some (of_nat (length (takeWhile (\<lambda>c. c \<notin> set ds) cs)))
    \<and> strpbrk m a b = Some (if set cs \<inter> set ds = {} then 0
         else a + of_nat (length (takeWhile (\<lambda>c. c \<notin> set ds) cs)))"
proof -
  have "or_null (find_at (\<lambda>c. c \<in> set ds) a cs) = (if set cs \<inter> set ds = {} then 0
         else a + of_nat (length (takeWhile (\<lambda>c. c \<notin> set ds) cs)))"
    by (induction cs arbitrary: a) (auto simp: or_null_def algebra_simps)
  then show ?thesis
    using strspn_loop_eq [OF assms] strcspn_loop_eq [OF assms] strpbrk_eq [OF assms]
    by (simp add: strspn_def strcspn_def)
qed

text \<open>The words hi and hip in an otherwise blank memory.\<close>

definition two_words :: memory where
  "two_words = write_bytes (write_bytes (\<lambda>_. 0) 0x100 [104, 105]) 0x200 [104, 105, 112]"

lemma two_words: "c_string two_words 0x100 [104, 105]" "c_string two_words 0x200 [104, 105, 112]"
  by (simp_all add: two_words_def)

theorem strcpy_copies_witness:
  "\<exists>m'. strcpy two_words 0x80 0x100 = Some (0x80, m') \<and> c_string m' 0x80 [104, 105]"
proof -
  have "apart 0x80 (Suc (length [104, 105 :: u8])) 0x100 (Suc (length [104, 105 :: u8]))"
    by (rule apart_below) simp_all
  from strcpy_copies [OF two_words(1) _ this] show ?thesis by auto
qed

theorem strcmp_lexicographic_witness:
  "\<exists>r. strcmp two_words 0x100 0x200 = Some r \<and> r < 0"
proof -
  have "([104, 105], [104, 105, 112]) \<in> lexord {(x :: u8, y). x < y}" by simp
  with strcmp_lexicographic [OF two_words] show ?thesis by blast
qed

theorem memmove_exact_witness:
  "snd (memmove two_words 0x202 0x200 3) 0x204 = 112 \<and> snd (memmove two_words 0x202 0x200 3) 0x202 = 104"
  by (subst (1 2) memmove_exact) (simp_all add: in_region_def two_words_def)

theorem strncpy_wipes_memory_witness:
  "\<exists>m'. strncpy two_words 0x80 0x200 2 = (0x80, m') \<and> m' 0x80 = 0 \<and> m' 0x81 = 105 \<and> m' 0x200 = 0"
proof -
  have "apart 0x80 (unat (2 :: u32)) 0x200 (Suc (length [104, 105, 112 :: u8]))"
    by (rule apart_below) simp_all
  from strncpy_wipes_memory [OF two_words(2) _ _ this] show ?thesis by simp
qed

theorem strstr_finds_first_witness: "strstr two_words 0x100 0x200 = Some 0"
proof -
  have "\<not> occurs_at [104, 105, 112] [104, 105] j" for j by (simp add: occurs_at_def)
  with strstr_finds_first [OF two_words] show ?thesis by auto
qed

theorem spans_exact_witness: "strspn two_words 0x200 0x100 = Some 2 \<and> strpbrk two_words 0x200 0x100 = Some 0x200"
  using spans_exact [OF two_words(2,1)] by simp

end
