(* ===== verification/Printf_Props.thy ===== *)
theory Printf_Props
  imports Printf C_String_Props
begin

text \<open>
  The formatter: its digits denote the number and are read back by the parsers of stdlib,
  the field width is exact, strings are printed as they are.
\<close>

section \<open>Digits\<close>

text \<open>The digits of a number in base b, most significant first.\<close>

function ndigits :: "nat \<Rightarrow> nat \<Rightarrow> nat list" where
  "ndigits b n = (if b < 2 \<or> n < b then [n] else ndigits b (n div b) @ [n mod b])"
  by pat_completeness auto
termination by (relation "measure snd") auto

declare ndigits.simps [simp del]

lemma ndigits_small: "n < b \<Longrightarrow> ndigits b n = [n]"
  by (simp add: ndigits.simps)

lemma ndigits_big: "2 \<le> b \<Longrightarrow> b \<le> n \<Longrightarrow> ndigits b n = ndigits b (n div b) @ [n mod b]"
  by (subst ndigits.simps) simp

lemma ndigits_less: "2 \<le> b \<Longrightarrow> d \<in> set (ndigits b n) \<Longrightarrow> d < b"
proof (induction b n rule: ndigits.induct)
  case (1 b n)
  then show ?case by (cases "n < b") (auto simp: ndigits_small ndigits_big)
qed

lemma ndigits_length: "2 \<le> b \<Longrightarrow> n < b ^ k \<Longrightarrow> 0 < k \<Longrightarrow> length (ndigits b n) \<le> k"
proof (induction k arbitrary: n)
  case (Suc k)
  show ?case
  proof (cases "n < b")
    case True
    then show ?thesis by (simp add: ndigits_small)
  next
    case False
    then have "k \<noteq> 0" using Suc.prems by (intro notI) simp
    moreover have "n div b < b ^ k"
      using Suc.prems by (simp add: less_mult_imp_div_less mult.commute)
    ultimately show ?thesis using Suc.IH [of "n div b"] Suc.prems(1) False by (simp add: ndigits_big)
  qed
qed simp

lemma ndigits_value: "2 \<le> b \<Longrightarrow> foldl (\<lambda>v d. v * int b + d) 0 (map int (ndigits b n)) = int n"
proof (induction b n rule: ndigits.induct)
  case (1 b n)
  show ?case
  proof (cases "n < b")
    case False
    then have "foldl (\<lambda>v d. v * int b + d) 0 (map int (ndigits b (n div b))) = int (n div b)" using 1 by simp
    then show ?thesis using False 1 by (simp add: ndigits_big flip: of_nat_mult of_nat_add)
  qed (simp add: ndigits_small)
qed

lemma ndigits_not_Nil [simp]: "ndigits b n \<noteq> []"
  by (subst ndigits.simps) simp

lemma ndigits_hd: "2 \<le> b \<Longrightarrow> hd (ndigits b n) = 0 \<longleftrightarrow> n = 0"
proof (induction b n rule: ndigits.induct)
  case (1 b n)
  then show ?case by (cases "n < b") (auto simp: ndigits_small ndigits_big div_eq_0_iff)
qed

definition digit_chars :: "nat \<Rightarrow> nat \<Rightarrow> u8 list" where
  "digit_chars b n = map ((!) digs) (ndigits b n)"

lemma length_digs [simp]: "length digs = 17"
  by (simp add: digs_def)

lemma digits_loop_eq:
  fixes u :: "'a::len word"
  assumes "2 \<le> b" "b \<le> 16" "unat (of_nat b :: 'a word) = b" "length (ndigits b (unat u)) \<le> room"
  shows "digits_loop room u (of_nat b) acc = Inr (digit_chars b (unat u) @ acc)"
  using assms(4)
proof (induction room arbitrary: u acc)
  case (Suc room)
  let ?b = "of_nat b :: 'a word"
  have b: "?b \<noteq> 0" using assms(1,3) by (metis unsigned_0 not_numeral_le_zero)
  have md: "unat (u mod ?b) = unat u mod b" "unat (u div ?b) = unat u div b"
    using assms(3) by (simp_all add: unat_mod unat_div)
  have "unat u mod b < b" using assms(1) by simp
  then have lt: "unat u mod b < 16" using assms(2) by linarith
  show ?case
  proof (cases "unat u < b")
    case True
    then have "u div ?b = 0" using md(2) by (metis div_less unsigned_eq_0_iff)
    then show ?thesis using b lt True by (simp add: md length_digs ndigits_small digit_chars_def)
  next
    case False
    then have "0 < unat u div b" using assms(1) by (simp add: div_greater_zero_iff)
    then have nz: "u div ?b \<noteq> 0" using md(2) by (metis unsigned_0 less_irrefl)
    have "length (ndigits b (unat (u div ?b))) \<le> room"
      using Suc.prems False assms(1) by (simp add: md ndigits_big)
    from Suc.IH [OF this] show ?thesis
      using b lt nz False assms(1) by (simp add: md length_digs ndigits_big digit_chars_def Let_def)
  qed
qed simp

lemma digs_uint: "d < 16 \<Longrightarrow> uint (digs ! d) = (if d < 10 then 48 + int d else 87 + int d)"
proof -
  have "list_all (\<lambda>d. uint (digs ! d) = (if d < 10 then 48 + int d else 87 + int d)) [0..<16]" by code_simp
  then show "d < 16 \<Longrightarrow> ?thesis" by (simp add: list_all_iff)
qed

lemma digs_value:
  assumes "d < b" "b \<le> 16"
  shows "digit_value (int b) (digs ! d) = Some (int d)" and "digs ! d \<notin> {0, 120, 88, 45}"
    and "\<not> isspace (uint (digs ! d))"
proof -
  have d: "d < 16" using assms by simp
  note u = digs_uint [OF d]
  show "digit_value (int b) (digs ! d) = Some (int d)"
    using assms unfolding digit_value_def u by (auto simp: Let_def)
  show "\<not> isspace (uint (digs ! d))" unfolding u isspace_def by auto
  have "digs ! d \<noteq> c" if "uint c \<in> {0, 120, 88, 45}" for c
    using u that d by (auto split: if_splits)
  from this [of 0] this [of 120] this [of 88] this [of 45] show "digs ! d \<notin> {0, 120, 88, 45}" by simp
qed

lemma digit_chars_values:
  "2 \<le> b \<Longrightarrow> b \<le> 16 \<Longrightarrow> map (digit_value (int b)) (digit_chars b n) = map Some (map int (ndigits b n))"
  using ndigits_less [of b _ n] digs_value(1) by (auto simp: digit_chars_def)

lemma digit_chars_nonzero: "2 \<le> b \<Longrightarrow> b \<le> 16 \<Longrightarrow> 0 \<notin> set (digit_chars b n)"
  using ndigits_less [of b _ n] digs_value(2) by (fastforce simp: digit_chars_def)

lemma digit_chars_not_Nil [simp]: "digit_chars b n \<noteq> []"
  by (simp add: digit_chars_def)

text \<open>A number read back by the parsers, in a base other than 0.\<close>

lemma number_prefix_digits:
  assumes "2 \<le> b" "b \<le> 16" and "c_string m p (digit_chars b n)"
  shows "number_prefix m p (int b) = (p, int b)"
proof -
  obtain d ds where ds: "ndigits b n = d # ds" by (cases "ndigits b n") auto
  have less: "x < b" if "x \<in> set (d # ds)" for x using ndigits_less [OF assms(1), of x n] that by (simp add: ds)
  have "m (p + 1) \<noteq> 120 \<and> m (p + 1) \<noteq> 88"
  proof (cases ds)
    case Nil
    then show ?thesis using assms(3) by (simp add: digit_chars_def ds)
  next
    case (Cons e es)
    then have "m (p + 1) = digs ! e" using assms(3) by (simp add: digit_chars_def ds)
    then show ?thesis using digs_value(2) [of e b] less [of e] Cons assms(2) by simp
  qed
  then show ?thesis using assms(1) by (auto simp: number_prefix_def Let_def)
qed

lemma first_digit:
  assumes "2 \<le> b" "b \<le> 16" and "c_string m p (digit_chars b n)"
  shows "\<not> isspace (uint (m p))" "m p \<noteq> 45"
proof -
  obtain d ds where ds: "ndigits b n = d # ds" by (cases "ndigits b n") auto
  then have "d < b" "m p = digs ! d" using ndigits_less [OF assms(1), of d n] assms(3) by (auto simp: digit_chars_def)
  then show "\<not> isspace (uint (m p))" "m p \<noteq> 45" using digs_value(2,3) [of d b] assms(2) by auto
qed

lemma number_loop_digits:
  assumes "2 \<le> b" "b \<le> 16" and "c_string m p (digit_chars b n)"
  shows "number_loop m p (int b) 0 = Some (of_nat n, p + of_nat (length (digit_chars b n)))"
proof -
  have "number_loop m p (int b) (word_of_int 0)
      = Some (word_of_int (foldl (\<lambda>v d. v * int b + d) 0 (map int (ndigits b n))), p + of_nat (length (digit_chars b n)))"
    by (rule number_loop_eq [where rest = "[]"]) (use assms digit_chars_values in auto)
  then show ?thesis using ndigits_value [OF assms(1), of n] by simp
qed

lemma strtoul_digits:
  assumes "2 \<le> b" "b \<le> 16" and "c_string m p (digit_chars b n)"
  shows "strtoul m p (int b) = Some (of_nat n, p + of_nat (length (digit_chars b n)))"
  using number_prefix_digits [OF assms] first_digit [OF assms] number_loop_digits [OF assms]
  by (simp add: strtoul_def skip_space.simps [of m p])

lemma strtol_digits:
  assumes "2 \<le> b" "b \<le> 16" and "c_string m p (digit_chars b n)"
  shows "strtol m p (int b) = Some (reg_to_int (of_nat n), p + of_nat (length (digit_chars b n)))"
  using number_prefix_digits [OF assms] first_digit [OF assms] number_loop_digits [OF assms]
  by (simp add: strtol_def skip_space.simps [of m p])

lemma strtol_minus_digits:
  assumes "2 \<le> b" "b \<le> 16" and "c_string m p (45 # digit_chars b n)"
  shows "strtol m p (int b) = Some (reg_to_int (- of_nat n), p + of_nat (length (45 # digit_chars b n)))"
proof -
  have c: "m p = 45" "c_string m (p + 1) (digit_chars b n)" using assms(3) by auto
  then show ?thesis
    using number_prefix_digits [OF assms(1,2) c(2)] number_loop_digits [OF assms(1,2) c(2)]
    by (simp add: strtol_def skip_space.simps [of m p] isspace_def add.assoc)
qed

section \<open>Conversions without padding\<close>

text \<open>Specifications without flags, width or precision, and the l modifier once at most.\<close>

lemma ll_length:
  assumes "8 \<le> b" shows "length (ndigits b (unat (u :: u64))) \<le> 22"
proof (rule ndigits_length)
  have "unat u < 8 ^ 22" using unsigned_less [of u, where 'a = nat] by simp
  also have "\<dots> \<le> b ^ 22" by (rule power_mono) (use assms in simp_all)
  finally show "unat u < b ^ 22" .
qed (use assms in simp_all)

lemma print_num_plain:
  assumes "8 \<le> b" "b \<le> 16"
  shows "print_num (no_spec\<lparr>sign_char := c, longopt := k\<rparr>) False (int b) u
    = Inr ((if c \<noteq> 0 then [c] else []) @ digit_chars b (unat u))"
proof -
  have "unat (of_nat b :: u64) = b" using assms by (simp add: unat_of_nat take_bit_nat_eq_self)
  then have "digits_loop MAXBUF u (of_nat b) [] = Inr (digit_chars b (unat u) @ [])"
    using assms ll_length [OF assms(1), of u] by (intro digits_loop_eq) (simp_all add: MAXBUF_def)
  then show ?thesis by (simp add: print_num_def Let_def no_spec_def pad_def)
qed

lemma unat_ucast_64: "unat (ucast (w :: u32) :: u64) = unat w"
  using unat_u32_less [of w] by (simp add: unsigned_ucast_eq take_bit_nat_eq_self)

text \<open>The formats: percent, then one letter.\<close>

lemma parse_letter:
  "k \<notin> {35, 45, 43, 32, 48, 42, 46, 108} \<Longrightarrow> \<not> isdigit (uint k)
     \<Longrightarrow> parse_spec [k] args = Inr (no_spec, [k], args)"
  by (simp add: parse_spec_def starts_with_def parse_width_def parse_prec_def Let_def no_spec_def)

lemma doprnt_letter:
  assumes "k \<notin> {35, 45, 43, 32, 48, 42, 46, 108}" "\<not> isdigit (uint k)"
    "convert m radix no_spec k args = Inr (out, rest)"
  shows "doprnt m radix [37, k] args = Inr out"
  using assms by (simp add: doprnt.simps parse_letter)

lemma asc_letters:
  "asc ''%u'' = [37, 117]" "asc ''%x'' = [37, 120]" "asc ''%o'' = [37, 111]" "asc ''%d'' = [37, 100]" "asc ''%s'' = [37, 115]"
  by (simp_all add: asc_def)

lemma no_spec_sel [simp]: "longopt no_spec = 0" "plus_sign no_spec = 0" "no_spec\<lparr>sign_char := 0\<rparr> = no_spec"
  "no_spec\<lparr>longopt := 0\<rparr> = no_spec" "no_spec\<lparr>sign_char := c, longopt := 0\<rparr> = no_spec\<lparr>sign_char := c\<rparr>"
  by (simp_all add: no_spec_def)

lemma doprnt_unsigned:
  assumes "(k, b) \<in> {(111, 8), (117, 10), (120, 16)}"
  shows "doprnt m radix [37, k] [Word w] = Inr (digit_chars b (unat w))"
proof -
  have "print_num no_spec False (int b) (ucast w) = Inr (digit_chars b (unat w))"
    using print_num_plain [where c = 0 and k = 0 and u = "ucast w" and b = b] assms by (auto simp: unat_ucast_64 no_spec_def)
  then have "print_unsigned no_spec False (int b) [Word w] = Inr (digit_chars b (unat w), [])"
    by (simp add: print_unsigned_def)
  then have "convert m radix no_spec k [Word w] = Inr (digit_chars b (unat w), [])"
    using assms by (auto simp: convert_def doprnt_truncates_def)
  then show ?thesis using assms by (intro doprnt_letter) (auto simp: isdigit_def)
qed

lemma sint_bounds: "- 2147483648 \<le> sint (w :: u32)" "sint (w :: u32) < 2147483648"
  using sint_greater_eq [of w] sint_less [of w] by simp_all

lemma sint_scast_64: "sint (scast (w :: u32) :: u64) = sint w"
  using sint_bounds [of w] by (simp add: signed_scast_eq signed_take_bit_int_eq_self)

lemma unat_of_int_small:
  assumes "0 \<le> k" "k < 2 ^ 32"
  shows "unat (word_of_int k :: u32) = nat k" "unat (word_of_int k :: u64) = nat k"
proof -
  have n: "nat k < 2 ^ 32" and k: "k = int (nat k)" using assms by (simp_all add: nat_less_iff)
  have "unat (of_nat i :: u64) = i" if "i < 2 ^ 32" for i
    using that by (simp add: unat_of_nat take_bit_nat_eq_self)
  from this [OF n] unat_of_nat_u32 [OF n]
  show "unat (word_of_int k :: u32) = nat k" "unat (word_of_int k :: u64) = nat k"
    by (subst k, simp only: of_int_of_nat_eq)+
qed

lemma of_sint_u32: "word_of_int (sint w) = (w :: u32)"
  by (simp add: of_int_sint)

lemma unat_signed:
  "sint w \<ge> 0 \<Longrightarrow> unat (scast (w :: u32) :: u64) = unat w"
  "sint w < 0 \<Longrightarrow> unat (- scast (w :: u32) :: u64) = unat (- w)"
proof -
  have lt: "sint w < 2 ^ 32" "- sint w < 2 ^ 32" using sint_bounds [of w] by simp_all
  show "unat (scast w :: u64) = unat w" if "sint w \<ge> 0"
    using unat_of_int_small [OF that lt(1)] unfolding of_sint_u32 scast_eq by (rule trans [OF _ sym, rotated])
  have m: "- w = word_of_int (- sint w)" "(- scast w :: u64) = word_of_int (- sint w)"
    by (simp_all only: wi_hom_neg [symmetric] of_sint_u32 scast_eq)
  show "unat (- scast w :: u64) = unat (- w)" if "sint w < 0"
    unfolding m using unat_of_int_small [of "- sint w", OF _ lt(2)] that by simp
qed

lemma print_signed_plain:
  "print_signed no_spec False 10 (Word w # args)
     = Inr (if sint w < 0 then 45 # digit_chars 10 (unat (- w)) else digit_chars 10 (unat w), args)"
proof (cases "sint w < 0")
  case True
  then show ?thesis
    using print_num_plain [where c = 45 and k = 0 and u = "- scast w" and b = 10] unat_signed(2) by (simp add: print_signed_def sint_scast_64)
next
  case False
  then show ?thesis
    using print_num_plain [where c = 0 and k = 0 and u = "scast w" and b = 10] unat_signed(1) by (simp add: print_signed_def sint_scast_64)
qed

lemma doprnt_signed:
  "doprnt m radix [37, 100] [Word w]
     = Inr (if sint w < 0 then 45 # digit_chars 10 (unat (- w)) else digit_chars 10 (unat w))"
  by (intro doprnt_letter) (auto simp: isdigit_def convert_def doprnt_truncates_def print_signed_plain)

text \<open>
  C18: A number printed with %u, %o, %x or %d and stored as a string is read back by strtoul,
  or strtol, in the same base, up to the end of the string; for %d this includes the most
  negative number.
\<close>

theorem printed_numbers_read_back:
  "\<exists>u o' x d. doprnt m radix (asc ''%u'') [Word w] = Inr u \<and> doprnt m radix (asc ''%o'') [Word w] = Inr o'
     \<and> doprnt m radix (asc ''%x'') [Word w] = Inr x \<and> doprnt m radix (asc ''%d'') [Word w] = Inr d
     \<and> strtoul (write_bytes m' p (u @ [0])) p 10 = Some (w, p + of_nat (length u))
     \<and> strtoul (write_bytes m' p (o' @ [0])) p 8 = Some (w, p + of_nat (length o'))
     \<and> strtoul (write_bytes m' p (x @ [0])) p 16 = Some (w, p + of_nat (length x))
     \<and> strtol (write_bytes m' p (d @ [0])) p 10 = Some (sint w, p + of_nat (length d))"
proof -
  have len: "length (digit_chars b (unat v)) < 100" if "8 \<le> b" for b and v :: u32
  proof -
    have "length (ndigits b (unat (ucast v :: u64))) \<le> 22" by (rule ll_length [OF that])
    then show ?thesis by (simp add: digit_chars_def unat_ucast_64)
  qed
  have store: "c_string (write_bytes m' p (digit_chars b (unat v) @ [0])) p (digit_chars b (unat v))"
    if "8 \<le> b" "b \<le> 16" for b and v :: u32
    by (rule c_string_write) (use len [OF that(1), of v] digit_chars_nonzero [of b "unat v"] that in simp_all)
  have store_d: "c_string (write_bytes m' p ((45 # digit_chars 10 (unat v)) @ [0])) p (45 # digit_chars 10 (unat v))" for v :: u32
    by (rule c_string_write) (use len [of 10 v] digit_chars_nonzero [of 10 "unat v"] in simp_all)
  have reads: "strtoul (write_bytes m' p (digit_chars b (unat w) @ [0])) p (int b)
      = Some (w, p + of_nat (length (digit_chars b (unat w))))" if "8 \<le> b" "b \<le> 16" for b
    using strtoul_digits [OF _ _ store [OF that, of w]] that by simp
  have reads_d: "strtol (write_bytes m' p ((if sint w < 0 then 45 # digit_chars 10 (unat (- w)) else digit_chars 10 (unat w)) @ [0])) p 10
      = Some (sint w, p + of_nat (length (if sint w < 0 then 45 # digit_chars 10 (unat (- w)) else digit_chars 10 (unat w))))"
  proof (cases "sint w < 0")
    case True
    then show ?thesis using strtol_minus_digits [OF _ _ store_d [of "- w"]] by (simp add: reg_to_int_def)
  next
    case False
    then show ?thesis using strtol_digits [OF _ _ store [of 10 w]] by (simp add: reg_to_int_def)
  qed
  have out: "doprnt m radix (asc ''%u'') [Word w] = Inr (digit_chars 10 (unat w))"
    "doprnt m radix (asc ''%o'') [Word w] = Inr (digit_chars 8 (unat w))"
    "doprnt m radix (asc ''%x'') [Word w] = Inr (digit_chars 16 (unat w))"
    "doprnt m radix (asc ''%d'') [Word w]
       = Inr (if sint w < 0 then 45 # digit_chars 10 (unat (- w)) else digit_chars 10 (unat w))"
    unfolding asc_letters doprnt_signed by (simp_all add: doprnt_unsigned)
  show ?thesis
    by (intro exI conjI) (rule out reads [of 10, simplified] reads [of 8, simplified] reads [of 16, simplified] reads_d)+
qed

section \<open>Formats\<close>

text \<open>Text before a conversion is copied; a conversion takes its arguments and the rest follows.\<close>

lemma doprnt_text:
  "37 \<notin> set cs \<Longrightarrow> doprnt m radix (cs @ fmt) args = bind (doprnt m radix fmt args) (\<lambda>out. Inr (cs @ out))"
proof (induction cs)
  case Nil
  show ?case by (cases "doprnt m radix fmt args") simp_all
next
  case (Cons c cs)
  then show ?case by (cases "doprnt m radix fmt args") (simp_all add: doprnt.simps)
qed

lemma doprnt_plain: "37 \<notin> set cs \<Longrightarrow> doprnt m radix cs args = Inr cs"
  using doprnt_text [of cs m radix "[]"] by (simp add: doprnt.simps)

lemma doprnt_conv:
  assumes "parse_spec fmt args = Inr (sp, k # fmt', args1)" "convert m radix sp k args1 = Inr (out, args2)"
  shows "doprnt m radix (37 # fmt) args = bind (doprnt m radix fmt' args2) (\<lambda>rest. Inr (out @ rest))"
  using assms by (simp add: doprnt.simps)

lemma doprnt_d:
  "doprnt m radix (37 # 100 # fmt) (Word w # args) = bind (doprnt m radix fmt args)
     (\<lambda>out. Inr ((if sint w < 0 then 45 # digit_chars 10 (unat (- w)) else digit_chars 10 (unat w)) @ out))"
proof (rule doprnt_conv)
  show "parse_spec (100 # fmt) (Word w # args) = Inr (no_spec, 100 # fmt, Word w # args)"
    by (simp add: parse_spec_def starts_with_def parse_width_def parse_prec_def Let_def no_spec_def isdigit_def)
qed (simp add: convert_def doprnt_truncates_def print_signed_plain)

lemma digit_chars_range: "2 \<le> b \<Longrightarrow> b \<le> 16 \<Longrightarrow> c \<in> set (digit_chars b n) \<Longrightarrow> c \<notin> {0, 10, 37}"
proof
  assume b: "2 \<le> b" "b \<le> 16" and c: "c \<in> set (digit_chars b n)" "c \<in> {0, 10, 37}"
  then obtain d where d: "d \<in> set (ndigits b n)" "c = digs ! d" by (auto simp: digit_chars_def)
  have "d < 16" using ndigits_less [OF b(1) d(1)] b(2) by simp
  from digs_uint [OF this] have "48 \<le> uint c" using d(2) by (auto split: if_splits)
  then show False using c(2) by auto
qed

lemma get_string_eq: "c_string m p cs \<Longrightarrow> get_string m p = Some cs"
  by (induction cs arbitrary: p) (auto simp: get_string.simps)

lemma doprnt_u:
  "doprnt m radix (37 # 117 # fmt) (Word w # args) = bind (doprnt m radix fmt args) (\<lambda>out. Inr (digit_chars 10 (unat w) @ out))"
  "doprnt m radix (37 # 108 # 117 # fmt) (Word w # args) = bind (doprnt m radix fmt args) (\<lambda>out. Inr (digit_chars 10 (unat w) @ out))"
proof -
  have conv: "convert m radix (no_spec\<lparr>longopt := l\<rparr>) 117 (Word w # args) = Inr (digit_chars 10 (unat w), args)" if "l \<le> 1" for l
    using that print_num_plain [where c = 0 and k = l and u = "ucast w" and b = 10]
    by (simp add: convert_def doprnt_truncates_def print_unsigned_def unat_ucast_64 no_spec_def)
  have "parse_spec (117 # fmt) (Word w # args) = Inr (no_spec\<lparr>longopt := 0\<rparr>, 117 # fmt, Word w # args)"
    "parse_spec (108 # 117 # fmt) (Word w # args) = Inr (no_spec\<lparr>longopt := 1\<rparr>, 117 # fmt, Word w # args)"
    by (simp_all add: parse_spec_def starts_with_def parse_width_def parse_prec_def Let_def no_spec_def isdigit_def)
  from doprnt_conv [OF this(1) conv] doprnt_conv [OF this(2) conv]
  show "doprnt m radix (37 # 117 # fmt) (Word w # args) = bind (doprnt m radix fmt args) (\<lambda>out. Inr (digit_chars 10 (unat w) @ out))"
    "doprnt m radix (37 # 108 # 117 # fmt) (Word w # args) = bind (doprnt m radix fmt args) (\<lambda>out. Inr (digit_chars 10 (unat w) @ out))"
    by simp_all
qed

section \<open>Width and precision\<close>

lemma print_num_layout:
  assumes "print_num sp t base u = Inr out" and "print_num (sp\<lparr>field_length := 0\<rparr>) t base u = Inr core"
    and "padc sp = 32 \<or> padc sp = 48"
  shows "int (length out) = max (field_length sp) (int (length core))
    \<and> (padc sp = 32 \<longrightarrow> out = (if ladjust sp then core @ pad (field_length sp - int (length core)) 32
                              else pad (field_length sp - int (length core)) 32 @ core))"
proof -
  let ?u = "if t then scast (ucast u :: u32) else u"
  define prefix where "prefix = (if ?u \<noteq> 0 \<and> altfmt sp
     then (if base = 8 then [48 :: u8] else if base = 16 then [48, 120] else []) else [])"
  define sign where "sign = (if sign_char sp \<noteq> 0 then [sign_char sp] else [])"
  obtain ds where ds: "digits_loop MAXBUF ?u (word_of_int base) [] = Inr ds"
    using assms(1) by (auto simp: print_num_def Let_def bind_eq_Inr)
  let ?l = "field_length sp - int (length ds) - int (length sign) - int (length prefix)"
  have out: "print_num sp t base u = Inr (
     (if padc sp = 32 \<and> \<not> ladjust sp then pad ?l 32 else []) @ sign @ prefix
      @ (if padc sp = 48 then pad (if padc sp = 32 \<and> \<not> ladjust sp then min ?l 0 - 1 else ?l) 48 else []) @ ds
      @ (if ladjust sp then pad (if padc sp = 48 then min ?l 0 - 1 else ?l) 32 else []))"
    using ds by (simp add: print_num_def Let_def prefix_def sign_def)
  have core: "core = sign @ prefix @ ds"
  proof -
    have "- int (length ds) - int (length sign) - int (length prefix) \<le> 0" by simp
    then show ?thesis
      using assms(2) ds by (auto simp: print_num_def Let_def prefix_def sign_def pad_def split: if_splits)
  qed
  from out assms(1,3) show ?thesis by (auto simp: core pad_def)
qed

text \<open>
  The field width of a number is exact: the output has the width asked for, or the length
  of the number with its sign and prefix when that is longer, and blanks go to the left of
  it, or to its right when it is left adjusted.
\<close>

theorem print_num_width:
  assumes "print_num sp t base u = Inr out" and "print_num (sp\<lparr>field_length := 0\<rparr>) t base u = Inr core"
    and "padc sp = 32 \<or> padc sp = 48"
  shows "int (length out) = max (field_length sp) (int (length core))
    \<and> (padc sp = 32 \<longrightarrow> out = (if ladjust sp then core @ pad (field_length sp - int (length core)) 32
                              else pad (field_length sp - int (length core)) 32 @ core))"
  using assms by (rule print_num_layout)

lemma s_chars_eq: "c_string m p cs \<Longrightarrow> s_chars m p n = take n cs"
proof (induction n arbitrary: p cs)
  case (Suc n)
  then show ?case by (cases cs) auto
qed simp

text \<open>
  %s prints the string up to the precision and pads it with blanks; padding on the right
  is one blank short whenever the precision cut the string.
\<close>

theorem conv_s_exact:
  assumes "c_string m p cs" and "p \<noteq> 0" and "k = nat (if prec sp = - 1 then 0x7fffffff else prec sp)"
  shows "conv_s m sp (Word p # args) = Inr (
    if ladjust sp
    then take k cs @ pad (field_length sp - int (length (take k cs)) - (if k < length cs then 1 else 0)) 32
    else pad (field_length sp - int (length (take k cs))) 32 @ take k cs, args)"
proof -
  have cut: "m (p + of_nat (length (take k cs))) \<noteq> 0 \<longleftrightarrow> k < length cs"
  proof (cases "k < length cs")
    case True
    then show ?thesis using c_string_nth [OF assms(1) True] c_string_nonzero [OF assms(1)] by (metis length_take min.absorb4 nth_mem)
  next
    case False
    then show ?thesis using c_string_end [OF assms(1)] by simp
  qed
  have "pad n 32 = []" if "n \<le> 0" for n using that by (simp add: pad_def)
  then show ?thesis
    unfolding conv_s_def va_word.simps bind_Inr prod.case Let_def assms(3) [symmetric] s_chars_eq [OF assms(1)]
    using assms(2) cut by (auto simp: diff_diff_eq)
qed

text \<open>
  printf passes 0 as the radix, so %r and %n divide by zero.
\<close>

theorem radix_conversions_divide_by_zero:
  "doprnt m 0 (asc ''%n'') [Word w] = Inl DivByZero \<and> doprnt m 0 (asc ''%r'') [Word w] = Inl DivByZero"
proof -
  have "print_num sp False 0 u = Inl DivByZero" for sp u
    by (simp add: print_num_def Let_def MAXBUF_def numeral_eq_Suc)
  then have "print_unsigned no_spec False 0 [Word w] = Inl DivByZero" "print_signed no_spec False 0 [Word w] = Inl DivByZero"
    by (auto simp: print_unsigned_def print_signed_def Let_def)
  then have "convert m 0 no_spec 110 [Word w] = Inl DivByZero" "convert m 0 no_spec 114 [Word w] = Inl DivByZero"
    by (simp_all add: convert_def doprnt_truncates_def)
  moreover have "asc ''%n'' = [37, 110]" "asc ''%r'' = [37, 114]" by (simp_all add: asc_def)
  ultimately show ?thesis by (simp add: doprnt.simps parse_letter isdigit_def)
qed

theorem print_num_width_witness:
  "\<exists>out. print_num (no_spec\<lparr>field_length := 6\<rparr>) False 10 42 = Inr out \<and> length out = 6"
proof -
  have u: "unat (42 :: u64) = 42" by simp
  have "print_num (no_spec\<lparr>field_length := 6\<rparr>) False 10 42 = Inr [32, 32, 32, 32, 52, 50]"
    "print_num ((no_spec\<lparr>field_length := 6\<rparr>)\<lparr>field_length := 0\<rparr>) False 10 42 = Inr [52, 50]" by code_simp+
  from print_num_width [OF this] this show ?thesis by (simp add: no_spec_def)
qed

theorem conv_s_exact_witness:
  "conv_s two_words (no_spec\<lparr>field_length := 4, prec := 1, ladjust := True\<rparr>) [Word 0x100] = Inr ([104, 32, 32], [])"
proof -
  have two: "pad 2 32 = [32, 32]" by (simp add: pad_def numeral_2_eq_2)
  show ?thesis
    using conv_s_exact [OF two_words(1), of 1 "no_spec\<lparr>field_length := 4, prec := 1, ladjust := True\<rparr>" "[]"]
    by (simp add: two)
qed

end
