(* ===== verification/C_Stdio.thy ===== *)
theory C_Stdio
  imports Printf_Props
begin

text \<open>
  tasks/libc/stdio: printf over a buffer in front of the write call, sprintf into memory,
  puts, putchar, hexdump, and the scanner behind sscanf. The write call appends its bytes to
  the serial line. What a formatted string is written over must not be one of the strings it
  is made from; the scanner has no such restriction.
\<close>

section \<open>Printing\<close>

definition PRINTF_BUFMAX :: nat where "PRINTF_BUFMAX = 128"

text \<open>The filled part of the buffer, and what was sent to the serial line.\<close>

record printf_state =
  buf :: "u8 list"
  line :: "u8 list"

definition puts_line :: "u8 list \<Rightarrow> u8 list" where
  "puts_line s = takeWhile (\<lambda>c. c \<noteq> 0) s @ [10]"

text \<open>putchar sends the four bytes of its int argument.\<close>

definition putchar_bytes :: "u8 \<Rightarrow> u8 list" where
  "putchar_bytes c = [c, 0, 0, 0]"

definition flush_buf :: "printf_state \<Rightarrow> printf_state" where
  "flush_buf st = st\<lparr>buf := [], line := line st @ buf st\<rparr>"

definition printf_char :: "u8 \<Rightarrow> printf_state \<Rightarrow> printf_state" where
  "printf_char c st =
     (if c = 10 then st\<lparr>buf := [], line := line st @ puts_line (buf st)\<rparr>
      else if c = 0 \<or> length (buf st) \<ge> PRINTF_BUFMAX - 1
      then let st1 = flush_buf st in st1\<lparr>line := line st1 @ putchar_bytes c\<rparr>
      else st\<lparr>buf := buf st @ [c]\<rparr>)"

definition vprintf :: "memory \<Rightarrow> u8 list \<Rightarrow> va_list \<Rightarrow> u8 list res" where
  "vprintf m fmt args =
     bind (doprnt m 0 fmt args) (\<lambda>cs.
       let st = fold printf_char cs \<lparr>buf = [], line = []\<rparr>
       in Inr (line (if buf st \<noteq> [] then flush_buf st else st)))"

text \<open>The functions with a variable number of arguments pass on what va_start gives them.\<close>

definition printf :: "memory \<Rightarrow> u8 list \<Rightarrow> va_list \<Rightarrow> u8 list res" where
  "printf m fmt args = vprintf m fmt args"

fun printf_calls :: "memory \<Rightarrow> (u8 list \<times> va_list) list \<Rightarrow> u8 list res" where
  "printf_calls m [] = Inr []"
| "printf_calls m ((fmt, args) # calls) =
     bind (printf m fmt args) (\<lambda>out. bind (printf_calls m calls) (\<lambda>rest. Inr (out @ rest)))"

section \<open>Printing into memory\<close>

definition SPRINTF_UNLIMITED :: int where "SPRINTF_UNLIMITED = - 1"

record sprintf_state =
  sbuf :: u32
  slen :: int
  smax :: int
  smem :: memory

definition savechar :: "u8 \<Rightarrow> sprintf_state \<Rightarrow> sprintf_state" where
  "savechar c st =
     (if smax st \<noteq> SPRINTF_UNLIMITED \<and> slen st = smax st then st
      else st\<lparr>slen := slen st + 1, smem := (smem st)(sbuf st := c), sbuf := sbuf st + 1\<rparr>)"

definition vsprintf :: "memory \<Rightarrow> u32 \<Rightarrow> u8 list \<Rightarrow> va_list \<Rightarrow> (int \<times> memory) res" where
  "vsprintf m s fmt args =
     bind (doprnt m 0 fmt args) (\<lambda>cs.
       let st = fold savechar cs \<lparr>sbuf = s, slen = 0, smax = SPRINTF_UNLIMITED, smem = m\<rparr>
       in Inr (slen st, (smem st)(sbuf st := 0)))"

definition vsnprintf :: "memory \<Rightarrow> u32 \<Rightarrow> u32 \<Rightarrow> u8 list \<Rightarrow> va_list \<Rightarrow> (int \<times> memory) res" where
  "vsnprintf m s sz fmt args =
     bind (doprnt m 0 fmt args) (\<lambda>cs.
       let st = fold savechar cs \<lparr>sbuf = s, slen = 0, smax = reg_to_int sz, smem = m\<rparr>
       in Inr (slen st, (smem st)(sbuf st := 0)))"

definition sprintf :: "memory \<Rightarrow> u32 \<Rightarrow> u8 list \<Rightarrow> va_list \<Rightarrow> (int \<times> memory) res" where
  "sprintf m s fmt args = vsprintf m s fmt args"

definition snprintf :: "memory \<Rightarrow> u32 \<Rightarrow> u32 \<Rightarrow> u8 list \<Rightarrow> va_list \<Rightarrow> (int \<times> memory) res" where
  "snprintf m s sz fmt args = vsnprintf m s sz fmt args"

section \<open>hexdump\<close>

text \<open>The calls of printf for one line of sixteen bytes, from index i on.\<close>

definition hex_line :: "memory \<Rightarrow> u32 \<Rightarrow> u32 \<Rightarrow> u32 \<Rightarrow> (u8 list \<times> va_list) list" where
  "hex_line m b len i =
     (let js = takeWhile (\<lambda>j. j < i + 16) (map (\<lambda>k. i + of_nat k) [0..<16])
      in [(asc ''| %08lx      '', [Word i])]
         @ concat (map (\<lambda>j. (if j mod 4 = 0 then [(asc '' '', [])] else [])
             @ [if j \<ge> len then (asc ''  '', []) else (asc ''%02x'', [Word (ucast (m (b + j)))])]) js)
         @ [(asc ''       '', [])]
         @ map (\<lambda>j. if j \<ge> len then (asc '' '', [])
             else (asc ''%c'', [Word (if isgraph (uint (m (b + j))) then ucast (m (b + j)) else 46)])) js
         @ [(asc '' |'' @ [10], [])])"

text \<open>The loop over the lines; the index may wrap before it reaches the length.\<close>

partial_function (option) hex_lines :: "memory \<Rightarrow> u32 \<Rightarrow> u32 \<Rightarrow> u32 \<Rightarrow> (u8 list \<times> va_list) list option" where
  "hex_lines m b len i =
     (if i < len
      then Option.bind (hex_lines m b len (i + 16)) (\<lambda>rest. Some (hex_line m b len i @ rest))
      else Some [])"

definition hexdump_calls :: "memory \<Rightarrow> u32 \<Rightarrow> u32 \<Rightarrow> (u8 list \<times> va_list) list option" where
  "hexdump_calls m b len = map_option (\<lambda>lines.
     [(asc ''.---------------------------------------------------------------------------.'' @ [10], [])]
     @ lines
     @ [(96 # asc ''---------------------------------------------------------------------------'' @ [39, 10], [])])
     (hex_lines m b len 0)"

definition hexdump :: "memory \<Rightarrow> u32 \<Rightarrow> u32 \<Rightarrow> u8 list res" where
  "hexdump m b len =
     (case hexdump_calls m b len of None \<Rightarrow> Inl Diverges | Some calls \<Rightarrow> printf_calls m calls)"

text \<open>The copy in the kernel calls the printf of U-Boot.\<close>

definition kernel_hexdump :: "memory \<Rightarrow> u32 \<Rightarrow> u32 \<Rightarrow> (u8 list \<times> va_list) list option" where
  "kernel_hexdump m b len = hexdump_calls m b len"

section \<open>Scanning\<close>

partial_function (option) scan_digits :: "memory \<Rightarrow> u32 \<Rightarrow> u32 \<Rightarrow> (u32 \<times> u32) option" where
  "scan_digits m s n =
     (if m s \<ge> 48 \<and> m s \<le> 57 then scan_digits m (s + 1) (n * 10 + (ucast (m s) - 48)) else Some (n, s))"

partial_function (option) scan_hex :: "memory \<Rightarrow> u32 \<Rightarrow> u32 \<Rightarrow> (u32 \<times> u32) option" where
  "scan_hex m s n =
     (let c = m s
      in if c \<ge> 48 \<and> c \<le> 57 then scan_hex m (s + 1) (n * 16 + (ucast c - 48))
         else if c \<ge> 97 \<and> c \<le> 102 then scan_hex m (s + 1) (n * 16 + (ucast c - 97 + 10))
         else if c \<ge> 65 \<and> c \<le> 70 then scan_hex m (s + 1) (n * 16 + (ucast c - 65 + 10))
         else Some (n, s))"

text \<open>%s stops at white space only, and not at the null that ends its input.\<close>

partial_function (option) scan_string :: "memory \<Rightarrow> u32 \<Rightarrow> u32 \<Rightarrow> bool \<Rightarrow> (memory \<times> u32 \<times> u32) option" where
  "scan_string m s b discard =
     (if isspace (uint (m s)) then Some (m, s, b)
      else let m' = (if discard then m else m(b := m s)) in scan_string m' (s + 1) (b + 1) discard)"

text \<open>One conversion: the number or the string goes to the address the next argument gives.\<close>

definition scan_number :: "(memory \<Rightarrow> u32 \<Rightarrow> u32 \<Rightarrow> (u32 \<times> u32) option) \<Rightarrow> memory \<Rightarrow> u32 \<Rightarrow> bool \<Rightarrow> va_list
    \<Rightarrow> (memory \<times> u32 \<times> va_list) res" where
  "scan_number digits m s discard args =
     (let neg = (m s = 45); s1 = (if neg then s + 1 else s)
      in case digits m s1 0 of None \<Rightarrow> Inl Diverges
         | Some (n, s2) \<Rightarrow>
             let n' = (if neg then - n else n)
             in if discard then Inr (m, s2, args)
                else bind (va_word args) (\<lambda>(p, args'). Inr (store32 m p n', s2, args')))"

definition scan_conv :: "memory \<Rightarrow> u32 \<Rightarrow> bool \<Rightarrow> u8 \<Rightarrow> va_list \<Rightarrow> (memory \<times> u32 \<times> va_list) res" where
  "scan_conv m s discard k args =
     (if k = 100 then scan_number scan_digits m s discard args
      else if k = 120 then scan_number scan_hex m s discard args
      else if k = 115 then
        bind (if discard then Inr (0, args) else va_word args) (\<lambda>(b, args').
          case scan_string m s b discard of None \<Rightarrow> Inl Diverges
          | Some (m', s', b') \<Rightarrow> Inr (if discard then m' else m'(b' := 0), s', args'))
      else Inr (m, s, args))"

text \<open>
  The scanner returns the number of conversions, the memory and the place it stopped at. A
  format that ends in a percent sign makes it read on past the end of the format.
\<close>

function doscan :: "memory \<Rightarrow> u32 \<Rightarrow> u8 list \<Rightarrow> va_list \<Rightarrow> int \<Rightarrow> (int \<times> memory \<times> u32) res" where
  "doscan m s [] args vals = Inr (vals, m, s)"
| "doscan m s (c # fmt) args vals =
     (if c \<noteq> 37
      then if isspace (uint c)
           then case skip_space m s of None \<Rightarrow> Inl Diverges | Some s' \<Rightarrow> doscan m s' fmt args vals
           else if c = m s then doscan m (s + 1) fmt args vals
           else Inr (vals, m, s + 1)
      else let discard = starts_with (\<lambda>c. c = 42) fmt
           in case dropWhile (\<lambda>c. c = 42) fmt of [] \<Rightarrow> Inl Undefined
              | k # fmt' \<Rightarrow> bind (scan_conv m s discard k args) (\<lambda>(m', s', args').
                  doscan m' s' fmt' args' (if discard then vals else vals + 1)))"
  by pat_completeness auto
termination
proof (relation "measure (\<lambda>(m, s, fmt, args, vals). length fmt)", goal_cases)
  case (4 m s c fmt args vals discard k fmt')
  then show ?case using length_dropWhile_le [of "\<lambda>c. c = 42" fmt] by auto
qed auto

declare doscan.simps [simp del]

definition vsscanf :: "memory \<Rightarrow> u32 \<Rightarrow> u8 list \<Rightarrow> va_list \<Rightarrow> (int \<times> memory) res" where
  "vsscanf m s fmt args = bind (doscan m s fmt args 0) (\<lambda>(vals, m', s'). Inr (vals, m'))"

definition sscanf :: "memory \<Rightarrow> u32 \<Rightarrow> u8 list \<Rightarrow> va_list \<Rightarrow> (int \<times> memory) res" where
  "sscanf m s fmt args = vsscanf m s fmt args"

end
