(* ===== verification/User_Programs.thy ===== *)
theory User_Programs
  imports C_Stdio Syscalls
begin

text \<open>
  The user programs under tasks: what each of their task functions does between two system
  calls, and the task sets their main functions hand to the kernel. A task function is a
  step function over its place in the code, the globals of the program and the reply of the
  last call; a step gives the bytes it sends to the serial line and the next call. Addresses
  of functions are parameters, they are known to the linker only.
\<close>

section \<open>System calls\<close>

text \<open>Spin is a loop without calls, Returns the end of a task function, which must not happen.\<close>

datatype call =
    Time
  | Sleep u32
  | Read u32
  | Create u32 u32
  | Mutex_create
  | Mutex_lock int
  | Mutex_unlock int
  | Event_wait u32
  | Spin
  | Returns
  | Exit int

text \<open>What a call left behind: its value, errno, and the bytes it read.\<close>

record reply =
  ret :: int
  errno :: int
  bytes :: "u8 list"

type_synonym ('l, 'g) step_res = "(u8 list \<times> call \<times> 'l \<times> 'g) res"

text \<open>The stubs of libc/swi: a negative result goes to errno and becomes -1.\<close>

definition swi_stub :: "int \<Rightarrow> int \<Rightarrow> int \<times> int" where
  "swi_stub r err = (if r < 0 then (- 1, - r) else (r, err))"

fun call_regs :: "call \<Rightarrow> (u32 \<times> u32 \<times> u32) option" where
  "call_regs Time = Some (TIME_SWI, 0, 0)"
| "call_regs (Sleep ms) = Some (SLEEP_SWI, ms, 0)"
| "call_regs (Create p n) = Some (CREATE_SWI, p, n)"
| "call_regs Mutex_create = Some (MUTEX_CREATE, 0, 0)"
| "call_regs (Mutex_lock i) = Some (MUTEX_LOCK, int_to_reg i, 0)"
| "call_regs (Mutex_unlock i) = Some (MUTEX_UNLOCK, int_to_reg i, 0)"
| "call_regs (Event_wait d) = Some (EVENT_WAIT, d, 0)"
| "call_regs _ = None"

abbreviation say :: "string \<Rightarrow> u8 list" where "say str \<equiv> puts_line (asc str)"

text \<open>panic of the programs: puts, then an endless loop.\<close>

definition user_panic :: "string \<Rightarrow> 'l \<Rightarrow> 'g \<Rightarrow> ('l, 'g) step_res" where
  "user_panic str dead g = Inr (say str, Spin, dead, g)"

text \<open>The handler of the compiler for a division by zero.\<close>

definition libc_raise :: "'l \<Rightarrow> 'g \<Rightarrow> ('l, 'g) step_res" where
  "libc_raise dead g = Inr (puts_line (asc ''Divide by zero'' @ [10]), Spin, dead, g)"

abbreviation no_memory :: memory where "no_memory \<equiv> \<lambda>_. 0"

definition PERIOD_DEV0 :: u32 where "PERIOD_DEV0 = 100"
definition PERIOD_DEV1 :: u32 where "PERIOD_DEV1 = 200"
definition PERIOD_DEV2 :: u32 where "PERIOD_DEV2 = 500"
definition PERIOD_DEV3 :: u32 where "PERIOD_DEV3 = 50"

definition user_task :: "u32 \<Rightarrow> u32 \<Rightarrow> u32 \<Rightarrow> u32 \<Rightarrow> u32 \<Rightarrow> task_t" where
  "user_task f d stack C T = \<lparr>lambda = f, data = d, stack_pos = stack, C_time = C, T_period = T, B_time = 0\<rparr>"

text \<open>
  A main function that creates a task set: what it says before, what it says when the call
  comes back.
\<close>

datatype main_pc = Main | Main_created

fun create_main :: "u8 list \<Rightarrow> u32 \<Rightarrow> u32 \<Rightarrow> u8 list \<Rightarrow> main_pc \<Rightarrow> 'g \<Rightarrow> (main_pc, 'g) step_res" where
  "create_main before tasks n after Main g = Inr (before, Create tasks n, Main_created, g)"
| "create_main before tasks n after Main_created g = Inr (after, Exit 0, Main_created, g)"

section \<open>dagger\<close>

datatype dagger_pc = Dagger_top | Dagger_waited | Dagger_dead

fun dagger_fun :: "u32 \<Rightarrow> string \<Rightarrow> u8 \<Rightarrow> dagger_pc \<Rightarrow> reply \<Rightarrow> (dagger_pc, unit) step_res" where
  "dagger_fun dev msg str Dagger_top r = Inr (putchar_bytes str, Event_wait dev, Dagger_waited, ())"
| "dagger_fun dev msg str Dagger_waited r =
     (if ret r < 0 then user_panic msg Dagger_dead ()
      else Inr (putchar_bytes str, Event_wait dev, Dagger_waited, ()))"
| "dagger_fun dev msg str Dagger_dead r = Inr ([], Spin, Dagger_dead, ())"

definition dagger_fun1 :: "u8 \<Rightarrow> dagger_pc \<Rightarrow> reply \<Rightarrow> (dagger_pc, unit) step_res" where
  "dagger_fun1 = dagger_fun 0 ''Dev 0 failed''"

definition dagger_fun2 :: "u8 \<Rightarrow> dagger_pc \<Rightarrow> reply \<Rightarrow> (dagger_pc, unit) step_res" where
  "dagger_fun2 = dagger_fun 1 ''Dev 1 failed''"

definition dagger_tasks :: "u32 \<Rightarrow> u32 \<Rightarrow> task_t list" where
  "dagger_tasks fun1 fun2 =
     [user_task fun1 64 0xa2000000 1 PERIOD_DEV0, user_task fun2 60 0xa1000000 1 PERIOD_DEV1]"

definition dagger_main :: "u32 \<Rightarrow> main_pc \<Rightarrow> (main_pc, unit) step_res" where
  "dagger_main tasks pc = create_main [] tasks 2
     (puts_line (asc ''Elvis could not leave the building, but why did your code get here!'' @ [10])) pc ()"

section \<open>cyclone\<close>

definition ITE :: int where "ITE = 30"

datatype cyclone_pc = Cyclone_start | Cyclone_slept | Cyclone_timed | Cyclone_created | Cyclone_dead

text \<open>The global is the counter ct; the argument is where the task descriptor lies.\<close>

fun cyclone_fun1 :: "u32 \<Rightarrow> cyclone_pc \<Rightarrow> int \<Rightarrow> reply \<Rightarrow> (cyclone_pc, int) step_res" where
  "cyclone_fun1 tasks Cyclone_start ct r =
     (let ct' = ct + 1
      in if ct' > ITE then Inr (say ''Test ends!!'', Spin, Cyclone_dead, ct')
         else Inr ([], Sleep (word_of_int (ct' * 10)), Cyclone_slept, ct'))"
| "cyclone_fun1 tasks Cyclone_slept ct r = Inr ([], Time, Cyclone_timed, ct)"
| "cyclone_fun1 tasks Cyclone_timed ct r =
     bind (printf no_memory (asc ''Time now is %lu'' @ [10]) [Word (word_of_int (ret r))])
       (\<lambda>out. Inr (out, Create tasks 1, Cyclone_created, ct))"
| "cyclone_fun1 tasks Cyclone_created ct r =
     Inr (say ''TASK SHOULD NEVER REACH HERE, FAIL XXXXXXXXXXXXXXXXX'', Returns, Cyclone_dead, ct)"
| "cyclone_fun1 tasks Cyclone_dead ct r = Inr ([], Spin, Cyclone_dead, ct)"

definition cyclone_tasks :: "u32 \<Rightarrow> task_t list" where
  "cyclone_tasks fun1 = [user_task fun1 0 0xa1000000 1 PERIOD_DEV3]"

text \<open>main clears ct whatever it was.\<close>

definition cyclone_main :: "u32 \<Rightarrow> main_pc \<Rightarrow> int \<Rightarrow> (main_pc, int) step_res" where
  "cyclone_main tasks pc ct = create_main (say ''Test begin'') tasks 1 (puts_line (asc ''WTF!'' @ [10])) pc
     (if pc = Main then 0 else ct)"

section \<open>mutex_chaser\<close>

definition MUTEX_NUM :: nat where "MUTEX_NUM = 32"
definition init_val :: u32 where "init_val = 2"
definition result_val :: u32 where "result_val = ((init_val + 3) * 11 - 7) * 13"
definition YES_STR :: "u8 list" where "YES_STR = 27 # asc ''[32;1mYes!'' @ 27 # asc ''[0m'' @ [10]"
definition NO_STR :: "u8 list" where "NO_STR = 27 # asc ''[31;1mNo!'' @ 27 # asc ''[0m'' @ [10]"
definition TEST_DONE :: "u8 list" where
  "TEST_DONE = 27 # asc ''[32;1mTEST PASSED SUCCESSFULLY!'' @ 27 # asc ''[0m'' @ [10]"

text \<open>The globals are the values of the mutexes; a place holds cur_mutex.\<close>

datatype chaser_pc = Chaser_top nat | Chaser_locked nat | Chaser_unlocked nat | Chaser_waited nat
  | Chaser_idle | Chaser_dead

text \<open>
  The loop all four functions share: what they do to the value, their device, the answer to
  a failed unlock and what follows the last mutex differ.
\<close>

fun chaser_top :: "u32 \<Rightarrow> (u32 list \<Rightarrow> u8 list res) \<Rightarrow> u8 \<Rightarrow> nat \<Rightarrow> u32 list \<Rightarrow> (chaser_pc, u32 list) step_res" where
  "chaser_top dev finish str cur vals =
     (if cur < MUTEX_NUM
      then bind (printf no_memory (asc ''>>mutex %d'' @ [10]) [Word (of_nat cur)])
        (\<lambda>out. Inr (putchar_bytes str @ out, Mutex_lock (int cur), Chaser_locked cur, vals))
      else bind (finish vals) (\<lambda>out. Inr (out, Event_wait dev, Chaser_idle, vals)))"

fun chaser :: "(u32 \<Rightarrow> u32) \<Rightarrow> u32 \<Rightarrow> string \<Rightarrow> (nat \<Rightarrow> int \<Rightarrow> u8 list res) \<Rightarrow> (u32 list \<Rightarrow> u8 list res)
    \<Rightarrow> u8 \<Rightarrow> chaser_pc \<Rightarrow> u32 list \<Rightarrow> reply \<Rightarrow> (chaser_pc, u32 list) step_res" where
  "chaser f dev msg diag finish str (Chaser_top cur) vals r = chaser_top dev finish str cur vals"
| "chaser f dev msg diag finish str (Chaser_locked cur) vals r =
     (if ret r \<noteq> 0 then user_panic ''Failed to acquire mutex'' Chaser_dead vals
      else if cur \<ge> length vals then Inl OutOfBounds
      else Inr ([], Mutex_unlock (int cur), Chaser_unlocked cur, vals[cur := f (vals ! cur)]))"
| "chaser f dev msg diag finish str (Chaser_unlocked cur) vals r =
     (if ret r \<noteq> 0
      then bind (diag cur (errno r)) (\<lambda>out. Inr (out @ say ''Failed to release mutex'', Spin, Chaser_dead, vals))
      else Inr ([], Event_wait dev, Chaser_waited (cur + 1), vals))"
| "chaser f dev msg diag finish str (Chaser_waited cur) vals r =
     (if ret r < 0 then user_panic msg Chaser_dead vals else chaser_top dev finish str cur vals)"
| "chaser f dev msg diag finish str Chaser_idle vals r =
     (if ret r < 0 then user_panic msg Chaser_dead vals else Inr ([], Event_wait dev, Chaser_idle, vals))"
| "chaser f dev msg diag finish str Chaser_dead vals r = Inr ([], Spin, Chaser_dead, vals)"

definition chaser_fun1 :: "u8 \<Rightarrow> chaser_pc \<Rightarrow> u32 list \<Rightarrow> reply \<Rightarrow> (chaser_pc, u32 list) step_res" where
  "chaser_fun1 = chaser (\<lambda>v. v + 3) 3 ''Dev 3 failed''
     (\<lambda>cur err. bind (printf no_memory (asc ''Fail with mutex:%d'' @ [10]) [Word (of_nat cur)]) (\<lambda>out.
        Inr (out @ (if err = EINVAL then say ''EINVAL'' else []) @ (if err = EPERM then say ''EPERM'' else []))))
     (\<lambda>vals. Inr [])"

definition chaser_fun2 :: "u8 \<Rightarrow> chaser_pc \<Rightarrow> u32 list \<Rightarrow> reply \<Rightarrow> (chaser_pc, u32 list) step_res" where
  "chaser_fun2 = chaser (\<lambda>v. v * 11) 0 ''Dev 0 failed'' (\<lambda>cur err. Inr []) (\<lambda>vals. Inr [])"

definition chaser_fun3 :: "u8 \<Rightarrow> chaser_pc \<Rightarrow> u32 list \<Rightarrow> reply \<Rightarrow> (chaser_pc, u32 list) step_res" where
  "chaser_fun3 = chaser (\<lambda>v. v - 7) 1 ''Dev 1 failed'' (\<lambda>cur err. Inr []) (\<lambda>vals. Inr [])"

text \<open>The verdict of the fourth function on the mutexes from i on.\<close>

fun chaser_verdict :: "nat \<Rightarrow> u32 list \<Rightarrow> u8 list res" where
  "chaser_verdict i [] = Inr (puts_line TEST_DONE)"
| "chaser_verdict i (v # vals) =
     bind (printf no_memory (asc ''Final mutex%d value %d == result value %d'' @ [10])
       [Word (of_nat i), Word v, Word result_val]) (\<lambda>out.
     bind (chaser_verdict (i + 1) vals) (\<lambda>rest.
       Inr (out @ puts_line (if v = result_val then YES_STR else NO_STR) @ rest)))"

definition chaser_fun4 :: "u8 \<Rightarrow> chaser_pc \<Rightarrow> u32 list \<Rightarrow> reply \<Rightarrow> (chaser_pc, u32 list) step_res" where
  "chaser_fun4 = chaser (\<lambda>v. v * 13) 2 ''Dev 2 failed'' (\<lambda>cur err. Inr []) (chaser_verdict 0)"

text \<open>main: 32 mutexes, whose numbers it does not use, then the task set.\<close>

datatype chaser_main_pc = Chaser_main nat | Chaser_started

fun chaser_main :: "u32 \<Rightarrow> chaser_main_pc \<Rightarrow> u32 list \<Rightarrow> reply \<Rightarrow> (chaser_main_pc, u32 list) step_res" where
  "chaser_main tasks (Chaser_main i) vals r =
     (let before = (if i = 0 then say ''TEST STARTING...''
                    else if errno r = ENOMEM then say ''failed to create a mutex!!'' else []);
          vals' = (if i = 0 then vals else vals[i - 1 := init_val])
      in if i < MUTEX_NUM then Inr (before, Mutex_create, Chaser_main (i + 1), vals')
         else Inr (before @ say ''Successfully created all the mutexes!!'' @ puts_line YES_STR,
                   Create tasks 4, Chaser_started, vals'))"
| "chaser_main tasks Chaser_started vals r = Inr ([], Exit 0, Chaser_started, vals)"

definition chaser_tasks :: "u32 \<Rightarrow> u32 \<Rightarrow> u32 \<Rightarrow> u32 \<Rightarrow> task_t list" where
  "chaser_tasks fun1 fun2 fun3 fun4 =
     [user_task fun2 50 0xa2000000 1 PERIOD_DEV0, user_task fun3 51 0xa1000000 1 PERIOD_DEV1,
      user_task fun4 52 0xa1500000 1 PERIOD_DEV2, user_task fun1 49 0xa2500000 1 PERIOD_DEV3]"

section \<open>simple_mutex\<close>

record simple_globals =
  even_t1 :: int
  once :: int
  even_t2 :: int
  even_t3 :: int
  mid :: int

definition simple_start :: simple_globals where
  "simple_start = \<lparr>even_t1 = 1, once = 0, even_t2 = 1, even_t3 = 1, mid = - 1\<rparr>"

datatype simple_pc = Simple_start | Simple_created | Simple_locked | Simple_unlocked | Simple_waited | Simple_dead

definition simple_top1 :: "u8 \<Rightarrow> simple_globals \<Rightarrow> (simple_pc, simple_globals) step_res" where
  "simple_top1 str g =
     (if even_t1 g \<noteq> 0
      then if once g > 0 then Inr (putchar_bytes str @ putchar_bytes 33, Spin, Simple_dead, g)
           else Inr (putchar_bytes str, Event_wait 0, Simple_waited, g\<lparr>once := 1, even_t1 := 0\<rparr>)
      else Inr ([], Mutex_lock (mid g), Simple_locked, g))"

fun simple_fun1 :: "u8 \<Rightarrow> simple_pc \<Rightarrow> simple_globals \<Rightarrow> reply \<Rightarrow> (simple_pc, simple_globals) step_res" where
  "simple_fun1 str Simple_start g r = Inr ([], Mutex_create, Simple_created, g)"
| "simple_fun1 str Simple_created g r = simple_top1 str (g\<lparr>mid := ret r\<rparr>)"
| "simple_fun1 str Simple_locked g r =
     Inr (putchar_bytes 101, Mutex_unlock (mid g), Simple_unlocked, g\<lparr>even_t1 := 1\<rparr>)"
| "simple_fun1 str Simple_unlocked g r = Inr ([], Event_wait 0, Simple_waited, g)"
| "simple_fun1 str Simple_waited g r =
     (if ret r < 0 then user_panic ''Dev 0 failed'' Simple_dead g else simple_top1 str g)"
| "simple_fun1 str Simple_dead g r = Inr ([], Spin, Simple_dead, g)"

definition simple_top2 :: "u8 \<Rightarrow> simple_globals \<Rightarrow> (simple_pc, simple_globals) step_res" where
  "simple_top2 str g =
     (if even_t2 g \<noteq> 0 then Inr (putchar_bytes str, Event_wait 1, Simple_waited, g\<lparr>even_t2 := 0\<rparr>)
      else Inr ([], Mutex_lock (mid g), Simple_locked, g))"

fun simple_fun2 :: "u8 \<Rightarrow> simple_pc \<Rightarrow> simple_globals \<Rightarrow> reply \<Rightarrow> (simple_pc, simple_globals) step_res" where
  "simple_fun2 str Simple_start g r = simple_top2 str g"
| "simple_fun2 str Simple_locked g r = Inr (putchar_bytes 83, Event_wait 1, Simple_waited, g)"
| "simple_fun2 str Simple_waited g r =
     (if ret r < 0 then user_panic ''Dev 1 failed'' Simple_dead g else simple_top2 str g)"
| "simple_fun2 str _ g r = Inr ([], Spin, Simple_dead, g)"

definition simple_top3 :: "u8 \<Rightarrow> simple_globals \<Rightarrow> (simple_pc, simple_globals) step_res" where
  "simple_top3 str g =
     (if even_t3 g \<noteq> 0 then Inr (putchar_bytes str, Mutex_lock (mid g), Simple_locked, g)
      else Inr (putchar_bytes str, Mutex_unlock (mid g), Simple_unlocked, g))"

fun simple_fun3 :: "u8 \<Rightarrow> simple_pc \<Rightarrow> simple_globals \<Rightarrow> reply \<Rightarrow> (simple_pc, simple_globals) step_res" where
  "simple_fun3 str Simple_start g r = simple_top3 str g"
| "simple_fun3 str Simple_locked g r = Inr ([], Event_wait 2, Simple_waited, g\<lparr>even_t3 := 0\<rparr>)"
| "simple_fun3 str Simple_unlocked g r = Inr ([], Event_wait 2, Simple_waited, g)"
| "simple_fun3 str Simple_waited g r =
     (if ret r < 0 then user_panic ''Dev 2 failed'' Simple_dead g else simple_top3 str g)"
| "simple_fun3 str _ g r = Inr ([], Spin, Simple_dead, g)"

definition simple_tasks :: "u32 \<Rightarrow> u32 \<Rightarrow> u32 \<Rightarrow> task_t list" where
  "simple_tasks fun1 fun2 fun3 =
     [user_task fun1 115 0xa2000000 1 PERIOD_DEV0, user_task fun2 117 0xa1000000 1 PERIOD_DEV1,
      user_task fun3 99 0xa1200000 1 PERIOD_DEV2]"

definition simple_main :: "u32 \<Rightarrow> main_pc \<Rightarrow> simple_globals \<Rightarrow> (main_pc, simple_globals) step_res" where
  "simple_main tasks pc g = create_main [] tasks 3 (puts_line (asc ''WTF!'' @ [10])) pc g"

section \<open>stress\<close>

definition NUM_TASK :: nat where "NUM_TASK = 60"
definition END_TIME :: u32 where "END_TIME = 9000"
definition NUM_ITER :: int where "NUM_ITER = 2"

record stress_globals =
  st_once :: int
  st_flag :: int
  score :: "int list"

datatype stress_pc = Stress_top | Stress_timed | Stress_slept | Stress_waited | Stress_dead

definition stress_score :: "nat \<Rightarrow> u8 list \<Rightarrow> stress_globals \<Rightarrow> (stress_pc, stress_globals) step_res" where
  "stress_score i out g =
     (if i \<ge> length (score g) then Inl OutOfBounds
      else Inr (out, Sleep (of_nat i), Stress_slept, g\<lparr>score := (score g)[i := score g ! i + 1]\<rparr>))"

definition stress_top :: "nat \<Rightarrow> stress_globals \<Rightarrow> (stress_pc, stress_globals) step_res" where
  "stress_top i g = (if st_flag g = 0 then Inr ([], Time, Stress_timed, g) else stress_score i [] g)"

fun stress_fun1 :: "nat \<Rightarrow> stress_pc \<Rightarrow> stress_globals \<Rightarrow> reply \<Rightarrow> (stress_pc, stress_globals) step_res" where
  "stress_fun1 i Stress_top g r = stress_top i g"
| "stress_fun1 i Stress_timed g r =
     bind (printf no_memory (asc ''Time is now %lu'' @ [10]) [Word (word_of_int (ret r))]) (\<lambda>out. stress_score i out g)"
| "stress_fun1 i Stress_slept g r = Inr ([], Event_wait (of_nat i), Stress_waited, g)"
| "stress_fun1 i Stress_waited g r =
     (if ret r < 0 then user_panic ''Dev 0 failed'' Stress_dead g else stress_top i g)"
| "stress_fun1 i Stress_dead g r = Inr ([], Spin, Stress_dead, g)"

text \<open>The check that no task ran more often than one of a shorter period, and that all ran.\<close>

fun stress_check :: "nat \<Rightarrow> int list \<Rightarrow> u8 list res" where
  "stress_check i (a # b # scores) =
     bind (if a < b then printf no_memory (asc ''RMA check failed on %d'' @ [10]) [Word (of_nat i)] else Inr []) (\<lambda>out1.
     bind (if a = 0 then printf no_memory (asc ''Task %d never executed?'' @ [10]) [Word (of_nat i)] else Inr []) (\<lambda>out2.
     bind (stress_check (i + 1) (b # scores)) (\<lambda>rest.
       Inr (out1 @ (if a < b then say ''xxxxxxxxxx Test FAIL xxxxxxxx'' else [])
            @ out2 @ (if a = 0 then say ''xxxxxxxxxx Test FAIL xxxxxxxxx'' else []) @ rest))))"
| "stress_check i scores = Inr []"

definition stress_top2 :: "nat \<Rightarrow> stress_globals \<Rightarrow> (stress_pc, stress_globals) step_res" where
  "stress_top2 i g =
     (if st_once g < NUM_ITER
      then Inr (say ''One more time'', Event_wait (of_nat i), Stress_waited, g\<lparr>st_once := st_once g + 1\<rparr>)
      else bind (stress_check 0 (score g)) (\<lambda>out.
        Inr (out @ say ''*********** Test PASEED *******************'', Event_wait (of_nat i), Stress_waited,
             g\<lparr>st_flag := 1\<rparr>)))"

fun stress_fun2 :: "nat \<Rightarrow> stress_pc \<Rightarrow> stress_globals \<Rightarrow> reply \<Rightarrow> (stress_pc, stress_globals) step_res" where
  "stress_fun2 i Stress_top g r = stress_top2 i g"
| "stress_fun2 i Stress_waited g r =
     (if ret r < 0 then user_panic ''Dev 0 failed'' Stress_dead g else stress_top2 i g)"
| "stress_fun2 i _ g r = Inr ([], Spin, Stress_dead, g)"

definition stress_tasks :: "u32 \<Rightarrow> u32 \<Rightarrow> task_t list" where
  "stress_tasks fun1 fun2 =
     map (\<lambda>i. user_task fun1 (of_nat i) (0xa2000000 + 0x10000 * of_nat i) (of_nat (i + 1)) (of_nat ((i + 1) * 100)))
       [0..<NUM_TASK - 1]
     @ [user_task fun2 (of_nat (NUM_TASK - 1)) (0xa2000000 + 0x10000 * of_nat (NUM_TASK - 1)) 0 END_TIME]"

definition stress_main :: "u32 \<Rightarrow> main_pc \<Rightarrow> stress_globals \<Rightarrow> (main_pc, stress_globals) step_res" where
  "stress_main tasks pc g = create_main (say ''Test begins'') tasks (of_nat NUM_TASK)
     (puts_line (asc ''Elvis could not leave the building, but why did your code get here!'' @ [10])) pc
     (if pc = Main then \<lparr>st_once = 0, st_flag = 0, score = replicate (NUM_TASK - 1) 0\<rparr> else g)"

section \<open>sys_err\<close>

text \<open>
  A straight line of calls, some followed by a check of errno or of the result against the
  expected value.
\<close>

datatype checked = Errno | Result

definition report_suc :: "string \<Rightarrow> u8 list" where
  "report_suc str = say str @ puts_line (asc ''        SUCCESS ****************'' @ [10])"

definition report_fail :: "string \<Rightarrow> u8 list" where
  "report_fail str = say str @ puts_line (asc ''        FAIL xxxxxxxxxxxxxxxxxx'' @ [10])"

definition check_return :: "int \<Rightarrow> int \<Rightarrow> string \<Rightarrow> u8 list res" where
  "check_return r expected str =
     (if r = expected then Inr (report_suc str)
      else bind (printf no_memory (asc ''expect %d, get %d'' @ [10]) [Word (word_of_int expected), Word (word_of_int r)])
        (\<lambda>out. Inr (out @ report_fail str)))"

type_synonym check = "checked \<times> int \<times> string"

definition MAX_MUTEX :: nat where "MAX_MUTEX = 32"

definition sys_err_fun1 :: "(call \<times> check option) list" where
  "sys_err_fun1 =
     replicate MAX_MUTEX (Mutex_create, None)
     @ [(Mutex_create, Some (Errno, ENOMEM, ''3. Mutex Create returns ENOMEM'')),
        (Mutex_unlock 165, Some (Errno, EINVAL, ''4. Mutex Unlock return EINVAL'')),
        (Mutex_unlock 23, Some (Errno, EPERM, ''5. Mutex Unlock return EPERM'')),
        (Mutex_lock 124, Some (Errno, EINVAL, ''6. Mutex Lock return EINVAL'')),
        (Mutex_lock 4, Some (Result, 0, ''7. Mutex Lock return success'')),
        (Mutex_lock 4, Some (Errno, EDEADLOCK, ''8. Mutex Lock return EDEADLOCK'')),
        (Mutex_unlock 4, Some (Result, 0, ''9. Mutex Unlock return success'')),
        (Event_wait 10000, Some (Errno, EINVAL, ''10. Event Wait return EINVAL''))]"

text \<open>main: the third call comes back only when it fails.\<close>

definition sys_err_main :: "u32 \<Rightarrow> (call \<times> check option) list" where
  "sys_err_main tasks =
     [(Create tasks 65, Some (Errno, EINVAL, ''1. Test create return EINVAL'')),
      (Create 0xdeadbeef 30, Some (Errno, EFAULT, ''2. Test create return EFAULT'')),
      (Create tasks 1, None)]"

definition sys_err_tasks :: "u32 \<Rightarrow> u32 \<Rightarrow> task_t list" where
  "sys_err_tasks fun1 B = [(user_task fun1 64 0xa2000000 1 PERIOD_DEV0)\<lparr>B_time := B\<rparr>]"

text \<open>
  Such a program on the kernel: every call goes through the dispatcher. It stops at a call
  that does not come back.
\<close>

definition kernel_call :: "(u32 \<Rightarrow> u32) \<Rightarrow> u32 list \<Rightarrow> call \<Rightarrow> kstate \<Rightarrow> (int option \<times> kstate) res" where
  "kernel_call malloc readings k s =
     (case call_regs k of None \<Rightarrow> Inl Undefined
      | Some (n, a, b) \<Rightarrow>
          bind (swi_dispatch malloc readings n
              \<lparr>ex_r0 = a, ex_r1 = b, ex_r2 = 0, ex_r3 = 0, ex_r4 = 0, ex_r5 = 0, ex_r6 = 0, ex_r7 = 0, ex_r8 = 0,
               ex_r9 = 0, ex_r10 = 0, ex_r11 = 0, ex_r12 = 0\<rparr> s)
            (\<lambda>(r, s'). Inr (case r of Done c \<Rightarrow> Some (reg_to_int (ex_r0 c)) | _ \<Rightarrow> None, s')))"

fun run_checks :: "(u32 \<Rightarrow> u32) \<Rightarrow> (call \<times> check option) list \<Rightarrow> int \<Rightarrow> kstate \<Rightarrow> (u8 list \<times> int \<times> kstate) res" where
  "run_checks malloc [] err s = Inr ([], err, s)"
| "run_checks malloc ((k, chk) # rest) err s =
     bind (kernel_call malloc [] k s) (\<lambda>(r, s1).
       case r of None \<Rightarrow> Inr ([], err, s1)
       | Some v \<Rightarrow>
           let (v', err') = swi_stub v err
           in bind (case chk of None \<Rightarrow> Inr []
                    | Some (w, expected, str) \<Rightarrow> check_return (if w = Errno then err' else v') expected str) (\<lambda>out.
              bind (run_checks malloc rest err' s1) (\<lambda>(out', err'', s2). Inr (out @ out', err'', s2))))"

section \<open>Programs without task sets\<close>

text \<open>splat: a spinning cursor, by the number of the frame.\<close>

definition splat_frame :: "nat \<Rightarrow> u8 list res \<times> call" where
  "splat_frame i = (printf no_memory ([8, 32, 8] @ [[124], [47], [45], [92]] ! (i mod 4)) [], Sleep 200)"

text \<open>hello: its arguments, then a greeting.\<close>

definition hello_main :: "memory \<Rightarrow> u32 list \<Rightarrow> u8 list res" where
  "hello_main m argv =
     bind (printf_calls m
       ((asc ''argc = %d'' @ [10], [Word (of_nat (length argv))])
        # map (\<lambda>i. (asc ''ARGV%d:%s'' @ [10], [Word (of_nat i), Word (argv ! i)])) [0..<length argv]))
       (\<lambda>out. Inr (out @ asc ''Hello World'' @ [13, 10]))"

text \<open>
  typo: a prompt, a line, and the time it took in tenths of a second. The buffer is at b;
  locals are the two readings of the clock and the length of the line.
\<close>

definition MAX_LINE :: u32 where "MAX_LINE = 255"

datatype typo_pc = Typo_top | Typo_started | Typo_read u32 | Typo_now u32 int "u8 list"

fun typo_main :: "memory \<Rightarrow> u32 \<Rightarrow> typo_pc \<Rightarrow> reply \<Rightarrow> (typo_pc, unit) step_res" where
  "typo_main m b Typo_top r = Inr (asc ''>'', Time, Typo_started, ())"
| "typo_main m b Typo_started r = Inr ([], Read MAX_LINE, Typo_read (word_of_int (ret r)), ())"
| "typo_main m b (Typo_read start) r = Inr ([], Time, Typo_now start (ret r) (bytes r), ())"
| "typo_main m b (Typo_now start readret typed) r =
     (let now = word_of_int (ret r);
          elapsed = (now - start) div 1000;
          decimal = ((now - start) mod 1000) div 100
      in bind (sprintf m b (10 # asc ''%lu.%lus'' @ [10]) [Word elapsed, Word decimal]) (\<lambda>(n, m').
         case get_string m' b of None \<Rightarrow> Inl Diverges
         | Some text \<Rightarrow> Inr (take (nat readret) typed @ text @ asc ''>'', Time, Typo_started, ())))"

text \<open>twister: the library at work on two words and a number in memory.\<close>

definition forty :: int where "forty = 40"
definition three :: int where "three = 3"

definition twister_main :: "memory \<Rightarrow> u32 \<Rightarrow> u32 \<Rightarrow> u32 \<Rightarrow> u8 list res" where
  "twister_main m hello goodbye mynum =
     (case (strlen m hello, get_string m hello, atoi m mynum) of
        (Some len, Some word, Some num) \<Rightarrow>
          bind (printf_calls m
            ([(asc ''%s'' @ [10], [Word hello]),
              (asc ''%s %s %s %s'' @ [10], [Word hello, Word goodbye, Word hello, Word goodbye]),
              (asc ''0x%08x'' @ [9] @ asc ''0x%08x'' @ [10], [Word hello, Word goodbye]),
              (asc ''sizes: %d %d %d %d %d'' @ [10], [Word 1, Word 2, Word 4, Word 4, Word 4]),
              ([34] @ asc ''%s'' @ [34] @ asc ''->length = %lu'' @ [10], [Word hello, Word len])]
             @ map (\<lambda>c. (asc [c], [])) ''Hello'' @ [([10], [])])) (\<lambda>out1.
          bind (printf_calls m
            ((asc ''%d / %d = %d, %d'', map (\<lambda>i. Word (word_of_int i)) [forty, three, forty div three, forty mod three])
             # (if num \<noteq> 1234 then [(asc ''failure!'' @ [10], [])] else [])
             @ [(asc ''%d'' @ [10], [Word (word_of_int num)])])) (\<lambda>out2.
            Inr (out1 @ putchar_bytes 34
                 @ concat (map (\<lambda>c. putchar_bytes (if isupper (uint c) then 85 else 76)) word)
                 @ putchar_bytes 34 @ putchar_bytes 10 @ out2)))
      | _ \<Rightarrow> Inl Diverges)"

text \<open>
  longtest: the time of the operating system against the counter of the clock. The counter
  is read right after the sleep and before the two calls of time; the argument oscr is what
  it then shows. The main function goes on without its argument, with the null pointer.
\<close>

definition longtest_sub :: "u32 \<Rightarrow> u32 \<Rightarrow> u32" where
  "longtest_sub this that = (if this < that then (0xffffffff - that) + 1 + this else this - that)"

text \<open>An unsigned number of counts, divided as a double, and cut to an unsigned again.\<close>

definition clock_interval :: "u32 \<Rightarrow> u32" where
  "clock_interval counts = word_of_int \<lfloor>fl 53 (q32 counts / fl 53 OSTMR_FREQ_KHZ)\<rfloor>"

datatype longtest_pc = Long_top | Long_started u32 | Long_slept u32 u32 | Long_ended u32 u32 u32

fun longtest_main :: "memory \<Rightarrow> u32 list \<Rightarrow> u32 \<Rightarrow> longtest_pc \<Rightarrow> reply \<Rightarrow> (longtest_pc, unit) step_res" where
  "longtest_main m argv oscr Long_top r =
     bind (if length argv \<noteq> 2 then printf m (asc ''Usage: go %s <sleep time in ms>'' @ [10]) [Word (if argv = [] then 0 else hd argv)] else Inr [])
       (\<lambda>out. Inr (out, Time, Long_started oscr, ()))"
| "longtest_main m argv oscr (Long_started start_clock) r =
     bind (printf m (asc ''OS clock start: %u'' @ [10]) [Word start_clock]) (\<lambda>out.
       if argv = [] then Inl OutOfBounds
       else case atoi m (if length argv > 1 then argv ! 1 else 0) of None \<Rightarrow> Inl Diverges
       | Some ms \<Rightarrow> Inr (out, Sleep (word_of_int ms), Long_slept start_clock (word_of_int (ret r)), ()))"
| "longtest_main m argv oscr (Long_slept start_clock start_time) r =
     Inr ([], Time, Long_ended start_clock start_time oscr, ())"
| "longtest_main m argv oscr (Long_ended start_clock start_time end_clock) r =
     bind (printf_calls m
       [(asc ''OS clock end: %u'' @ [10], [Word end_clock]),
        (asc ''OS clock time interval: %u'' @ [10], [Word (clock_interval (longtest_sub end_clock start_clock))]),
        (asc ''Sys call time interval: %u'' @ [10], [Word (word_of_int (ret r) - start_time)])])
       (\<lambda>out. Inr (out, Exit (- 1), Long_top, ()))"

end
