(* ===== verification/C_Stdio_Props.thy ===== *)
theory C_Stdio_Props
  imports C_Stdio
begin

text \<open>
  printf sends the formatted text in order and adds nothing to short lines; vsnprintf writes
  one byte more than it is given; sscanf reads back what was printed, and its strings do not
  end at the null of the input.
\<close>

section \<open>The buffer of printf\<close>

text \<open>Whether every line fits the buffer, n characters of the first of them being there.\<close>

fun short_lines :: "nat \<Rightarrow> u8 list \<Rightarrow> bool" where
  "short_lines n [] = True"
| "short_lines n (c # cs) = (if c = 10 then short_lines 0 cs else n < PRINTF_BUFMAX - 1 \<and> short_lines (Suc n) cs)"

text \<open>Everything handed to the buffer so far, sent or not.\<close>

definition sent :: "printf_state \<Rightarrow> u8 list" where
  "sent st = line st @ buf st"

lemma takeWhile_nonzero: "0 \<notin> set bs \<Longrightarrow> takeWhile (\<lambda>c. c \<noteq> 0) bs = bs"
  by (auto simp: takeWhile_eq_all_conv)

lemma printf_char_buf: "c \<noteq> 0 \<Longrightarrow> 0 \<notin> set (buf st) \<Longrightarrow> 0 \<notin> set (buf (printf_char c st))"
  by (auto simp: printf_char_def Let_def flush_buf_def)

lemma printf_char_sent:
  "c \<noteq> 0 \<Longrightarrow> 0 \<notin> set (buf st)
     \<Longrightarrow> filter (\<lambda>c. c \<noteq> 0) (sent (printf_char c st)) = filter (\<lambda>c. c \<noteq> 0) (sent st) @ [c]"
  by (simp add: printf_char_def sent_def flush_buf_def puts_line_def putchar_bytes_def takeWhile_nonzero Let_def)

lemma printf_chars_sent:
  "0 \<notin> set cs \<Longrightarrow> 0 \<notin> set (buf st)
     \<Longrightarrow> filter (\<lambda>c. c \<noteq> 0) (sent (fold printf_char cs st)) = filter (\<lambda>c. c \<noteq> 0) (sent st) @ cs"
  by (induction cs arbitrary: st) (simp_all add: printf_char_sent printf_char_buf)

lemma printf_char_fits:
  "c \<noteq> 0 \<Longrightarrow> 0 \<notin> set (buf st) \<Longrightarrow> c = 10 \<or> length (buf st) < PRINTF_BUFMAX - 1
     \<Longrightarrow> sent (printf_char c st) = sent st @ [c] \<and> buf (printf_char c st) = (if c = 10 then [] else buf st @ [c])"
  by (auto simp: printf_char_def sent_def puts_line_def takeWhile_nonzero)

lemma printf_chars_fit:
  "0 \<notin> set cs \<Longrightarrow> 0 \<notin> set (buf st) \<Longrightarrow> short_lines (length (buf st)) cs
     \<Longrightarrow> sent (fold printf_char cs st) = sent st @ cs"
proof (induction cs arbitrary: st)
  case (Cons c cs)
  have "c = 10 \<or> length (buf st) < PRINTF_BUFMAX - 1" using Cons.prems(3) by (simp split: if_splits)
  then have *: "sent (printf_char c st) = sent st @ [c]" "buf (printf_char c st) = (if c = 10 then [] else buf st @ [c])"
    using printf_char_fits [of c st] Cons.prems(1,2) by simp_all
  have "sent (fold printf_char cs (printf_char c st)) = sent (printf_char c st) @ cs"
    by (rule Cons.IH) (use Cons.prems * in \<open>auto split: if_splits\<close>)
  then show ?case by (simp add: *)
qed simp

lemma fill_buf:
  "0 \<notin> set cs \<Longrightarrow> 10 \<notin> set cs \<Longrightarrow> length (buf st) + length cs \<le> PRINTF_BUFMAX - 1
     \<Longrightarrow> fold printf_char cs st = st\<lparr>buf := buf st @ cs\<rparr>"
  by (induction cs arbitrary: st) (simp_all add: printf_char_def)

lemma vprintf_eq: "doprnt m 0 fmt args = Inr cs \<Longrightarrow> vprintf m fmt args = Inr (sent (fold printf_char cs \<lparr>buf = [], line = []\<rparr>))"
  by (simp add: vprintf_def sent_def flush_buf_def Let_def)

lemma short_no_newline: "10 \<notin> set cs \<Longrightarrow> n + length cs \<le> 127 \<Longrightarrow> short_lines n cs"
  by (induction cs arbitrary: n) (auto simp: PRINTF_BUFMAX_def)

lemma short_newline: "10 \<notin> set cs \<Longrightarrow> n + length cs \<le> 127 \<Longrightarrow> short_lines n (cs @ [10])"
  by (induction cs arbitrary: n) (auto simp: PRINTF_BUFMAX_def)

lemma printf_short:
  assumes "doprnt m 0 fmt args = Inr cs" "0 \<notin> set cs" "short_lines 0 cs"
  shows "printf m fmt args = Inr cs"
  using vprintf_eq [OF assms(1)] printf_chars_fit [OF assms(2), of "\<lparr>buf = [], line = []\<rparr>"] assms(3)
  by (simp add: printf_def sent_def)

lemma full_line:
  assumes "0 \<notin> set cs" "10 \<notin> set cs" "length cs = PRINTF_BUFMAX"
  shows "sent (fold printf_char cs \<lparr>buf = [], line = []\<rparr>) = cs @ [0, 0, 0]"
proof -
  obtain bs c where cs: "cs = bs @ [c]" using assms(3) by (cases cs rule: rev_cases) (auto simp: PRINTF_BUFMAX_def)
  have "length bs = PRINTF_BUFMAX - 1" using assms(3) by (simp add: cs)
  then show ?thesis using assms(1,2) fill_buf [of bs "\<lparr>buf = [], line = []\<rparr>"]
    by (simp add: cs printf_char_def flush_buf_def Let_def sent_def putchar_bytes_def)
qed

text \<open>
  C36: printf sends the characters that the format stands for, in order; the only bytes it
  may add are nulls. Text whose lines have at most 127 characters is sent as it is. A line
  of 128 characters overflows the buffer: its last character goes out through putchar, which
  sends four bytes, so three nulls follow it.
\<close>

theorem printf_sends_text:
  assumes "doprnt m 0 fmt args = Inr cs" "0 \<notin> set cs"
  shows "\<exists>out. printf m fmt args = Inr out \<and> filter (\<lambda>c. c \<noteq> 0) out = cs
    \<and> (short_lines 0 cs \<longrightarrow> out = cs)
    \<and> (10 \<notin> set cs \<and> length cs = 128 \<longrightarrow> out = cs @ [0, 0, 0])"
proof (intro exI [of _ "sent (fold printf_char cs \<lparr>buf = [], line = []\<rparr>)"] conjI impI)
  show "printf m fmt args = Inr (sent (fold printf_char cs \<lparr>buf = [], line = []\<rparr>))"
    unfolding printf_def using assms(1) by (rule vprintf_eq)
  show "filter (\<lambda>c. c \<noteq> 0) (sent (fold printf_char cs \<lparr>buf = [], line = []\<rparr>)) = cs"
    using printf_chars_sent [OF assms(2), of "\<lparr>buf = [], line = []\<rparr>"] by (simp add: sent_def)
  show "sent (fold printf_char cs \<lparr>buf = [], line = []\<rparr>) = cs" if "short_lines 0 cs"
    using printf_chars_fit [OF assms(2), of "\<lparr>buf = [], line = []\<rparr>"] that by (simp add: sent_def)
  show "sent (fold printf_char cs \<lparr>buf = [], line = []\<rparr>) = cs @ [0, 0, 0]" if "10 \<notin> set cs \<and> length cs = 128"
    using full_line [OF assms(2)] that by (simp add: PRINTF_BUFMAX_def)
qed

theorem printf_sends_text_witness:
  "\<exists>out. printf (\<lambda>a. 0) (asc ''Gravel'' @ [10]) [] = Inr out \<and> filter (\<lambda>c. c \<noteq> 0) out = asc ''Gravel'' @ [10]
    \<and> (short_lines 0 (asc ''Gravel'' @ [10]) \<longrightarrow> out = asc ''Gravel'' @ [10])
    \<and> (10 \<notin> set (asc ''Gravel'' @ [10]) \<and> length (asc ''Gravel'' @ [10]) = 128 \<longrightarrow> out = asc ''Gravel'' @ [10] @ [0, 0, 0])"
  by (rule printf_sends_text [where m = "\<lambda>a. 0" and fmt = "asc ''Gravel'' @ [10]" and args = "[]" and cs = "asc ''Gravel'' @ [10]", unfolded append_assoc])
    (simp_all add: doprnt_plain asc_def)

section \<open>vsnprintf\<close>

definition room :: "int \<Rightarrow> nat \<Rightarrow> nat" where
  "room mx n = (if mx < 0 then n else min n (nat mx))"

lemma savechars:
  "0 \<le> slen st \<Longrightarrow> smax st < 0 \<or> slen st \<le> smax st \<Longrightarrow> k = room (if smax st < 0 then - 1 else smax st - slen st) (length cs)
     \<Longrightarrow> fold savechar cs st = st\<lparr>sbuf := sbuf st + of_nat k, slen := slen st + int k,
           smem := write_bytes (smem st) (sbuf st) (take k cs)\<rparr>"
proof (induction cs arbitrary: st k)
  case Nil
  then show ?case by (simp add: room_def)
next
  case (Cons c cs)
  show ?case
  proof (cases "0 \<le> smax st \<and> slen st = smax st")
    case True
    then have "k = 0" "savechar c st = st" using Cons.prems(3) by (simp_all add: room_def savechar_def SPRINTF_UNLIMITED_def)
    moreover have "fold savechar cs st = st" using Cons.IH [of st 0] Cons.prems True by (simp add: room_def)
    ultimately show ?thesis by simp
  next
    case False
    let ?st = "st\<lparr>slen := slen st + 1, smem := (smem st)(sbuf st := c), sbuf := sbuf st + 1\<rparr>"
    have s: "savechar c st = ?st" using False Cons.prems(1) by (auto simp: savechar_def SPRINTF_UNLIMITED_def)
    obtain j where k: "k = Suc j" and j: "j = room (if smax ?st < 0 then - 1 else smax ?st - slen ?st) (length cs)"
    proof (cases "smax st < 0")
      case True
      then show ?thesis using Cons.prems(3) that [of "length cs"] by (simp add: room_def)
    next
      case le: False
      then have "nat (smax st - slen st) = Suc (nat (smax st - (slen st + 1)))" using False Cons.prems(2) by simp
      then show ?thesis
        using Cons.prems(2,3) le that [of "min (length cs) (nat (smax st - (slen st + 1)))"] False by (simp add: room_def)
    qed
    have "fold savechar cs ?st = ?st\<lparr>sbuf := sbuf ?st + of_nat j, slen := slen ?st + int j,
           smem := write_bytes (smem ?st) (sbuf ?st) (take j cs)\<rparr>"
      by (rule Cons.IH) (use Cons.prems False j in auto)
    then show ?thesis by (simp add: s k add.assoc add.commute)
  qed
qed

lemma write_bytes_end: "write_bytes m a (cs @ [c]) = (write_bytes m a cs)(a + of_nat (length cs) := c)"
  by (induction cs arbitrary: m a) (simp_all add: add.assoc)

text \<open>
  C37: snprintf with a size below 2^31 writes the text cut to the size and then a null: size
  plus one bytes when the text is as long as the size, the null lying just behind the buffer.
  It returns the number of characters written before the null.
\<close>

theorem snprintf_writes_past_size:
  assumes "doprnt m 0 fmt args = Inr cs" "0 \<le> reg_to_int sz"
  shows "snprintf m s sz fmt args
      = Inr (int (length (take (unat sz) cs)), write_bytes m s (take (unat sz) cs @ [0]))
    \<and> (unat sz \<le> length cs \<longrightarrow> write_bytes m s (take (unat sz) cs @ [0]) (s + sz) = 0)"
proof -
  have "uint sz = sint sz"
    unfolding uint_sint by (rule take_bit_int_eq_self) (use assms(2) sint_bounds [of sz] in \<open>simp_all add: reg_to_int_def\<close>)
  then have n: "nat (reg_to_int sz) = unat sz" by (simp add: reg_to_int_def unat_eq_nat_uint)
  define st where "st = \<lparr>sbuf = s, slen = 0, smax = reg_to_int sz, smem = m\<rparr>"
  define k where "k = room (reg_to_int sz) (length cs)"
  have k: "k = length (take (unat sz) cs)" and t: "take k cs = take (unat sz) cs"
    using assms(2) n by (auto simp: k_def room_def min_def)
  have "fold savechar cs st = st\<lparr>sbuf := sbuf st + of_nat k, slen := slen st + int k,
           smem := write_bytes (smem st) (sbuf st) (take k cs)\<rparr>"
    by (rule savechars) (use assms(2) in \<open>simp_all add: st_def k_def\<close>)
  then have f: "fold savechar cs st = \<lparr>sbuf = s + of_nat k, slen = int k, smax = reg_to_int sz, smem = write_bytes m s (take k cs)\<rparr>"
    by (simp add: st_def)
  have "vsnprintf m s sz fmt args = Inr (int k, (write_bytes m s (take k cs))(s + of_nat k := 0))"
    using assms(1) f by (simp add: vsnprintf_def Let_def st_def)
  then show ?thesis unfolding t unfolding k by (simp add: write_bytes_end snprintf_def)
qed

theorem snprintf_writes_past_size_witness:
  "snprintf (\<lambda>a. 0xff) 0x2000 2 (asc ''abc'') [] = Inr (2, (\<lambda>a. 0xff)(0x2000 := 97, 0x2001 := 98, 0x2002 := 0))"
proof -
  have "doprnt (\<lambda>a. 0xff) 0 (asc ''abc'') [] = Inr (asc ''abc'')" by (rule doprnt_plain) (simp add: asc_def)
  from snprintf_writes_past_size [OF this, where sz = 2 and s = "0x2000"] show ?thesis
    by (simp add: reg_to_int_def asc_def)
qed

section \<open>Scanning\<close>

lemma scan_digits_eq:
  "c_string m p (map ((!) digs) ds) \<Longrightarrow> list_all (\<lambda>d. d < 10) ds
     \<Longrightarrow> scan_digits m p n = Some (foldl (\<lambda>v d. v * 10 + of_nat d) n ds, p + of_nat (length ds))"
proof (induction ds arbitrary: p n)
  case Nil
  then show ?case by (simp add: scan_digits.simps [of m p])
next
  case (Cons d ds)
  have "list_all (\<lambda>d. digs ! d \<ge> 48 \<and> digs ! d \<le> 57 \<and> (ucast (digs ! d) - 48 :: u32) = of_nat d) [0..<10]" by code_simp
  then have "digs ! d \<ge> 48 \<and> digs ! d \<le> 57 \<and> (ucast (digs ! d) - 48 :: u32) = of_nat d"
    using Cons.prems(2) by (simp add: list_all_iff)
  then show ?case using Cons.prems Cons.IH [of "p + 1" "n * 10 + of_nat d"]
    by (simp add: scan_digits.simps [of m p] add.assoc)
qed

lemma scan_hex_eq:
  "c_string m p (map ((!) digs) ds) \<Longrightarrow> list_all (\<lambda>d. d < 16) ds
     \<Longrightarrow> scan_hex m p n = Some (foldl (\<lambda>v d. v * 16 + of_nat d) n ds, p + of_nat (length ds))"
proof (induction ds arbitrary: p n)
  case Nil
  then show ?case by (simp add: scan_hex.simps [of m p])
next
  case (Cons d ds)
  have "list_all (\<lambda>d. if d < 10 then digs ! d \<ge> 48 \<and> digs ! d \<le> 57 \<and> (ucast (digs ! d) - 48 :: u32) = of_nat d
      else digs ! d \<ge> 97 \<and> digs ! d \<le> 102 \<and> (ucast (digs ! d) - 97 + 10 :: u32) = of_nat d \<and> \<not> digs ! d \<le> 57) [0..<16]"
    by code_simp
  then have "if d < 10 then digs ! d \<ge> 48 \<and> digs ! d \<le> 57 \<and> (ucast (digs ! d) - 48 :: u32) = of_nat d
      else digs ! d \<ge> 97 \<and> digs ! d \<le> 102 \<and> (ucast (digs ! d) - 97 + 10 :: u32) = of_nat d \<and> \<not> digs ! d \<le> 57"
    using Cons.prems(2) by (simp add: list_all_iff)
  then show ?case using Cons.prems Cons.IH [of "p + 1" "n * 16 + of_nat d"]
    by (auto simp: scan_hex.simps [of m p] add.assoc Let_def split: if_splits)
qed

lemma word_digits_value:
  "foldl (\<lambda>v d. v * of_nat b + of_nat d) (of_nat v :: u32) ds = of_nat (foldl (\<lambda>v d. v * b + d) v ds)"
  by (induction ds arbitrary: v) (simp_all flip: of_nat_mult of_nat_add)

lemma ndigits_value_nat: "2 \<le> b \<Longrightarrow> foldl (\<lambda>v d. v * b + d) 0 (ndigits b n) = n"
proof -
  have "int (foldl (\<lambda>v d. v * b + d) v ds) = foldl (\<lambda>v d. v * int b + d) (int v) (map int ds)" for v ds
    by (induction ds arbitrary: v) simp_all
  from this [of 0 "ndigits b n"] show "2 \<le> b \<Longrightarrow> ?thesis" using ndigits_value [of b n] by simp
qed

lemma scan_digit_chars:
  "c_string m p (digit_chars 10 n) \<Longrightarrow> scan_digits m p 0 = Some (of_nat n, p + of_nat (length (digit_chars 10 n)))"
  "c_string m p (digit_chars 16 n) \<Longrightarrow> scan_hex m p 0 = Some (of_nat n, p + of_nat (length (digit_chars 16 n)))"
  using scan_digits_eq [of m p "ndigits 10 n" 0] ndigits_less [of 10 _ n] word_digits_value [of 10 0 "ndigits 10 n"]
    scan_hex_eq [of m p "ndigits 16 n" 0] ndigits_less [of 16 _ n] word_digits_value [of 16 0 "ndigits 16 n"]
  by (simp_all add: digit_chars_def list_all_iff ndigits_value_nat)

text \<open>The first digit is not a minus sign.\<close>

lemma scan_number_digits:
  assumes "digits m p 0 = Some (of_nat n, p')" "c_string m p (digit_chars b n)" "2 \<le> b" "b \<le> 16"
  shows "scan_number digits m p False (Word q # args) = Inr (store32 m q (of_nat n), p', args)"
  using assms first_digit(2) [OF assms(3,4,2)] by (simp add: scan_number_def Let_def)

lemma scan_number_minus:
  assumes "digits m (p + 1) 0 = Some (of_nat n, p')" "m p = 45"
  shows "scan_number digits m p False (Word q # args) = Inr (store32 m q (- of_nat n), p', args)"
  using assms by (simp add: scan_number_def Let_def)

lemma vsscanf_letter:
  assumes "scan_conv m s False k args = Inr (m', s', rest)" "k \<noteq> 42"
  shows "vsscanf m s [37, k] args = Inr (1, m')"
  using assms by (simp add: vsscanf_def doscan.simps starts_with_def Let_def)

lemma digit_chars_short: "8 \<le> b \<Longrightarrow> length (digit_chars b (unat (v :: u32))) < 100"
  using ll_length [of b "ucast v"] by (simp add: digit_chars_def unat_ucast_64)

text \<open>
  C35: sscanf reads back what was printed: after a word was printed with %d or %x and stored
  as a string anywhere, sscanf with the same conversion returns 1 and stores the word.
\<close>

theorem sscanf_reads_back:
  "\<exists>d x. doprnt m radix (asc ''%d'') [Word w] = Inr d \<and> doprnt m radix (asc ''%x'') [Word w] = Inr x
     \<and> sscanf (write_bytes m' s (d @ [0])) s (asc ''%d'') [Word q] = Inr (1, store32 (write_bytes m' s (d @ [0])) q w)
     \<and> sscanf (write_bytes m' s (x @ [0])) s (asc ''%x'') [Word q] = Inr (1, store32 (write_bytes m' s (x @ [0])) q w)
     \<and> load32 (store32 (write_bytes m' s (d @ [0])) q w) q = w"
proof -
  have store: "c_string (write_bytes m' s (digit_chars b (unat v) @ [0])) s (digit_chars b (unat v))"
    if "8 \<le> b" "b \<le> 16" for b and v :: u32
    by (rule c_string_write) (use digit_chars_short [OF that(1), of v] digit_chars_nonzero [of b "unat v"] that in simp_all)
  have store_d: "c_string (write_bytes m' s ((45 # digit_chars 10 (unat v)) @ [0])) s (45 # digit_chars 10 (unat v))" for v :: u32
    by (rule c_string_write) (use digit_chars_short [of 10 v] digit_chars_nonzero [of 10 "unat v"] in simp_all)
  note st10 = store [of 10 w, simplified] and st16 = store [of 16 w, simplified]
  define x where "x = digit_chars 16 (unat w)"
  define d where "d = (if sint w < 0 then 45 # digit_chars 10 (unat (- w)) else digit_chars 10 (unat w))"
  have x: "vsscanf (write_bytes m' s (x @ [0])) s [37, 120] [Word q] = Inr (1, store32 (write_bytes m' s (x @ [0])) q w)"
    using scan_number_digits [where digits = scan_hex, OF scan_digit_chars(2) [OF st16] st16] unfolding x_def
    by (intro vsscanf_letter) (simp_all add: scan_conv_def)
  have d: "vsscanf (write_bytes m' s (d @ [0])) s [37, 100] [Word q] = Inr (1, store32 (write_bytes m' s (d @ [0])) q w)"
  proof (cases "sint w < 0")
    case True
    have m: "write_bytes m' s (d @ [0]) s = 45" "c_string (write_bytes m' s (d @ [0])) (s + 1) (digit_chars 10 (unat (- w)))"
      using store_d [of "- w"] True by (simp_all add: d_def)
    show ?thesis using scan_number_minus [where digits = scan_digits, OF scan_digit_chars(1) [OF m(2)] m(1)]
      by (intro vsscanf_letter) (simp_all add: scan_conv_def)
  next
    case False
    then show ?thesis using scan_number_digits [where digits = scan_digits, OF scan_digit_chars(1) [OF st10] st10]
      by (intro vsscanf_letter) (simp_all add: scan_conv_def d_def)
  qed
  show ?thesis unfolding asc_letters sscanf_def
    by (rule exI [of _ d], rule exI [of _ x]) (simp add: x d doprnt_signed doprnt_unsigned load_store32, simp add: x_def d_def)
qed

text \<open>The bytes of a list in memory, nulls included.\<close>

fun bytes_at :: "memory \<Rightarrow> u32 \<Rightarrow> u8 list \<Rightarrow> bool" where
  "bytes_at m a [] \<longleftrightarrow> True"
| "bytes_at m a (c # cs) \<longleftrightarrow> m a = c \<and> bytes_at m (a + 1) cs"

lemma bytes_at_upd: "\<not> in_region a (length cs) x \<Longrightarrow> bytes_at (m(x := v)) a cs = bytes_at m a cs"
proof (induction cs arbitrary: a)
  case (Cons c cs)
  have "x \<noteq> a" "\<not> in_region (a + 1) (length cs) x" using Cons.prems in_region_Suc by auto
  then show ?case using Cons.IH by simp
qed simp

lemma scan_string_eq:
  "bytes_at m s (cs @ [c]) \<Longrightarrow> list_all (\<lambda>c. \<not> isspace (uint c)) cs \<Longrightarrow> isspace (uint c)
     \<Longrightarrow> apart b (Suc (length cs)) s (Suc (length cs))
     \<Longrightarrow> scan_string m s b False = Some (write_bytes m b cs, s + of_nat (length cs), b + of_nat (length cs))"
proof (induction cs arbitrary: m s b)
  case Nil
  then show ?case by (simp add: scan_string.simps [of m s])
next
  case (Cons d cs)
  have "\<not> in_region s (length ((d # cs) @ [c])) b" using apart_first [OF Cons.prems(4)] by simp
  then have "bytes_at (m(b := d)) s ((d # cs) @ [c])" using Cons.prems(1) by (rule bytes_at_upd [THEN iffD2])
  then have "bytes_at (m(b := d)) (s + 1) (cs @ [c])" by simp
  moreover have "apart (b + 1) (Suc (length cs)) (s + 1) (Suc (length cs))" using apart_tl Cons.prems(4) by simp
  ultimately have "scan_string (m(b := d)) (s + 1) (b + 1) False
      = Some (write_bytes (m(b := d)) (b + 1) cs, s + 1 + of_nat (length cs), b + 1 + of_nat (length cs))"
    using Cons.prems(2,3) Cons.IH [of "m(b := d)" "s + 1" "b + 1"] by (simp del: fun_upd_apply)
  moreover have "m s = d" "\<not> isspace (uint d)" using Cons.prems(1,2) by simp_all
  ultimately show ?case by (simp add: scan_string.simps [of m s] add.assoc del: fun_upd_apply)
qed

text \<open>
  %s of sscanf stores the bytes up to the next white space and a null behind them. A null
  does not end them: the bytes cs may contain nulls, so a string that is not followed by
  white space is read past its end.
\<close>

theorem sscanf_string_ends_at_space:
  assumes "bytes_at m s (cs @ [c])" "list_all (\<lambda>c. \<not> isspace (uint c)) cs" "isspace (uint c)"
    and "apart b (Suc (length cs)) s (Suc (length cs))"
  shows "sscanf m s (asc ''%s'') [Word b] = Inr (1, write_bytes m b (cs @ [0]))"
  unfolding asc_letters sscanf_def
  by (rule vsscanf_letter [where rest = "[]"]) (use scan_string_eq [OF assms] in \<open>simp_all add: scan_conv_def write_bytes_end\<close>)

definition null_inside :: memory where
  "null_inside = (\<lambda>a. 0)(0x100 := 97, 0x102 := 98, 0x103 := 32)"

theorem sscanf_string_ends_at_space_witness:
  "sscanf null_inside 0x100 (asc ''%s'') [Word 0x200]
     = Inr (1, null_inside(0x200 := 97, 0x201 := 0, 0x202 := 98, 0x203 := 0))"
proof -
  have "apart 0x100 (Suc (length [97, 0, 98 :: u8])) 0x200 (Suc (length [97, 0, 98 :: u8]))"
    by (rule apart_below) simp_all
  then have far: "apart 0x200 (Suc (length [97, 0, 98 :: u8])) 0x100 (Suc (length [97, 0, 98 :: u8]))"
    by (rule apart_sym [THEN iffD1])
  have "bytes_at null_inside 0x100 ([97, 0, 98] @ [32])" by (simp add: null_inside_def)
  from sscanf_string_ends_at_space [OF this _ _ far] show ?thesis by (simp add: isspace_def)
qed

end
