(* ===== verification/User_Props.thy ===== *)
theory User_Props
  imports User_Programs C_Stdio_Props
begin

text \<open>
  What the user programs find when they run on the kernel: sys_err reports success for every
  check, mutex_chaser leaves the same value in every mutex but the first, and the task sets
  of the programs pass the schedulability test.
\<close>

section \<open>sys_err\<close>

definition fresh_mutex :: mutex_t where
  "fresh_mutex = \<lparr>bAvailable = True, pHolding_Tcb = None, bLock = False, pSleep_queue = None\<rparr>"

definition made_mutex :: mutex_t where
  "made_mutex = \<lparr>bAvailable = False, pHolding_Tcb = None, bLock = False, pSleep_queue = None\<rparr>"

text \<open>A table with j mutexes made.\<close>

definition mutex_table :: "nat \<Rightarrow> mutex_t list" where
  "mutex_table j = map (\<lambda>i. if i < j then made_mutex else fresh_mutex) [0..<32]"

lemma mutex_table_make: "j < 32 \<Longrightarrow> (mutex_table j)[j := made_mutex] = mutex_table (Suc j)"
  by (rule nth_equalityI) (auto simp: mutex_table_def nth_list_update less_Suc_eq simp del: upt_Suc upt_conv_Cons_Cons)

lemma mutex_table_length [simp]: "length (mutex_table j) = 32"
  by (simp add: mutex_table_def)

lemma mutex_table_nth: "j < 32 \<Longrightarrow> mutex_table j ! j = fresh_mutex"
  by (simp add: mutex_table_def)

lemma reg_int: "- 2147483648 \<le> v \<Longrightarrow> v < 2147483648 \<Longrightarrow> reg_to_int (int_to_reg v) = v"
  using sint_of_int_u32 [of v] by (simp add: reg_to_int_def int_to_reg_def)

lemma mutex_create_table:
  assumes "gtMutex s = mutex_table j" "cur_mutex_num s = int j" "j < 32"
  shows "\<exists>s'. mutex_create s = (int j, s') \<and> gtMutex s' = mutex_table (Suc j) \<and> cur_mutex_num s' = int (Suc j)
    \<and> cur_tcb s' = cur_tcb s \<and> system_tcb s' = system_tcb s"
proof -
  have "made_mutex = fresh_mutex\<lparr>bAvailable := False\<rparr>" by (simp add: made_mutex_def fresh_mutex_def)
  then show ?thesis
    using assms mutex_table_make [OF assms(3)] mutex_table_nth [OF assms(3)]
    by (simp add: mutex_create_def Let_def OS_NUM_MUTEX_def upd_mutex_def disable_interrupts_def enable_interrupts_def)
qed

lemma call_create: "kernel_call malloc rs Mutex_create s
    = (case mutex_create s of (v, s') \<Rightarrow> Inr (Some (reg_to_int (int_to_reg v)), s'))"
  by (simp add: kernel_call_def swi_dispatch_def swi_defs Let_def split: prod.split)

lemma call_lock: "- 2147483648 \<le> i \<Longrightarrow> i < 2147483648 \<Longrightarrow> kernel_call malloc rs (Mutex_lock i) s
    = bind (mutex_lock s i) (\<lambda>(r, s'). Inr (case r of Returned v \<Rightarrow> Some (reg_to_int (int_to_reg v)) | Switched \<Rightarrow> None, s'))"
  by (auto simp: kernel_call_def swi_dispatch_def swi_defs Let_def reg_int bind_def swi_return_def
      split: sum.splits prod.splits outcome.splits)

lemma call_unlock: "- 2147483648 \<le> i \<Longrightarrow> i < 2147483648 \<Longrightarrow> kernel_call malloc rs (Mutex_unlock i) s
    = bind (mutex_unlock s i) (\<lambda>(v, s'). Inr (Some (reg_to_int (int_to_reg v)), s'))"
  by (auto simp: kernel_call_def swi_dispatch_def swi_defs Let_def reg_int bind_def
      split: sum.splits prod.splits)

lemma call_wait: "kernel_call malloc rs (Event_wait d) s
    = bind (event_wait s d) (\<lambda>(r, s'). Inr (case r of Returned v \<Rightarrow> Some (reg_to_int (int_to_reg v)) | Switched \<Rightarrow> None, s'))"
  by (auto simp: kernel_call_def swi_dispatch_def swi_defs Let_def bind_def swi_return_def
      split: sum.splits prod.splits outcome.splits)

lemma call_task_create: "kernel_call malloc rs (Create p n) s
    = bind (task_create malloc s p n) (\<lambda>(r, s'). Inr (case r of Returned v \<Rightarrow> Some (reg_to_int (int_to_reg v)) | Switched \<Rightarrow> None, s'))"
  by (auto simp: kernel_call_def swi_dispatch_def swi_defs Let_def bind_def swi_return_def
      split: sum.splits prod.splits outcome.splits)

lemma run_creates:
  assumes "gtMutex s = mutex_table j" "cur_mutex_num s = int j" "j + k \<le> 32"
  shows "\<exists>s'. run_checks malloc (replicate k (Mutex_create, None) @ rest) err s = run_checks malloc rest err s'
    \<and> gtMutex s' = mutex_table (j + k) \<and> cur_mutex_num s' = int (j + k)
    \<and> cur_tcb s' = cur_tcb s \<and> system_tcb s' = system_tcb s"
  using assms
proof (induction k arbitrary: s j)
  case (Suc k)
  obtain s1 where s1: "mutex_create s = (int j, s1)" "gtMutex s1 = mutex_table (Suc j)" "cur_mutex_num s1 = int (Suc j)"
    "cur_tcb s1 = cur_tcb s" "system_tcb s1 = system_tcb s"
    using mutex_create_table [OF Suc.prems(1,2)] Suc.prems(3) by auto
  obtain s' where s': "run_checks malloc (replicate k (Mutex_create, None) @ rest) err s1 = run_checks malloc rest err s'"
    "gtMutex s' = mutex_table (Suc j + k)" "cur_mutex_num s' = int (Suc j + k)"
    "cur_tcb s' = cur_tcb s1" "system_tcb s' = system_tcb s1"
    using Suc.IH [OF s1(2,3)] Suc.prems(3) by auto
  have "bind r (\<lambda>(out, err, s). Inr (out, err, s)) = r" for r :: "('x \<times> 'y \<times> 'z) res"
    by (cases r) auto
  moreover have "reg_to_int (int_to_reg (int j)) = int j" using Suc.prems(3) by (simp add: reg_int)
  ultimately show ?case using s1 s' by (intro exI [of _ s']) (simp add: call_create swi_stub_def)
qed auto


text \<open>One call that comes back at once, and its check.\<close>

lemma run_check:
  assumes "kernel_call malloc [] k s = Inr (Some v, s1)" "(v', err') = swi_stub v err"
    and "(if w = Errno then err' else v') = expected"
    and "run_checks malloc rest err' s1 = Inr (out, err'', s2)"
  shows "run_checks malloc ((k, Some (w, expected, str)) # rest) err s = Inr (report_suc str @ out, err'', s2)"
  using assms(1,3,4) assms(2) [symmetric] by (simp add: check_return_def)

definition idle_mutexes :: "nat \<Rightarrow> kstate \<Rightarrow> bool" where
  "idle_mutexes c s \<longleftrightarrow> gtMutex s = mutex_table 32 \<and> cur_tcb s = Some c \<and> c < length (system_tcb s)
     \<and> holds_lock (system_tcb s ! c) = 0"

lemma idle_enable [simp]: "idle_mutexes c (enable_interrupts s) = idle_mutexes c s"
  by (simp add: idle_mutexes_def)

lemma made_nth: "i < 32 \<Longrightarrow> mutex_table 32 ! i = made_mutex"
  by (simp add: mutex_table_def)

lemma idle_bad:
  "idle_mutexes c s \<Longrightarrow> bad_mutex s i \<longleftrightarrow> i < 0 \<or> i \<ge> 32"
  by (auto simp: idle_mutexes_def bad_mutex_def OS_NUM_MUTEX_def made_nth made_mutex_def)

lemma idle_calls:
  assumes "idle_mutexes c s"
  shows "i < 0 \<or> i \<ge> 32 \<Longrightarrow> mutex_unlock s i = Inr (- EINVAL, enable_interrupts s)"
    and "i < 0 \<or> i \<ge> 32 \<Longrightarrow> mutex_lock s i = Inr (Returned (- EINVAL), enable_interrupts s)"
    and "0 \<le> i \<Longrightarrow> i < 32 \<Longrightarrow> mutex_unlock s i = Inr (- EPERM, enable_interrupts s)"
    and "d \<ge> 4 \<Longrightarrow> event_wait s d = Inr (Returned (- EINVAL), s)"
  using assms idle_bad [OF assms, of i]
  by (simp_all add: mutex_unlock_def mutex_lock_def Let_def get_cur_tcb_def idle_mutexes_def made_nth made_mutex_def
      event_wait_def event_wait_enter_def deref_def NUM_DEVICES_def not_le)

text \<open>A mutex locked, locked again and unlocked leaves the mutexes idle.\<close>

lemma idle_lock_unlock:
  assumes "idle_mutexes c s" "0 \<le> i" "i < 32"
  shows "\<exists>s1 s2. mutex_lock s i = Inr (Returned 0, s1) \<and> mutex_lock s1 i = Inr (Returned (- EDEADLOCK), enable_interrupts s1)
    \<and> mutex_unlock (enable_interrupts s1) i = Inr (0, s2) \<and> idle_mutexes c s2"
proof -
  have h: "gtMutex s = mutex_table 32" "cur_tcb s = Some c" "c < length (system_tcb s)" "holds_lock (system_tcb s ! c) = 0"
    "\<not> bad_mutex s i" "nat i < 32"
    using assms idle_bad [OF assms(1), of i] by (auto simp: idle_mutexes_def)
  define m where "m = nat i"
  define s1 where "s1 = snd (mutex_lock_tail (upd_mutex (disable_interrupts s) m (\<lambda>x. x\<lparr>bLock := True\<rparr>)) m c)"
  have l: "mutex_lock s i = Inr (Returned 0, s1)"
    using h by (simp add: mutex_lock_def Let_def get_cur_tcb_def made_nth made_mutex_def deref_def s1_def m_def mutex_lock_tail_def)
  have s1: "gtMutex s1 = (mutex_table 32)[m := made_mutex\<lparr>bLock := True, pHolding_Tcb := Some c\<rparr>]"
    "cur_tcb s1 = Some c" "length (system_tcb s1) = length (system_tcb s)" "holds_lock (system_tcb s1 ! c) = 1"
    using h by (simp_all add: s1_def mutex_lock_tail_def Let_def upd_mutex_def upd_tcb_def m_def made_nth)
  then have own: "gtMutex s1 ! m = made_mutex\<lparr>bLock := True, pHolding_Tcb := Some c\<rparr>" "\<not> bad_mutex s1 i"
    using h(6) assms(2,3) by (simp_all add: m_def bad_mutex_def OS_NUM_MUTEX_def made_mutex_def)
  have again: "mutex_lock s1 i = Inr (Returned (- EDEADLOCK), enable_interrupts s1)"
    using own s1(2) by (simp add: mutex_lock_def Let_def get_cur_tcb_def m_def)
  have table: "(gtMutex s1)[m := made_mutex] = mutex_table 32"
    using h(6) list_update_id [of "mutex_table 32" m] by (simp add: s1(1) made_nth m_def)
  define s2 where "s2 = enable_interrupts (upd_tcb (upd_tcb (upd_mutex (upd_mutex (disable_interrupts (enable_interrupts s1)) m
     (\<lambda>x. x\<lparr>bLock := False\<rparr>)) m (\<lambda>x. x\<lparr>pHolding_Tcb := None\<rparr>)) c (\<lambda>t. t\<lparr>holds_lock := holds_lock t - 1\<rparr>)) c
     (\<lambda>t. t\<lparr>cur_prio := native_prio t\<rparr>))"
  have "mutex_unlock (enable_interrupts s1) i = Inr (0, s2)"
    using own s1 h(3,6) by (simp add: mutex_unlock_def Let_def get_cur_tcb_def m_def [symmetric] wake_first_def
        deref_def made_mutex_def upd_mutex_def upd_tcb_def s2_def bad_mutex_def)
  moreover have "idle_mutexes c s2"
    using table own s1 h(3,6) by (simp add: idle_mutexes_def s2_def upd_mutex_def upd_tcb_def m_def [symmetric] made_mutex_def)
  ultimately show ?thesis using l again by blast
qed

text \<open>
  C17: On a kernel just started sys_err reports success for each of its checks: the calls
  return the errors the program expects, those of its main function, which hands over too
  many tasks and a bad address, and those of its task, which runs and holds no mutex.
\<close>

theorem sys_err_succeeds:
  assumes "cur_tcb s = Some c" "c < length (system_tcb s)" "holds_lock (system_tcb s ! c) = 0"
    and "gtMutex s = replicate OS_NUM_MUTEX fresh_mutex" "cur_mutex_num s = 0"
  shows "run_checks malloc (take 2 (sys_err_main tasks)) err s = Inr (concat (map report_suc
    [''1. Test create return EINVAL'', ''2. Test create return EFAULT'']), EFAULT, s)
   \<and> (\<exists>s'. run_checks malloc sys_err_fun1 err s = Inr (concat (map report_suc
    [''3. Mutex Create returns ENOMEM'', ''4. Mutex Unlock return EINVAL'', ''5. Mutex Unlock return EPERM'',
     ''6. Mutex Lock return EINVAL'', ''7. Mutex Lock return success'', ''8. Mutex Lock return EDEADLOCK'',
     ''9. Mutex Unlock return success'', ''10. Event Wait return EINVAL'']), EINVAL, s'))"
proof (rule conjI)
  show "run_checks malloc (take 2 (sys_err_main tasks)) err s = Inr (concat (map report_suc
    [''1. Test create return EINVAL'', ''2. Test create return EFAULT'']), EFAULT, s)"
    by (simp add: sys_err_main_def call_task_create task_create_def OS_AVAIL_TASKS_def valid_addr_def sizeof_task_def
        USR_START_ADDR_def USR_END_ADDR_def swi_stub_def check_return_def reg_int errno_defs)
next
  have t0: "gtMutex s = mutex_table 0" using assms(4) by (simp add: mutex_table_def OS_NUM_MUTEX_def map_replicate_const)
  define rest where "rest = drop MAX_MUTEX sys_err_fun1"
  obtain s1 where s1: "run_checks malloc (replicate MAX_MUTEX (Mutex_create, None) @ rest) err s = run_checks malloc rest err s1"
    "gtMutex s1 = mutex_table 32" "cur_mutex_num s1 = 32" "cur_tcb s1 = Some c" "system_tcb s1 = system_tcb s"
    using run_creates [OF t0, of 32 malloc rest err] assms(1,5) by (auto simp: MAX_MUTEX_def)
  have made: "gtMutex s1 ! i = made_mutex" if "i < 32" for i using that by (simp add: s1(2) mutex_table_def)
  have full: "mutex_create s1 = (- ENOMEM, enable_interrupts s1)"
    using s1(3) by (simp add: mutex_create_def Let_def OS_NUM_MUTEX_def)
  have i1: "idle_mutexes c s1" using assms(2,3) s1 by (simp add: idle_mutexes_def)
  obtain s5 s7 where s5: "mutex_lock (enable_interrupts (enable_interrupts (enable_interrupts (enable_interrupts s1)))) 4 = Inr (Returned 0, s5)"
    "mutex_lock s5 4 = Inr (Returned (- EDEADLOCK), enable_interrupts s5)"
    "mutex_unlock (enable_interrupts s5) 4 = Inr (0, s7)" "idle_mutexes c s7"
    using idle_lock_unlock [of c "enable_interrupts (enable_interrupts (enable_interrupts (enable_interrupts s1)))" 4] i1 by auto
  have "run_checks malloc rest err s1 = Inr (concat (map report_suc
    [''3. Mutex Create returns ENOMEM'', ''4. Mutex Unlock return EINVAL'', ''5. Mutex Unlock return EPERM'',
     ''6. Mutex Lock return EINVAL'', ''7. Mutex Lock return success'', ''8. Mutex Lock return EDEADLOCK'',
     ''9. Mutex Unlock return success'', ''10. Event Wait return EINVAL'']), EINVAL, s7)"
    using i1 s5
    by (simp add: rest_def sys_err_fun1_def call_create full call_lock call_unlock call_wait idle_calls [where c = c]
        swi_stub_def check_return_def reg_int errno_defs)
  then show "\<exists>s'. run_checks malloc sys_err_fun1 err s = Inr (concat (map report_suc
    [''3. Mutex Create returns ENOMEM'', ''4. Mutex Unlock return EINVAL'', ''5. Mutex Unlock return EPERM'',
     ''6. Mutex Lock return EINVAL'', ''7. Mutex Lock return success'', ''8. Mutex Lock return EDEADLOCK'',
     ''9. Mutex Unlock return success'', ''10. Event Wait return EINVAL'']), EINVAL, s')"
    using s1(1) by (auto simp: sys_err_fun1_def rest_def MAX_MUTEX_def)
qed

definition one_task :: kstate where
  "one_task = blank_machine\<lparr>system_tcb := [zero_tcb], cur_tcb := Some 0, gtMutex := replicate 32 fresh_mutex\<rparr>"

theorem sys_err_succeeds_witness:
  "\<exists>out s'. run_checks (\<lambda>_. 1) sys_err_fun1 0 one_task = Inr (out, EINVAL, s')"
  using sys_err_succeeds [of one_task 0 "\<lambda>_. 1" 0 0]
  by (auto simp: one_task_def blank_machine_def zero_tcb_def OS_NUM_MUTEX_def)

section \<open>mutex_chaser\<close>

lemma printf_d:
  assumes "37 \<notin> set cs" "37 \<notin> set ds"
  shows "\<exists>out. printf m (cs @ 37 # 100 # ds) [Word w] = Inr out"
  using assms by (simp add: printf_def vprintf_def doprnt_text doprnt_d doprnt_plain Let_def)

text \<open>One pass through the loop: the lock, the unlock and the wait succeed.\<close>

definition ok_reply :: reply where
  "ok_reply = \<lparr>ret = 0, errno = 0, bytes = []\<rparr>"

definition chaser_pass :: "(chaser_pc \<Rightarrow> u32 list \<Rightarrow> reply \<Rightarrow> (chaser_pc, u32 list) step_res)
    \<Rightarrow> chaser_pc \<Rightarrow> u32 list \<Rightarrow> (chaser_pc \<times> u32 list) res" where
  "chaser_pass p pc vals =
     bind (p pc vals ok_reply) (\<lambda>(_, _, pc1, vals1).
     bind (p pc1 vals1 ok_reply) (\<lambda>(_, _, pc2, vals2).
     bind (p pc2 vals2 ok_reply) (\<lambda>(_, _, pc3, vals3). Inr (pc3, vals3))))"

lemma chaser_print: "\<exists>out. printf no_memory (asc ''>>mutex %d'' @ [10]) [Word w] = Inr out"
proof -
  have "asc ''>>mutex %d'' @ [10] = asc ''>>mutex '' @ 37 # 100 # [10]" by (simp add: asc_def)
  moreover have "\<exists>out. printf no_memory (asc ''>>mutex '' @ 37 # 100 # [10]) [Word w] = Inr out"
    by (rule printf_d) (simp_all add: asc_def)
  ultimately show ?thesis by simp
qed

lemma chaser_pass_eq:
  assumes "pc = Chaser_top cur \<or> pc = Chaser_waited cur" "cur < 32" "length vals = 32"
  shows "chaser_pass (chaser f dev msg diag finish str) pc vals = Inr (Chaser_waited (cur + 1), vals[cur := f (vals ! cur)])"
proof -
  obtain out where "printf no_memory (asc ''>>mutex %d'' @ [10]) [Word (of_nat cur)] = Inr out"
    using chaser_print by blast
  then show ?thesis using assms by (auto simp: chaser_pass_def ok_reply_def MUTEX_NUM_def)
qed

text \<open>
  The tasks in the order of their priorities, a run by the numbers of the tasks whose turn it
  is, and the runs that keep the order of the priorities at every mutex.
\<close>

definition chaser_funs :: "(chaser_pc \<Rightarrow> u32 list \<Rightarrow> reply \<Rightarrow> (chaser_pc, u32 list) step_res) list" where
  "chaser_funs = [chaser_fun1 49, chaser_fun2 50, chaser_fun3 51, chaser_fun4 52]"

fun chaser_run :: "nat list \<Rightarrow> chaser_pc list \<Rightarrow> u32 list \<Rightarrow> (chaser_pc list \<times> u32 list) res" where
  "chaser_run [] pcs vals = Inr (pcs, vals)"
| "chaser_run (t # ts) pcs vals =
     bind (chaser_pass (chaser_funs ! t) (pcs ! t) vals) (\<lambda>(pc, vals'). chaser_run ts (pcs[t := pc]) vals')"

fun in_turn :: "nat \<Rightarrow> nat \<Rightarrow> nat \<Rightarrow> nat \<Rightarrow> nat list \<Rightarrow> bool" where
  "in_turn a b c d [] \<longleftrightarrow> d = 31"
| "in_turn a b c d (t # ts) \<longleftrightarrow>
     (if t = 0 then a < 31 \<and> in_turn (a + 1) b c d ts
      else if t = 1 then b < a \<and> in_turn a (b + 1) c d ts
      else if t = 2 then c < b \<and> in_turn a b (c + 1) d ts
      else t = 3 \<and> d < c \<and> in_turn a b c (d + 1) ts)"

text \<open>The value of mutex k after the tasks took a, b, c and d mutexes.\<close>

definition chaser_value :: "nat \<Rightarrow> nat \<Rightarrow> nat \<Rightarrow> nat \<Rightarrow> nat \<Rightarrow> u32" where
  "chaser_value a b c d k =
     (if k = 0 \<or> k > a then 2 else if k > b then 5 else if k > c then 55 else if k > d then 48 else 624)"

definition chaser_values :: "nat \<Rightarrow> nat \<Rightarrow> nat \<Rightarrow> nat \<Rightarrow> u32 list" where
  "chaser_values a b c d = map (chaser_value a b c d) [0..<32]"

definition after_pass :: "nat \<Rightarrow> chaser_pc \<Rightarrow> bool" where
  "after_pass n pc \<longleftrightarrow> pc = Chaser_top (n + 1) \<or> pc = Chaser_waited (n + 1)"

lemma chaser_values_update:
  "k < 32 \<Longrightarrow> (\<And>i. i < 32 \<Longrightarrow> chaser_value a' b' c' d' i = (if i = k then v else chaser_value a b c d i))
     \<Longrightarrow> (chaser_values a b c d)[k := v] = chaser_values a' b' c' d'"
  by (rule nth_equalityI) (auto simp: chaser_values_def nth_list_update)

lemma chaser_values_nth [simp]: "k < 32 \<Longrightarrow> chaser_values a b c d ! k = chaser_value a b c d k"
  "length (chaser_values a b c d) = 32"
  by (simp_all add: chaser_values_def)

lemma chaser_pass_value:
  assumes "after_pass n pc" "n < 31"
  shows "chaser_pass (chaser f dev msg diag finish str) pc (chaser_values a b c d)
      = Inr (Chaser_waited (Suc (Suc n)), (chaser_values a b c d)[Suc n := f (chaser_value a b c d (Suc n))])"
proof -
  have "pc = Chaser_top (Suc n) \<or> pc = Chaser_waited (Suc n)" using assms(1) by (simp add: after_pass_def)
  moreover have "Suc n < 32" using assms(2) by simp
  ultimately have "chaser_pass (chaser f dev msg diag finish str) pc (chaser_values a b c d)
      = Inr (Chaser_waited (Suc n + 1), (chaser_values a b c d)[Suc n := f (chaser_values a b c d ! Suc n)])"
    by (intro chaser_pass_eq) simp_all
  then show ?thesis using assms(2) by simp
qed

lemma chaser_run_values:
  "in_turn a b c d ts \<Longrightarrow> d \<le> c \<Longrightarrow> c \<le> b \<Longrightarrow> b \<le> a \<Longrightarrow> a \<le> 31
     \<Longrightarrow> after_pass a p0 \<Longrightarrow> after_pass b p1 \<Longrightarrow> after_pass c p2 \<Longrightarrow> after_pass d p3
     \<Longrightarrow> \<exists>pcs. chaser_run ts [p0, p1, p2, p3] (chaser_values a b c d) = Inr (pcs, chaser_values 31 31 31 31)"
proof (induction ts arbitrary: a b c d p0 p1 p2 p3)
  case Nil
  then have "a = 31" "b = 31" "c = 31" "d = 31" by auto
  then show ?case by simp
next
  case (Cons t ts)
  have after: "after_pass (Suc n) (Chaser_waited (Suc (Suc n)))" for n by (simp add: after_pass_def)
  consider "t = 0" "a < 31" "in_turn (Suc a) b c d ts" | "t = 1" "b < a" "in_turn a (Suc b) c d ts"
    | "t = 2" "c < b" "in_turn a b (Suc c) d ts" | "t = 3" "d < c" "in_turn a b c (Suc d) ts"
  proof -
    have "t = 0 \<and> a < 31 \<and> in_turn (Suc a) b c d ts \<or> t = 1 \<and> b < a \<and> in_turn a (Suc b) c d ts
        \<or> t = 2 \<and> c < b \<and> in_turn a b (Suc c) d ts \<or> t = 3 \<and> d < c \<and> in_turn a b c (Suc d) ts"
      using Cons.prems(1) by (simp split: if_splits)
    with that show thesis by blast
  qed
  then show ?case
  proof cases
    case 1
    have "(chaser_values a b c d)[Suc a := 5] = chaser_values (Suc a) b c d"
      by (rule chaser_values_update) (use 1 Cons.prems in \<open>auto simp: chaser_value_def\<close>)
    moreover have "chaser_value a b c d (Suc a) = 2" by (simp add: chaser_value_def)
    ultimately show ?thesis
      using 1 Cons.prems chaser_pass_value [of a p0] Cons.IH [OF 1(3) _ _ _ _ after] by (simp add: chaser_funs_def chaser_fun1_def)
  next
    case 2
    have "(chaser_values a b c d)[Suc b := 55] = chaser_values a (Suc b) c d"
      by (rule chaser_values_update) (use 2 Cons.prems in \<open>auto simp: chaser_value_def\<close>)
    moreover have "chaser_value a b c d (Suc b) = 5" using 2 by (simp add: chaser_value_def)
    ultimately show ?thesis
      using 2 Cons.prems chaser_pass_value [of b p1] Cons.IH [OF 2(3) _ _ _ _ _ after] by (simp add: chaser_funs_def chaser_fun2_def)
  next
    case 3
    have "(chaser_values a b c d)[Suc c := 48] = chaser_values a b (Suc c) d"
      by (rule chaser_values_update) (use 3 Cons.prems in \<open>auto simp: chaser_value_def\<close>)
    moreover have "chaser_value a b c d (Suc c) = 55" using 3 Cons.prems by (simp add: chaser_value_def)
    ultimately show ?thesis
      using 3 Cons.prems chaser_pass_value [of c p2] Cons.IH [OF 3(3) _ _ _ _ _ _ after] by (simp add: chaser_funs_def chaser_fun3_def)
  next
    case 4
    have "(chaser_values a b c d)[Suc d := 624] = chaser_values a b c (Suc d)"
      by (rule chaser_values_update) (use 4 Cons.prems in \<open>auto simp: chaser_value_def\<close>)
    moreover have "chaser_value a b c d (Suc d) = 48" using 4 Cons.prems by (simp add: chaser_value_def)
    ultimately show ?thesis
      using 4 Cons.prems chaser_pass_value [of d p3] Cons.IH [OF 4(3) _ _ _ _ _ _ _ after] by (simp add: chaser_funs_def chaser_fun4_def)
  qed
qed

text \<open>
  Whenever the tasks of mutex_chaser take every mutex in the order of their priorities,
  all mutexes from 1 on end at the value the program expects, 624 (a comment of it says 61).
  Mutex 0, which no task ever takes, stays at 2, so its verdict is No, but the program says
  that the test passed whatever the values are. The periods of the tasks give such an order
  (releases_in_turn).
\<close>

theorem mutex_chaser_result:
  assumes "in_turn 0 0 0 0 ts"
  shows "(\<exists>pcs. chaser_run ts (replicate 4 (Chaser_top 1)) (replicate MUTEX_NUM init_val)
      = Inr (pcs, 2 # replicate 31 result_val))
    \<and> result_val = 624
    \<and> (chaser_verdict 0 vals = Inr out \<longrightarrow> (\<exists>before. out = before @ puts_line TEST_DONE))"
proof (intro conjI impI)
  have "chaser_values 0 0 0 0 = replicate MUTEX_NUM init_val"
    by (rule nth_equalityI) (auto simp: chaser_value_def MUTEX_NUM_def init_val_def)
  moreover have "chaser_values 31 31 31 31 = 2 # replicate 31 result_val"
    by (rule nth_equalityI) (auto simp: chaser_value_def result_val_def init_val_def nth_Cons')
  moreover have "replicate 4 (Chaser_top 1) = [Chaser_top 1, Chaser_top 1, Chaser_top 1, Chaser_top 1]"
    by (simp add: numeral_eq_Suc)
  ultimately show "\<exists>pcs. chaser_run ts (replicate 4 (Chaser_top 1)) (replicate MUTEX_NUM init_val)
      = Inr (pcs, 2 # replicate 31 result_val)"
    using chaser_run_values [OF assms, of "Chaser_top 1" "Chaser_top 1" "Chaser_top 1" "Chaser_top 1"]
    by (simp add: after_pass_def)
  show "result_val = 624" by (simp add: result_val_def init_val_def)
next
  have "\<exists>before. out = before @ puts_line TEST_DONE" if "chaser_verdict i vals = Inr out" for i
    using that
  proof (induction vals arbitrary: i out)
    case (Cons v vals)
    then obtain o1 o2 where "chaser_verdict (i + 1) vals = Inr o2"
      "out = o1 @ puts_line (if v = result_val then YES_STR else NO_STR) @ o2"
      by (auto simp: bind_eq_Inr split: if_splits)
    then show ?case using Cons.IH [of "i + 1" o2] by (metis append.assoc)
  qed simp
  then show "chaser_verdict 0 vals = Inr out \<Longrightarrow> \<exists>before. out = before @ puts_line TEST_DONE" .
qed

text \<open>
  The passes in the time of 301 releases of the fastest task, 15 seconds, when each task is
  released with its period, runs by priority, and finishes before the next release.
\<close>

fun released :: "int \<Rightarrow> (nat \<times> int) list \<Rightarrow> nat list" where
  "released t [] = []"
| "released t ((i, p) # ts) = (if t mod p = 0 \<and> t div p < 31 then i # released t ts else released t ts)"

primrec releases :: "nat \<Rightarrow> int \<Rightarrow> nat list" where
  "releases 0 t = []"
| "releases (Suc k) t = released t [(0, 50), (1, 100), (2, 200), (3, 500)] @ releases k (t + 50)"

lemma releases_in_turn: "in_turn 0 0 0 0 (releases 301 0)"
  by code_simp

lemma release_periods:
  "map (\<lambda>p. uint (T_period (chaser_tasks f1 f2 f3 f4 ! unat p))) [3, 0, 1, 2 :: u32] = [50, 100, 200, 500]"
  "map (\<lambda>d. uint (dev_freq ! d)) [3, 0, 1, 2] = [50, 100, 200, 500]"
  by (simp_all add: chaser_tasks_def user_task_def PERIOD_DEV0_def PERIOD_DEV1_def PERIOD_DEV2_def PERIOD_DEV3_def dev_freq_def)

theorem mutex_chaser_result_witness:
  "\<exists>pcs. chaser_run (releases 301 0) (replicate 4 (Chaser_top 1)) (replicate MUTEX_NUM init_val)
     = Inr (pcs, 2 # replicate 31 624)"
  using mutex_chaser_result [OF releases_in_turn] by auto

section \<open>Task sets\<close>

text \<open>A task set given as a list, its descriptors at the addresses 0, 1, and so on.\<close>

definition order_of :: "task_t list \<Rightarrow> (bool \<times> u32 list) res" where
  "order_of ts = assign_schedule (\<lambda>p. ts ! unat p) (map of_nat [0..<length ts]) (length ts)"

lemma order_ofI:
  assumes "sort_outer (\<lambda>p. ts ! unat p) (length ts) (map of_nat [0..<length ts]) = ps" "length ts = length ps"
    and "ub_loop (map (\<lambda>p. ts ! unat p) ps) 0 (Fin 0) = Inr True"
  shows "order_of ts = Inr (True, ps)"
  using assms by (simp add: order_of_def assign_schedule_def)

lemmas set_eval = user_task_def PERIOD_DEV0_def PERIOD_DEV1_def PERIOD_DEV2_def PERIOD_DEV3_def
lemmas util_eval = this_util_def plain_util_def float_of_u32_def q32_def bound_table_nth bound_digits_def fl_eval

lemma dagger_order: "order_of (dagger_tasks f1 f2) = Inr (True, [0, 1])"
  by (rule order_ofI) (simp_all add: dagger_tasks_def set_eval sort_step_def util_eval)

lemma cyclone_order: "order_of (cyclone_tasks f1) = Inr (True, [0])"
  by (rule order_ofI) (simp_all add: cyclone_tasks_def set_eval sort_step_def util_eval)

lemma simple_order: "order_of (simple_tasks f1 f2 f3) = Inr (True, [0, 1, 2])"
  by (rule order_ofI) (simp_all add: simple_tasks_def set_eval sort_step_def util_eval)

lemma chaser_order: "order_of (chaser_tasks f1 f2 f3 f4) = Inr (True, [3, 0, 1, 2])"
  by (rule order_ofI) (simp_all add: chaser_tasks_def set_eval sort_step_def util_eval)

text \<open>
  The task sets of dagger, cyclone, simple_mutex and mutex_chaser pass the test of the
  kernel. mutex_chaser gives its tasks in another order; the test puts the one with the
  shortest period first, which is the order its values rely on.
\<close>

theorem task_sets_schedulable:
  "order_of (dagger_tasks f1 f2) = Inr (True, [0, 1]) \<and> order_of (cyclone_tasks f1) = Inr (True, [0])
   \<and> order_of (simple_tasks f1 f2 f3) = Inr (True, [0, 1, 2])
   \<and> order_of (chaser_tasks f1 f2 f3 f4) = Inr (True, [3, 0, 1, 2])
   \<and> map (\<lambda>p. lambda (chaser_tasks f1 f2 f3 f4 ! unat p)) [3, 0, 1, 2 :: u32] = [f1, f2, f3, f4]"
  by (simp add: dagger_order cyclone_order simple_order chaser_order) (simp add: chaser_tasks_def user_task_def)

section \<open>stress and simple_mutex\<close>

text \<open>
  stress waits for the device whose number is that of its task, but there are four: a
  task from number 4 on that holds no mutex gets an error and panics. The third task of
  simple_mutex waits with the mutex held, which the kernel refuses, and panics too.
\<close>

theorem stress_and_simple_panic:
  assumes "cur_tcb s = Some c" "c < length (system_tcb s)" and "4 \<le> i" "i < 2 ^ 32"
    and "r = \<lparr>ret = fst (swi_stub v err), errno = snd (swi_stub v err), bytes = []\<rparr>"
  shows "(holds_lock (system_tcb s ! c) = 0 \<and> kernel_call malloc [] (Event_wait (of_nat i)) s = Inr (Some v, s')
      \<longrightarrow> stress_fun1 i Stress_waited g r = Inr (say ''Dev 0 failed'', Spin, Stress_dead, g))
    \<and> (holds_lock (system_tcb s ! c) \<noteq> 0 \<and> kernel_call malloc [] (Event_wait 2) s = Inr (Some v, s')
      \<longrightarrow> simple_fun3 99 Simple_waited h r = Inr (say ''Dev 2 failed'', Spin, Simple_dead, h))"
proof -
  have "of_nat i \<ge> (4 :: u32)" using assms(3,4) by (simp add: word_le_nat_alt unat_of_nat_u32)
  then have "holds_lock (system_tcb s ! c) = 0 \<Longrightarrow> event_wait s (of_nat i) = Inr (Returned (- EINVAL), s)"
    using assms(1,2) by (simp add: event_wait_def event_wait_enter_def deref_def get_cur_tcb_def NUM_DEVICES_def)
  moreover have "holds_lock (system_tcb s ! c) \<noteq> 0 \<Longrightarrow> event_wait s 2 = Inr (Returned (- EHOLDSLOCK), s)"
    using assms(1,2) by (simp add: event_wait_def event_wait_enter_def deref_def get_cur_tcb_def)
  ultimately show ?thesis
    using assms(5) by (auto simp: call_wait reg_int errno_defs swi_stub_def user_panic_def EHOLDSLOCK_def)
qed

theorem stress_and_simple_panic_witness:
  "stress_fun1 4 Stress_waited \<lparr>st_once = 0, st_flag = 0, score = replicate 59 0\<rparr> \<lparr>ret = - 1, errno = EINVAL, bytes = []\<rparr> = Inr (say ''Dev 0 failed'', Spin, Stress_dead,
     \<lparr>st_once = 0, st_flag = 0, score = replicate 59 0\<rparr>)"
proof -
  have "kernel_call (\<lambda>_. 1) [] (Event_wait 4) one_task = Inr (Some (- EINVAL), one_task)"
    by (simp add: call_wait event_wait_def event_wait_enter_def deref_def get_cur_tcb_def NUM_DEVICES_def one_task_def
        blank_machine_def zero_tcb_def reg_int errno_defs)
  then show ?thesis
    using stress_and_simple_panic [where s = one_task and c = 0 and i = 4 and v = "- EINVAL" and err = 0
        and malloc = "\<lambda>_. 1" and s' = one_task and g = "\<lparr>st_once = 0, st_flag = 0, score = replicate 59 0\<rparr>"]
    by (simp add: one_task_def blank_machine_def zero_tcb_def swi_stub_def errno_defs)
qed

end
