(* ===== verification/Programs_On_Kernel.thy ===== *)
theory Programs_On_Kernel
  imports Kernel_Turns User_Props
begin

text \<open>
  User programs on the kernel: the task functions of User_Programs make their calls to the
  dispatcher, the timer ticks while the idle task runs, and the scheduler decides which task
  goes on. A program whose tasks wait for one device each and hold one mutex at a time runs as
  a sequence of turns, in which each task runs alone from one wait to the next.
\<close>

section \<open>Task functions on the kernel\<close>

text \<open>
  A task function p from its place pc, with the reply r of its last call, until it waits for a
  device; k calls at most.
\<close>

definition reply_to :: "int \<Rightarrow> reply \<Rightarrow> reply" where
  "reply_to v r = \<lparr>ret = fst (swi_stub v (errno r)), errno = snd (swi_stub v (errno r)), bytes = []\<rparr>"

definition saying :: "u8 list \<Rightarrow> (u8 list \<times> 'a) res \<Rightarrow> (u8 list \<times> 'a) res" where
  "saying out x = bind x (\<lambda>(out', rest). Inr (out @ out', rest))"

lemma saying_simps [simp]:
  "saying out (Inr (out', rest)) = Inr (out @ out', rest)" "saying out (Inl e) = Inl e"
  by (simp_all add: saying_def)

lemma saying_eq_Inr: "saying out x = Inr (o', rest) \<longleftrightarrow> (\<exists>out'. x = Inr (out', rest) \<and> o' = out @ out')"
  by (auto simp: saying_def bind_eq_Inr)

fun until_wait :: "(u32 \<Rightarrow> u32) \<Rightarrow> ('l \<Rightarrow> 'g \<Rightarrow> reply \<Rightarrow> ('l, 'g) step_res) \<Rightarrow> nat \<Rightarrow> 'l \<Rightarrow> 'g \<Rightarrow> reply \<Rightarrow> kstate
    \<Rightarrow> (u8 list \<times> 'l \<times> 'g \<times> kstate) res" where
  "until_wait malloc p 0 pc g r s = Inl Diverges"
| "until_wait malloc p (Suc k) pc g r s =
     bind (p pc g r) (\<lambda>(out, call, pc', g').
       case call of
         Event_wait d \<Rightarrow> bind (event_wait_enter s d) (\<lambda>(v, s').
           case v of None \<Rightarrow> Inr (out, pc', g', s')
           | Some v \<Rightarrow> saying out (until_wait malloc p k pc' g' (reply_to v r) s'))
       | _ \<Rightarrow> bind (kernel_call malloc [] call s) (\<lambda>(v, s').
           case v of None \<Rightarrow> Inl Diverges
           | Some v \<Rightarrow> saying out (until_wait malloc p k pc' g' (reply_to v r) s')))"

text \<open>
  The same without a kernel: every call succeeds, the mutexes of ms exist, a task takes one
  at a time and gives it back before it waits. The result has the device it waits for.
\<close>

fun alone :: "(int \<Rightarrow> bool) \<Rightarrow> ('l \<Rightarrow> 'g \<Rightarrow> reply \<Rightarrow> ('l, 'g) step_res) \<Rightarrow> nat \<Rightarrow> int option \<Rightarrow> 'l \<Rightarrow> 'g \<Rightarrow> reply
    \<Rightarrow> (u8 list \<times> u32 \<times> 'l \<times> 'g) res" where
  "alone ms p 0 own pc g r = Inl Diverges"
| "alone ms p (Suc k) own pc g r =
     bind (p pc g r) (\<lambda>(out, call, pc', g').
       case call of
         Event_wait d \<Rightarrow> if own = None then Inr (out, d, pc', g') else Inl Undefined
       | Mutex_lock i \<Rightarrow> if own = None \<and> ms i
           then saying out (alone ms p k (Some i) pc' g' (reply_to 0 r)) else Inl Undefined
       | Mutex_unlock i \<Rightarrow> if own = Some i
           then saying out (alone ms p k None pc' g' (reply_to 0 r)) else Inl Undefined
       | _ \<Rightarrow> Inl Undefined)"

definition mutexes_made :: "(int \<Rightarrow> bool) \<Rightarrow> kstate \<Rightarrow> bool" where
  "mutexes_made ms s \<longleftrightarrow> (\<forall>i. ms i \<longrightarrow> \<not> bad_mutex s i)"

lemma mutexes_made_cong: "gtMutex s' = gtMutex s \<Longrightarrow> mutexes_made ms s' = mutexes_made ms s"
  by (simp add: mutexes_made_def bad_mutex_def)

lemma enable_enabled:
  assumes "irq_enabled s" shows "enable_interrupts s = s"
proof -
  have "\<not> (bit (cpsr s) n \<and> bit (PSR_IRQ OR PSR_FIQ) n)" for n
    using arg_cong [OF assms [unfolded irq_enabled_def], of "\<lambda>w. bit w n"] by (simp add: bit_and_iff bit_or_iff)
  then have "cpsr s AND NOT (PSR_IRQ OR PSR_FIQ) = cpsr s"
    by (intro bit_word_eqI) (auto simp: bit_and_iff bit_or_iff bit_not_iff)
  then show ?thesis by (simp add: enable_interrupts_def)
qed

text \<open>A task that holds nothing locks and unlocks: the state is what it was.\<close>

lemma critical_section:
  assumes a: "kernel_at malloc n User ls v t s" and "v_cur v \<noteq> 63" "\<not> bad_mutex s i"
  shows "\<exists>s1. mutex_lock s i = Inr (Returned 0, s1) \<and> mutex_unlock s1 i = Inr (0, s)"
proof -
  have k: "kinv n ls s User" "irq_enabled s" using a by (simp_all add: kernel_at_def)
  note cur = at_cur [OF a]
  obtain c0 where "cur_tcb s = Some c0" "c0 \<in> live n" "prio_inv n c0 (system_tcb s)"
    "mutex_inv c0 (gtMutex s) (holds_lock (system_tcb s ! c0))" using kinv_cur [OF k(1)] by metis
  then have c: "v_cur v \<in> live n" "prio_inv n (v_cur v) (system_tcb s)" "mutex_inv (v_cur v) (gtMutex s) 0"
    using cur by simp_all
  have len: "length (gtMutex s) = 32" using c(3) by (simp add: mutex_inv_def)
  have i: "nat i < 32" using not_bad_mutex [OF assms(3)] by auto
  then have free: "pHolding_Tcb (gtMutex s ! nat i) = None" by (rule mutex_inv_none [OF c(3)])
  then have "\<not> bLock (gtMutex s ! nat i)" "pSleep_queue (gtMutex s ! nat i) = None"
    using c(3) i by (auto simp: mutex_inv_def)
  moreover have "cur_prio (system_tcb s ! v_cur v) = native_prio (system_tcb s ! v_cur v)"
    using c(1,2) cur(3) by (simp add: prio_inv_def)
  ultimately show ?thesis
    using lock_unlock_restores [OF assms(3) len cur(1,2) free _ _ cur(3)] enable_enabled [OF k(2)] by metis
qed

lemma until_wait_alone:
  assumes a: "kernel_at malloc n User ls v t s" "v_cur v \<noteq> 63" and m: "mutexes_made ms s"
    and w: "event_wait_enter s d = Inr (None, s')"
    and "alone ms p k own pc g r = Inr (out, d, pc', g')"
    and "case own of None \<Rightarrow> sc = s | Some i \<Rightarrow> ms i \<and> mutex_lock s i = Inr (Returned 0, sc)"
  shows "until_wait malloc p k pc g r sc = Inr (out, pc', g', s')"
  using assms(5,6)
proof (induction k arbitrary: own pc g r out sc)
  case (Suc k)
  obtain out1 call pc1 g1 where p: "p pc g r = Inr (out1, call, pc1, g1)"
    using Suc.prems(1) by (auto simp: bind_eq_Inr)
  note step = Suc.prems(1) [unfolded alone.simps p bind_Inr prod.case]
  consider (wait) "call = Event_wait d" "own = None" "out1 = out" "pc1 = pc'" "g1 = g'"
    | (lock) i out2 where "call = Mutex_lock i" "own = None" "ms i" "out = out1 @ out2"
        "alone ms p k (Some i) pc1 g1 (reply_to 0 r) = Inr (out2, d, pc', g')"
    | (unlock) i out2 where "call = Mutex_unlock i" "own = Some i" "out = out1 @ out2"
        "alone ms p k None pc1 g1 (reply_to 0 r) = Inr (out2, d, pc', g')"
    using step by (cases call) (auto simp: saying_eq_Inr split: if_splits)
  then show ?case
  proof cases
    case wait
    then show ?thesis using Suc.prems(2) p w by simp
  next
    case (lock i)
    then have b: "\<not> bad_mutex s i" using m by (simp add: mutexes_made_def)
    then have i32: "0 \<le> i" "i < 32" using not_bad_mutex by fastforce+
    obtain s1 where s1: "mutex_lock s i = Inr (Returned 0, s1)" using critical_section [OF a b] by blast
    then have "kernel_call malloc [] (Mutex_lock i) sc = Inr (Some 0, s1)"
      using i32 lock Suc.prems(2) by (simp add: call_lock reg_int)
    moreover have "until_wait malloc p k pc1 g1 (reply_to 0 r) s1 = Inr (out2, pc', g', s')"
      using lock s1 by (intro Suc.IH) auto
    ultimately show ?thesis using lock p by simp
  next
    case (unlock i)
    then have i: "ms i" and l: "mutex_lock s i = Inr (Returned 0, sc)" using Suc.prems(2) by simp_all
    then have b: "\<not> bad_mutex s i" using m by (simp add: mutexes_made_def)
    then have i32: "0 \<le> i" "i < 32" using not_bad_mutex by fastforce+
    have "mutex_unlock sc i = Inr (0, s)" using critical_section [OF a b] l by auto
    then have "kernel_call malloc [] (Mutex_unlock i) sc = Inr (Some 0, s)"
      using i32 by (simp add: call_unlock reg_int)
    moreover have "until_wait malloc p k pc1 g1 (reply_to 0 r) s = Inr (out2, pc', g', s')"
      using unlock by (intro Suc.IH) auto
    ultimately show ?thesis using unlock p by simp
  qed
qed simp

end
