(* ===== verification/Program_Runs.thy ===== *)
theory Program_Runs
  imports Programs_On_Kernel
begin

text \<open>
  Whole runs of a program on the kernel, from tick to tick, and the sequence of turns they
  amount to: at every tick the tasks whose devices are due, in the order of their priorities.
\<close>

section \<open>Runs\<close>

text \<open>
  The tasks that are ready go on in turn until the idle task runs. A task of number t has the
  function p t and stands at pcs t; all have waited for a device, or never ran, so the reply
  they find is that of a call that succeeded.
\<close>

fun run_tasks :: "(u32 \<Rightarrow> u32) \<Rightarrow> (nat \<Rightarrow> 'l \<Rightarrow> 'g \<Rightarrow> reply \<Rightarrow> ('l, 'g) step_res) \<Rightarrow> nat \<Rightarrow> nat \<Rightarrow> (nat \<Rightarrow> 'l) \<Rightarrow> 'g
    \<Rightarrow> kstate \<times> mode \<Rightarrow> (u8 list \<times> (nat \<Rightarrow> 'l) \<times> 'g \<times> kstate) res" where
  "run_tasks malloc p k 0 pcs g sm = Inl Diverges"
| "run_tasks malloc p k (Suc fuel) pcs g (s, Dev_wait_window) =
     bind (dev_wait_sleep s) (\<lambda>s1. run_tasks malloc p k fuel pcs g (resume s1))"
| "run_tasks malloc p k (Suc fuel) pcs g (s, User) =
     (case cur_tcb s of None \<Rightarrow> Inl NullDeref
      | Some c \<Rightarrow>
          if c = IDLE_PRIO then Inr ([], pcs, g, s)
          else bind (until_wait malloc (p c) k (pcs c) g ok_reply s) (\<lambda>(out, pc', g', s').
            saying out (run_tasks malloc p k fuel (pcs(c := pc')) g' (s', Dev_wait_window))))"

text \<open>A run over ticks of the timer, each of which finds the idle task; qs are the registers they find.\<close>

fun run_ticking :: "(u32 \<Rightarrow> u32) \<Rightarrow> (nat \<Rightarrow> 'l \<Rightarrow> 'g \<Rightarrow> reply \<Rightarrow> ('l, 'g) step_res) \<Rightarrow> nat \<Rightarrow> nat \<Rightarrow> (u32 \<Rightarrow> u32) list
    \<Rightarrow> (nat \<Rightarrow> 'l) \<Rightarrow> 'g \<Rightarrow> kstate \<Rightarrow> (u8 list \<times> (nat \<Rightarrow> 'l) \<times> 'g \<times> kstate) res" where
  "run_ticking malloc p k fuel [] pcs g s = Inr ([], pcs, g, s)"
| "run_ticking malloc p k fuel (q # qs) pcs g s =
     bind (C_IRQ_handler (s\<lparr>periph := q\<rparr>) (irq_point User)) (\<lambda>r.
     bind (run_tasks malloc p k fuel pcs g (after_irq User r)) (\<lambda>(out, pcs', g', s').
       saying out (run_ticking malloc p k fuel qs pcs' g' s')))"

text \<open>From the first task on: the tasks run once, then the ticks come.\<close>

definition run_program :: "(u32 \<Rightarrow> u32) \<Rightarrow> (nat \<Rightarrow> 'l \<Rightarrow> 'g \<Rightarrow> reply \<Rightarrow> ('l, 'g) step_res) \<Rightarrow> nat \<Rightarrow> nat \<Rightarrow> (u32 \<Rightarrow> u32) list
    \<Rightarrow> (nat \<Rightarrow> 'l) \<Rightarrow> 'g \<Rightarrow> kstate \<Rightarrow> (u8 list \<times> (nat \<Rightarrow> 'l) \<times> 'g \<times> kstate) res" where
  "run_program malloc p k fuel qs pcs g s =
     bind (run_tasks malloc p k fuel pcs g (s, User)) (\<lambda>(out, pcs', g', s').
       saying out (run_ticking malloc p k fuel qs pcs' g' s'))"

text \<open>The same without a kernel: the tasks ts in turn, each alone; task t waits for device dv t.\<close>

fun turns :: "(int \<Rightarrow> bool) \<Rightarrow> (nat \<Rightarrow> nat) \<Rightarrow> (nat \<Rightarrow> 'l \<Rightarrow> 'g \<Rightarrow> reply \<Rightarrow> ('l, 'g) step_res) \<Rightarrow> nat \<Rightarrow> nat list \<Rightarrow> (nat \<Rightarrow> 'l) \<Rightarrow> 'g
    \<Rightarrow> (u8 list \<times> (nat \<Rightarrow> 'l) \<times> 'g) res" where
  "turns ms dv p k [] pcs g = Inr ([], pcs, g)"
| "turns ms dv p k (t # ts) pcs g =
     bind (alone ms (p t) k None (pcs t) g ok_reply) (\<lambda>(out, d, pc', g').
       if d = of_nat (dv t) then saying out (turns ms dv p k ts (pcs(t := pc')) g') else Inl Undefined)"

lemma turns_Cons:
  assumes "turns ms dv p k (t # ts) pcs g = Inr (out, pcs', g')"
  obtains out1 pc1 g1 out2 where "alone ms (p t) k None (pcs t) g ok_reply = Inr (out1, of_nat (dv t), pc1, g1)"
    "turns ms dv p k ts (pcs(t := pc1)) g1 = Inr (out2, pcs', g')" "out = out1 @ out2"
  using assms by (auto simp: bind_eq_Inr saying_eq_Inr split: if_splits)

lemma turns_append:
  "turns ms dv p k (xs @ ys) pcs g = bind (turns ms dv p k xs pcs g) (\<lambda>(out, pcs', g').
     saying out (turns ms dv p k ys pcs' g'))"
proof (induction xs arbitrary: pcs g)
  case Nil
  show ?case by (cases "turns ms dv p k ys pcs g") auto
next
  case (Cons x xs)
  have *: "saying o1 (bind r (\<lambda>(out, pcs', g'). saying out (f pcs' g')))
      = bind (saying o1 r) (\<lambda>(out, pcs', g'). saying out (f pcs' g'))"
    for o1 f and r :: "(u8 list \<times> (nat \<Rightarrow> 'l) \<times> 'g) res"
    by (cases r; simp add: saying_def split_beta; cases "f (fst (snd (projr r))) (snd (snd (projr r)))"; auto)
  show ?case
    by (cases "alone ms (p x) k None (pcs x) g ok_reply") (auto simp: Cons.IH * simp del: fun_upd_apply)
qed

section \<open>The tasks that are ready\<close>

text \<open>
  All tasks of a set of n wait for their devices, except those in R, which are ready, and the
  first of them runs.
\<close>

definition ready_at :: "(u32 \<Rightarrow> u32) \<Rightarrow> nat \<Rightarrow> (nat \<Rightarrow> nat) \<Rightarrow> nat set \<Rightarrow> u32 \<times> (nat \<Rightarrow> u32) \<Rightarrow> kstate \<Rightarrow> bool" where
  "ready_at malloc n dv R t s \<longleftrightarrow> (\<exists>ls v. kernel_at malloc n User ls v t s \<and> R \<subseteq> {1..n}
     \<and> v_cur v = Min (insert 63 R) \<and> v_ready v = insert 63 R - {v_cur v}
     \<and> (\<forall>x\<in>live n. x \<noteq> v_cur v \<longrightarrow> v_point v x \<noteq> In_irq_over_dev_wait)
     \<and> (\<forall>d<4. set (ls ! d) = {x\<in>{1..n} - R. dv x = d}))"

lemma ready_n: "ready_at malloc n dv R t s \<Longrightarrow> n \<le> 62"
  by (auto simp: ready_at_def kernel_at_def kinv_def vinv_def)

lemma Min_insert_63: "R \<subseteq> {1..n} \<Longrightarrow> n \<le> 62 \<Longrightarrow> R \<noteq> {} \<Longrightarrow> Min (insert (63 :: nat) R) = Min R \<and> Min R \<in> R \<and> Min R \<noteq> 63"
proof -
  assume R: "R \<subseteq> {1..n}" "n \<le> 62" "R \<noteq> {}"
  then have f: "finite R" by (auto intro: finite_subset)
  then have "Min R \<in> R" using R(3) by simp
  moreover from this have "Min R \<le> 62" using R(1,2) by fastforce
  moreover from this have "Min (insert 63 R) = Min R" using f R(3) by (subst Min_insert) linarith+
  ultimately show ?thesis by simp
qed

lemma ready_idle: "ready_at malloc n dv {} t s \<Longrightarrow> cur_tcb s = Some 63"
  by (auto simp: ready_at_def dest!: at_cur(1))

lemma ready_cur:
  assumes r: "ready_at malloc n dv R t s" and R: "R \<noteq> {}" shows "cur_tcb s = Some (Min R)"
proof -
  obtain ls v where "kernel_at malloc n User ls v t s" "R \<subseteq> {1..n}" "v_cur v = Min (insert 63 R)"
    using r by (auto simp: ready_at_def)
  then show ?thesis using Min_insert_63 [OF _ ready_n [OF r] R] at_cur(1) by metis
qed

text \<open>The first of the ready tasks waits and sleeps.\<close>

lemma ready_turn:
  assumes r: "ready_at malloc n dv R t s" and R: "R \<noteq> {}" and dv: "\<And>x. x \<in> {1..n} \<Longrightarrow> dv x < 4"
  shows "\<exists>ls v s1 s2 s'. kernel_at malloc n User ls v t s \<and> v_cur v = Min R \<and> Min R \<noteq> 63
    \<and> event_wait_enter s (of_nat (dv (Min R))) = Inr (None, s1)
    \<and> dev_wait_sleep s1 = Inr s2 \<and> resume s2 = (s', User) \<and> gtMutex s' = gtMutex s
    \<and> ready_at malloc n dv (R - {Min R}) t s'"
proof -
  obtain ls v where v: "kernel_at malloc n User ls v t s" "R \<subseteq> {1..n}" "v_cur v = Min (insert 63 R)"
    "v_ready v = insert 63 R - {v_cur v}" "\<forall>x\<in>live n. x \<noteq> v_cur v \<longrightarrow> v_point v x \<noteq> In_irq_over_dev_wait"
    "\<forall>d<4. set (ls ! d) = {x\<in>{1..n} - R. dv x = d}"
    using r unfolding ready_at_def by (elim exE conjE) (rule that)
  define c where "c = Min R"
  have c: "v_cur v = c" "c \<in> R" "c \<noteq> 63" using Min_insert_63 [OF v(2) ready_n [OF r] R] v(3) by (auto simp: c_def)
  have d: "dv c < 4" using dv c(2) v(2) by auto
  then have d': "unat (of_nat (dv c) :: u32) = dv c" by (simp add: unat_of_nat_u32)
  define ls' where "ls' = ls[dv c := c # ls ! dv c]"
  obtain s1 where s1: "event_wait_enter s (of_nat (dv c)) = Inr (None, s1)" "gtMutex s1 = gtMutex s"
    "kernel_at malloc n Dev_wait_window ls' (v_enqueue v) t s1"
    using at_wait [OF v(1), of "of_nat (dv c)", unfolded c(1) d', OF c(3) d, folded ls'_def] by (elim exE conjE) (rule that)
  define m where "m = Min (insert 63 (R - {c}))"
  have rdy: "v_ready (v_enqueue v) = insert 63 (R - {c})"
    by (simp add: v_enqueue_def v(4) c(1) insert_Diff_if c(3) [symmetric])
  obtain s2 m' s' where s': "dev_wait_sleep s1 = Inr s2" "resume s2 = (s', m')" "gtMutex s' = gtMutex s1"
    "kernel_at malloc n m' ls' (v_sleep m (v_enqueue v)) t s'"
    using at_sleep [OF s1(3), unfolded rdy, folded m_def] by (elim exE conjE) (rule that)
  let ?v = "v_sleep m (v_enqueue v)"
  have "finite (R - {c})" using v(2) by (auto intro: finite_subset)
  then have "m \<in> insert 63 (R - {c})" unfolding m_def by (intro Min_in) auto
  then have m: "m \<in> live n" "m \<noteq> c" using v(2) c(3) by (auto simp: live_def)
  obtain v' where v': "v' = ?v" by blast
  have sel: "v_cur v' = m" "v_ready v' = insert 63 (R - {c}) - {m}" "v_point v' = (v_point v)(c := In_dev_wait)"
    "v_window v' \<longleftrightarrow> v_point v m = In_irq_over_dev_wait"
    using rdy m(2) c(1) by (auto simp: v' v_sleep_def v_switch_def v_enqueue_def)
  have at: "kernel_at malloc n m' ls' v' t s'" using s'(4) v' by simp
  have "\<not> v_window v'" using v(5) m c(1) sel(4) by auto
  with at_mode [OF at] have m': "m' = User" by (metis mode.exhaust)
  have "set (ls' ! e) = {x\<in>{1..n} - (R - {c}). dv x = e}" if "e < 4" for e
    using v(2,6) that c(2) at_queues [OF v(1)] d by (auto simp: ls'_def nth_list_update)
  moreover have "v_point v' x \<noteq> In_irq_over_dev_wait" if "x \<in> live n" for x
    using v(5) that c(1) by (auto simp: sel(3))
  ultimately have "ready_at malloc n dv (R - {c}) t s'"
    using at v(2) unfolding ready_at_def m' by (intro exI [of _ ls'] exI [of _ v']) (auto simp: sel(1,2) m_def)
  then show ?thesis using v(1) c s1 s' m' unfolding c_def by (intro exI [of _ ls] exI [of _ v]) simp
qed

text \<open>A tick makes those ready whose devices are due.\<close>

lemma ready_tick:
  assumes r: "ready_at malloc n dv {} (t, nm) s" and p: "safe_tick q" and now: "now = t + 5"
    and dv: "\<And>x. x \<in> {1..n} \<Longrightarrow> dv x < 4"
  shows "\<exists>r s'. C_IRQ_handler (s\<lparr>periph := q\<rparr>) (irq_point User) = Inr r \<and> after_irq User r = (s', User)
    \<and> gtMutex s' = gtMutex s \<and> ready_at malloc n dv {x\<in>{1..n}. nm (dv x) \<le> now} (now, next_matches now nm) s'"
proof -
  obtain ls v where v: "kernel_at malloc n User ls v (t, nm) s" "v_cur v = 63" "v_ready v = {}"
    "\<forall>x\<in>live n. x \<noteq> 63 \<longrightarrow> v_point v x \<noteq> In_irq_over_dev_wait" "\<forall>d<4. set (ls ! d) = {x\<in>{1..n}. dv x = d}"
    using r unfolding ready_at_def by auto
  define F where "F = {x\<in>{1..n}. nm (dv x) \<le> now}"
  have F: "tasks_due now nm ls = F" using v(5) dv by (auto simp: tasks_due_def F_def)
  obtain o' s' m' where s': "C_IRQ_handler (s\<lparr>periph := q\<rparr>) (irq_point User) = Inr o'" "after_irq User o' = (s', m')"
    "gtMutex s' = gtMutex s"
    "kernel_at malloc n m' (queues_left now nm ls) (v_tick False F v) (now, next_matches now nm) s'"
    using at_tick [OF v(1) p now] unfolding F by blast
  let ?v = "v_tick False F v"
  have sub: "F \<subseteq> {1..n}" by (auto simp: F_def)
  have w: "\<not> v_window v" using at_mode [OF v(1)] by simp
  have sel: "v_cur ?v = Min (insert 63 F) \<and> v_ready ?v = insert 63 F - {v_cur ?v}
    \<and> (\<forall>x\<in>live n. x \<noteq> v_cur ?v \<longrightarrow> v_point ?v x \<noteq> In_irq_over_dev_wait)
    \<and> \<not> v_window ?v"
  proof (cases "F = {}")
    case True
    then show ?thesis using v(2-4) w by (simp add: v_tick_none)
  next
    case False
    note M = Min_insert_63 [OF sub ready_n [OF r] False]
    have "Min F < 63" using M sub ready_n [OF r] by fastforce
    moreover have "Min F \<in> live n" using M sub by (auto simp: live_def)
    ultimately show ?thesis using M False v(2-4) w
      by (auto simp: v_tick_def Let_def v_fire_def v_preempt_def v_switch_def)
  qed
  then have "m' = User" using at_mode [OF s'(4)] by (metis mode.exhaust)
  moreover have "set (queues_left now nm ls ! d) = {x\<in>{1..n} - F. dv x = d}" if "d < 4" for d
    using v(5) that by (auto simp: queues_left_def F_def)
  ultimately have "ready_at malloc n dv F (now, next_matches now nm) s'"
    using s'(4) sub sel unfolding ready_at_def by (intro exI [of _ "queues_left now nm ls"] exI [of _ ?v]) blast
  then show ?thesis using s' \<open>m' = User\<close> unfolding F_def by blast
qed

section \<open>Runs are turns\<close>

text \<open>The tasks that are ready take their turns; two steps for each are enough.\<close>

lemma run_tasks_turns:
  assumes "ready_at malloc n dv (set ts) t s" "sorted ts" "distinct ts" and dv: "\<And>x. x \<in> {1..n} \<Longrightarrow> dv x < 4"
    and "mutexes_made ms s" and "turns ms dv p k ts pcs g = Inr (out, pcs', g')" and "2 * length ts < fuel"
  shows "\<exists>s'. run_tasks malloc p k fuel pcs g (s, User) = Inr (out, pcs', g', s')
    \<and> ready_at malloc n dv {} t s' \<and> gtMutex s' = gtMutex s"
  using assms(1-3,5-)
proof (induction ts arbitrary: s pcs g out fuel)
  case Nil
  then obtain f where "fuel = Suc f" by (cases fuel) auto
  then show ?case using Nil ready_idle [of malloc n dv t s] by (auto simp: IDLE_PRIO_def)
next
  case (Cons x ts)
  have x: "Min (set (x # ts)) = x" "set (x # ts) - {x} = set ts"
    using Cons.prems(2,3) by (auto intro!: Min_eqI)
  from ready_turn [OF Cons.prems(1) _ dv, unfolded x] obtain ls v s1 s2 s' where
    s': "kernel_at malloc n User ls v t s" "v_cur v = x" "x \<noteq> 63"
    "event_wait_enter s (of_nat (dv x)) = Inr (None, s1)" "dev_wait_sleep s1 = Inr s2" "resume s2 = (s', User)"
    "gtMutex s' = gtMutex s" "ready_at malloc n dv (set ts) t s'" by auto
  obtain out1 pc1 g1 out2 where alone: "alone ms (p x) k None (pcs x) g ok_reply = Inr (out1, of_nat (dv x), pc1, g1)"
    and rest: "turns ms dv p k ts (pcs(x := pc1)) g1 = Inr (out2, pcs', g')" "out = out1 @ out2"
    by (rule turns_Cons [OF Cons.prems(5)])
  have wait: "until_wait malloc (p x) k (pcs x) g ok_reply s = Inr (out1, pc1, g1, s1)"
    using until_wait_alone [OF s'(1) _ Cons.prems(4) s'(4) alone, of s] s'(2,3) by simp
  obtain f where fuel: "fuel = Suc (Suc f)" "2 * length ts < f"
    using Cons.prems(6) by (cases fuel; cases "fuel - 1") auto
  have "sorted ts" "distinct ts" "mutexes_made ms s'"
    using Cons.prems(2-4) mutexes_made_cong [OF s'(7)] by simp_all
  from Cons.IH [OF s'(8) this rest(1) fuel(2)] obtain s3 where
    "run_tasks malloc p k f (pcs(x := pc1)) g1 (s', User) = Inr (out2, pcs', g', s3)"
    "ready_at malloc n dv {} t s3" "gtMutex s3 = gtMutex s'" by blast
  then show ?case
    using wait s' at_cur(1) [OF s'(1)] rest(2) by (simp add: fuel(1) IDLE_PRIO_def)
qed

text \<open>
  The i-th tick after the start finds the devices due whose period, in ticks, divides i; the
  tasks are taken in the order of their numbers. time0 is the time at the start.
\<close>

definition period_ticks :: "nat \<Rightarrow> nat" where
  "period_ticks d = unat (dev_freq ! d) div 5"

definition due_at :: "nat \<Rightarrow> (nat \<Rightarrow> nat) \<Rightarrow> nat \<Rightarrow> nat list" where
  "due_at n dv i = filter (\<lambda>x. i mod period_ticks (dv x) = 0) [1..<Suc n]"

definition clock_at :: "u32 \<Rightarrow> nat \<Rightarrow> u32 \<times> (nat \<Rightarrow> u32)" where
  "clock_at time0 i = (time0 + of_nat (5 * i), \<lambda>d. time0 + of_nat (5 * (period_ticks d * (i div period_ticks d + 1))))"

lemma period_ticks_simps:
  "period_ticks 0 = 20" "period_ticks (Suc 0) = 40" "period_ticks 2 = 100" "period_ticks 3 = 10"
  by (simp_all add: period_ticks_def dev_freq_def)

lemma dev_four: "d < 4 \<Longrightarrow> (d :: nat) = 0 \<or> d = 1 \<or> d = 2 \<or> d = 3"
  by auto

lemma period_ticks_facts:
  assumes "d < 4"
  shows "0 < period_ticks d" "period_ticks d \<le> 100" "dev_freq ! d = of_nat (5 * period_ticks d)"
  using dev_four [OF assms] by (auto simp: period_ticks_simps dev_freq_def)

lemma clock_start: "fst (clock_at t 0) = t" "d < 4 \<Longrightarrow> snd (clock_at t 0) d = t + dev_freq ! d"
  by (simp_all add: clock_at_def period_ticks_facts)

lemma unat_clock:
  assumes "unat (t :: u32) + k < 2 ^ 32" shows "unat (t + of_nat k) = unat t + k"
  using assms by (simp add: unat_plus_simple [THEN iffD1] unat_of_nat_u32 word_le_nat_alt unat_word_ariths)

lemma next_multiple:
  assumes "0 < (h :: nat)"
  shows "h * (i div h + 1) \<le> Suc i \<longleftrightarrow> Suc i mod h = 0"
    and "Suc i div h = (if Suc i mod h = 0 then i div h + 1 else i div h)"
    and "h * (i div h + 1) \<le> i + h"
proof -
  show "Suc i div h = (if Suc i mod h = 0 then i div h + 1 else i div h)" by (simp add: div_Suc)
  show "h * (i div h + 1) \<le> i + h" by simp
  have r: "i mod h < h" using assms by simp
  then have "Suc i mod h = 0 \<longleftrightarrow> Suc (i mod h) = h" by (simp add: mod_Suc)
  moreover have "h * (i div h + 1) = h * (i div h) + h" by simp
  ultimately show "h * (i div h + 1) \<le> Suc i \<longleftrightarrow> Suc i mod h = 0"
    using r mult_div_mod_eq [of h i] by linarith
qed

lemma clock_due:
  assumes d: "d < 4" and b: "unat t + 5 * Suc i + 500 < 2 ^ 32"
  shows "snd (clock_at t i) d \<le> fst (clock_at t (Suc i)) \<longleftrightarrow> Suc i mod period_ticks d = 0"
    and "next_matches (fst (clock_at t (Suc i))) (snd (clock_at t i)) d = snd (clock_at t (Suc i)) d"
proof -
  note h = period_ticks_facts [OF d]
  let ?h = "period_ticks d"
  obtain m where m: "m = ?h * (i div ?h + 1)" by blast
  have "m \<le> i + 100" using next_multiple(3) [OF h(1), of i] h(2) m by linarith
  then have "unat (snd (clock_at t i) d) = unat t + 5 * m"
    unfolding clock_at_def snd_conv m [symmetric] using b by (intro unat_clock) simp
  moreover have "unat (fst (clock_at t (Suc i))) = unat t + 5 * Suc i"
    unfolding clock_at_def fst_conv using b by (intro unat_clock) simp
  ultimately show due: "snd (clock_at t i) d \<le> fst (clock_at t (Suc i)) \<longleftrightarrow> Suc i mod ?h = 0"
    using next_multiple(1) [OF h(1), of i] mult_le_cancel1 [of 5 m "Suc i"] unfolding m [symmetric]
    by (simp add: word_le_nat_alt)
  show "next_matches (fst (clock_at t (Suc i))) (snd (clock_at t i)) d = snd (clock_at t (Suc i)) d"
    unfolding next_matches_def due using next_multiple(2) [OF h(1), of i]
    by (simp add: clock_at_def h(3) algebra_simps)
qed

lemma ready_cong: "ready_at malloc n dv R (t, nm) s \<Longrightarrow> (\<And>d. d < 4 \<Longrightarrow> nm d = nm' d) \<Longrightarrow> ready_at malloc n dv R (t, nm') s"
  by (fastforce simp: ready_at_def kernel_at_def)

lemma ready_next:
  assumes r: "ready_at malloc n dv {} (clock_at time0 i) s" and q: "safe_tick q"
    and dv: "\<And>x. x \<in> {1..n} \<Longrightarrow> dv x < 4" and b: "unat time0 + 5 * Suc i + 500 < 2 ^ 32"
  shows "\<exists>r s'. C_IRQ_handler (s\<lparr>periph := q\<rparr>) (irq_point User) = Inr r \<and> after_irq User r = (s', User)
    \<and> gtMutex s' = gtMutex s \<and> ready_at malloc n dv (set (due_at n dv (Suc i))) (clock_at time0 (Suc i)) s'"
proof -
  let ?now = "fst (clock_at time0 (Suc i))"
  have now: "?now = fst (clock_at time0 i) + 5" by (simp add: clock_at_def)
  have r': "ready_at malloc n dv {} (fst (clock_at time0 i), snd (clock_at time0 i)) s" using r by simp
  obtain r s' where
    s': "C_IRQ_handler (s\<lparr>periph := q\<rparr>) (irq_point User) = Inr r" "after_irq User r = (s', User)" "gtMutex s' = gtMutex s"
    "ready_at malloc n dv {x\<in>{1..n}. snd (clock_at time0 i) (dv x) \<le> ?now} (?now, next_matches ?now (snd (clock_at time0 i))) s'"
    using ready_tick [OF r' q now dv] by blast
  have "{x\<in>{1..n}. snd (clock_at time0 i) (dv x) \<le> ?now} = set (due_at n dv (Suc i))"
    using clock_due(1) [OF dv b] by (auto simp: due_at_def simp del: upt_Suc)
  with s'(4) have "ready_at malloc n dv (set (due_at n dv (Suc i))) (?now, next_matches ?now (snd (clock_at time0 i))) s'"
    by simp
  from ready_cong [OF this clock_due(2) [OF _ b]] s'(1-3) show ?thesis by auto
qed

lemma due_at_sorted: "sorted (due_at n dv i)" "distinct (due_at n dv i)" "length (due_at n dv i) \<le> n" "set (due_at n dv i) \<subseteq> {1..n}"
proof -
  show "sorted (due_at n dv i)" "distinct (due_at n dv i)" "set (due_at n dv i) \<subseteq> {1..n}"
    by (auto simp: due_at_def simp del: upt_Suc intro: sorted_wrt_filter)
  show "length (due_at n dv i) \<le> n" 
    using length_filter_le [of "\<lambda>x. i mod period_ticks (dv x) = 0" "[1..<Suc n]"] by (simp add: due_at_def del: upt_Suc)
qed

lemma run_ticking_turns:
  assumes "ready_at malloc n dv {} (clock_at time0 i) s" and "list_all safe_tick qs"
    and dv: "\<And>x. x \<in> {1..n} \<Longrightarrow> dv x < 4" and "mutexes_made ms s"
    and "turns ms dv p k (concat (map (due_at n dv) [Suc i..<Suc (i + length qs)])) pcs g = Inr (out, pcs', g')"
    and fuel: "2 * n < fuel" and "unat time0 + 5 * (i + length qs) + 500 < 2 ^ 32"
  shows "\<exists>s'. run_ticking malloc p k fuel qs pcs g s = Inr (out, pcs', g', s')
    \<and> ready_at malloc n dv {} (clock_at time0 (i + length qs)) s' \<and> gtMutex s' = gtMutex s"
  using assms(1,2,4,5,7)
proof (induction qs arbitrary: i s pcs g out)
  case (Cons q qs)
  have b: "unat time0 + 5 * Suc i + 500 < 2 ^ 32" "unat time0 + 5 * (Suc i + length qs) + 500 < 2 ^ 32"
    using Cons.prems(5) by simp_all
  have q: "safe_tick q" "list_all safe_tick qs" using Cons.prems(2) by simp_all
  from ready_next [OF Cons.prems(1) q(1) dv b(1)] obtain r s1 where s1:
    "C_IRQ_handler (s\<lparr>periph := q\<rparr>) (irq_point User) = Inr r" "after_irq User r = (s1, User)" "gtMutex s1 = gtMutex s"
    "ready_at malloc n dv (set (due_at n dv (Suc i))) (clock_at time0 (Suc i)) s1" by blast
  let ?rest = "concat (map (due_at n dv) [Suc (Suc i)..<Suc (Suc i + length qs)])"
  have "[Suc i..<Suc (i + length (q # qs))] = Suc i # [Suc (Suc i)..<Suc (Suc i + length qs)]"
    by (simp add: upt_rec)
  then have "turns ms dv p k (due_at n dv (Suc i) @ ?rest) pcs g = Inr (out, pcs', g')" using Cons.prems(4) by simp
  then obtain out1 pcs1 g1 out2 where t: "turns ms dv p k (due_at n dv (Suc i)) pcs g = Inr (out1, pcs1, g1)"
    "turns ms dv p k ?rest pcs1 g1 = Inr (out2, pcs', g')" "out = out1 @ out2"
    unfolding turns_append by (auto simp: bind_eq_Inr saying_eq_Inr)
  have m: "mutexes_made ms s1" using Cons.prems(3) mutexes_made_cong [OF s1(3)] by simp
  have "2 * length (due_at n dv (Suc i)) < fuel" using due_at_sorted(3) [of n dv "Suc i"] fuel by simp
  from run_tasks_turns [OF s1(4) due_at_sorted(1,2) dv m t(1) this] obtain s2 where
    s2: "run_tasks malloc p k fuel pcs g (s1, User) = Inr (out1, pcs1, g1, s2)"
    "ready_at malloc n dv {} (clock_at time0 (Suc i)) s2" "gtMutex s2 = gtMutex s1" by blast
  have m2: "mutexes_made ms s2" using m mutexes_made_cong [OF s2(3)] by simp
  from Cons.IH [OF s2(2) q(2) m2 t(2) b(2)] obtain s' where
    "run_ticking malloc p k fuel qs pcs1 g1 s2 = Inr (out2, pcs', g', s')"
    "ready_at malloc n dv {} (clock_at time0 (Suc i + length qs)) s'" "gtMutex s' = gtMutex s2" by blast
  then show ?case using s1 s2 t(3) by simp
qed simp

text \<open>The turns of n tasks in the time of N ticks.\<close>

definition schedule :: "nat \<Rightarrow> (nat \<Rightarrow> nat) \<Rightarrow> nat \<Rightarrow> nat list" where
  "schedule n dv N = [1..<Suc n] @ concat (map (due_at n dv) [1..<Suc N])"

lemma schedule_Suc: "schedule n dv (Suc N) = schedule n dv N @ due_at n dv (Suc N)"
  by (simp add: schedule_def)

lemma run_program_turns:
  assumes r: "ready_at malloc n dv {1..n} (clock_at time0 0) s" and qs: "list_all safe_tick qs"
    and dv: "\<And>x. x \<in> {1..n} \<Longrightarrow> dv x < 4" and m: "mutexes_made ms s"
    and t: "turns ms dv p k (schedule n dv (length qs)) pcs g = Inr (out, pcs', g')"
    and fuel: "2 * n < fuel" and b: "unat time0 + 5 * length qs + 500 < 2 ^ 32"
  shows "\<exists>s'. run_program malloc p k fuel qs pcs g s = Inr (out, pcs', g', s')
    \<and> ready_at malloc n dv {} (clock_at time0 (length qs)) s' \<and> gtMutex s' = gtMutex s"
proof -
  obtain out1 pcs1 g1 out2 where o: "turns ms dv p k [1..<Suc n] pcs g = Inr (out1, pcs1, g1)"
    "turns ms dv p k (concat (map (due_at n dv) [Suc 0..<Suc (0 + length qs)])) pcs1 g1 = Inr (out2, pcs', g')" "out = out1 @ out2"
    using t unfolding schedule_def turns_append by (auto simp: bind_eq_Inr saying_eq_Inr simp del: upt_Suc)
  have r': "ready_at malloc n dv (set [1..<Suc n]) (clock_at time0 0) s"
    using r by (simp add: atLeastLessThanSuc_atLeastAtMost del: upt_Suc)
  have srt: "sorted [1..<Suc n]" "distinct [1..<Suc n]" "2 * length [1..<Suc n] < fuel" using fuel by (simp_all del: upt_Suc)
  from run_tasks_turns [OF r' srt(1,2) dv m o(1) srt(3)] obtain s1 where
    s1: "run_tasks malloc p k fuel pcs g (s, User) = Inr (out1, pcs1, g1, s1)"
    "ready_at malloc n dv {} (clock_at time0 0) s1" "gtMutex s1 = gtMutex s" by blast
  have m1: "mutexes_made ms s1" using m mutexes_made_cong [OF s1(3)] by simp
  from run_ticking_turns [OF s1(2) qs dv m1 o(2) fuel] b obtain s' where
    "run_ticking malloc p k fuel qs pcs1 g1 s1 = Inr (out2, pcs', g', s')"
    "ready_at malloc n dv {} (clock_at time0 (0 + length qs)) s'" "gtMutex s' = gtMutex s1" by auto
  then show ?thesis using s1 o(3) by (simp add: run_program_def)
qed

text \<open>A task set that was just created has all its tasks ready.\<close>

lemma ready_fresh:
  assumes a: "kernel_at malloc n User (replicate 4 []) v t s" and f: "v_fresh n v"
  shows "ready_at malloc n dv {1..n} t s"
proof -
  have "n \<le> 62" using a by (auto simp: kernel_at_def kinv_def vinv_def)
  then have "Min (insert 63 {1..n}) = (if n = 0 then 63 else 1)"
    by (auto simp: min_def intro!: Min_eqI)
  then show ?thesis
    using a f unfolding ready_at_def v_fresh_def
    by (intro exI [of _ "replicate 4 []"] exI [of _ v]) (auto simp: live_def)
qed

section \<open>Programs of periodic tasks\<close>

text \<open>
  What a program promises: its tasks wait for one device each, and whatever turn it is, a task
  that runs alone reaches its wait, and leaves the program in a state of which this holds again.
\<close>

locale periodic_program =
  fixes p :: "nat \<Rightarrow> 'l \<Rightarrow> 'g \<Rightarrow> reply \<Rightarrow> ('l, 'g) step_res" and k n :: nat and ms :: "int \<Rightarrow> bool" and dv :: "nat \<Rightarrow> nat"
    and inv :: "(nat \<Rightarrow> 'l) \<Rightarrow> 'g \<Rightarrow> bool"
  assumes devices: "t \<in> {1..n} \<Longrightarrow> dv t < 4"
    and turn: "t \<in> {1..n} \<Longrightarrow> inv pcs g \<Longrightarrow> \<exists>out pc' g'. alone ms (p t) k None (pcs t) g ok_reply
      = Inr (out, of_nat (dv t), pc', g') \<and> inv (pcs(t := pc')) g'"
begin

lemma turns_total:
  "set ts \<subseteq> {1..n} \<Longrightarrow> inv pcs g \<Longrightarrow> \<exists>out pcs' g'. turns ms dv p k ts pcs g = Inr (out, pcs', g') \<and> inv pcs' g'"
proof (induction ts arbitrary: pcs g)
  case (Cons t ts)
  obtain out pc' g' where t: "alone ms (p t) k None (pcs t) g ok_reply = Inr (out, of_nat (dv t), pc', g')"
    "inv (pcs(t := pc')) g'" using turn [of t pcs g] Cons.prems by auto
  obtain out2 pcs2 g2 where "turns ms dv p k ts (pcs(t := pc')) g' = Inr (out2, pcs2, g2)" "inv pcs2 g2"
    using Cons.IH [OF _ t(2)] Cons.prems(1) by (auto simp del: fun_upd_apply)
  with t show ?case by (intro exI [of _ "out @ out2"]) simp
qed simp

lemma schedule_tasks: "set (schedule n dv N) \<subseteq> {1..n}"
  using due_at_sorted(4) by (fastforce simp: schedule_def simp del: upt_Suc)

text \<open>The kernel runs the program as its schedule says, without failing.\<close>

lemma runs_on_kernel:
  assumes "ready_at malloc n dv {1..n} (clock_at time0 0) s" and "list_all safe_tick qs"
    and "mutexes_made ms s" and "inv pcs g" and "2 * n < fuel" and "unat time0 + 5 * length qs + 500 < 2 ^ 32"
  shows "\<exists>out pcs' g' s'. turns ms dv p k (schedule n dv (length qs)) pcs g = Inr (out, pcs', g') \<and> inv pcs' g'
    \<and> run_program malloc p k fuel qs pcs g s = Inr (out, pcs', g', s')
    \<and> ready_at malloc n dv {} (clock_at time0 (length qs)) s'"
proof -
  obtain out pcs' g' where t: "turns ms dv p k (schedule n dv (length qs)) pcs g = Inr (out, pcs', g')" "inv pcs' g'"
    using turns_total [OF schedule_tasks assms(4)] by blast
  from run_program_turns [OF assms(1,2) devices assms(3) t(1) assms(5,6)] t show ?thesis by blast
qed

end

end
