(* ===== verification/Program_Start.thy ===== *)
theory Program_Start
  imports Program_Runs Kernel_Props
begin

text \<open>
  From the start of the kernel to the first task of a program: its main function, which makes
  its calls on the boot stack, and the task set it creates.
\<close>

section \<open>Main functions on the kernel\<close>

text \<open>
  A main function from its place pc until the task set it creates takes over, with the output,
  its globals, and the kernel at the first task; k calls at most.
\<close>

fun run_main :: "(u32 \<Rightarrow> u32) \<Rightarrow> ('l \<Rightarrow> 'g \<Rightarrow> reply \<Rightarrow> ('l, 'g) step_res) \<Rightarrow> nat \<Rightarrow> 'l \<Rightarrow> 'g \<Rightarrow> reply \<Rightarrow> kstate
    \<Rightarrow> (u8 list \<times> 'g \<times> kstate \<times> mode) res" where
  "run_main malloc p 0 pc g r s = Inl Diverges"
| "run_main malloc p (Suc k) pc g r s =
     bind (p pc g r) (\<lambda>(out, call, pc', g').
       case call of
         Create tasks num \<Rightarrow> bind (task_create malloc s tasks num) (\<lambda>(o', s').
           case o' of Switched \<Rightarrow> Inr (out, g', resume s')
           | Returned v \<Rightarrow> saying out (run_main malloc p k pc' g' (reply_to v r) s'))
       | _ \<Rightarrow> bind (kernel_call malloc [] call s) (\<lambda>(v, s').
           case v of None \<Rightarrow> Inl Diverges
           | Some v \<Rightarrow> saying out (run_main malloc p k pc' g' (reply_to v r) s')))"

text \<open>What launch_task starts a task with: its function, its argument and its stack.\<close>

definition task_entry :: "kstate \<Rightarrow> nat \<Rightarrow> u32 \<times> u32 \<times> u32" where
  "task_entry s t = (let c = kcontext (system_tcb s ! t) in (r4 c, r5 c, r6 c))"

definition descriptor_entry :: "task_t \<Rightarrow> u32 \<times> u32 \<times> u32" where
  "descriptor_entry d = (lambda d, data d, stack_pos d)"

section \<open>A new task set\<close>

text \<open>All its tasks are ready and start where their descriptors say, in the order of the schedule.\<close>

lemma created_ready:
  assumes b: "booted s" and m: "malloc (4 * num) \<noteq> 0" and c: "task_create malloc s tasks num = Inr (Switched, s2)"
  shows "\<exists>s'. resume s2 = (s', User) \<and> gtMutex s' = gtMutex s
    \<and> ready_at malloc (unat num) dv {1..unat num} (clock_at (sys_time s) 0) s'"
proof -
  have "creatable s" using booted_inv [OF b] by (simp add: boot_inv_def)
  from task_create_inv [where malloc = malloc and tasks = tasks, OF this m] c obtain s' where
    s': "resume s2 = (s', User)" "kinv (unat num) (replicate 4 []) s' User" "irq_enabled s'"
    "v_fresh (unat num) (view s' User (replicate 4 []))" "fresh_devices s'" "sys_time s' = sys_time s" "\<not> holding s'"
    "gtMutex s' = gtMutex s" by auto
  have "reachable malloc (unat num) (s', User)" using reachable.first [OF b m c] s'(1) by simp
  then have "kernel_at malloc (unat num) User (replicate 4 []) (view s' User (replicate 4 [])) (clock_at (sys_time s) 0) s'"
    using s' by (simp add: kernel_at_def clock_start fresh_devices_def)
  from ready_fresh [OF this s'(4)] s' show ?thesis by blast
qed

lemma resume_tcbs: "sp_lr (cpu s) = At_launch_task \<or> sp_lr (cpu s) = At_idle \<Longrightarrow> system_tcb (fst (resume s)) = system_tcb s"
  by (auto simp: resume_def launch_task_def Let_def idle_def)

lemma created_entries:
  assumes b: "booted s" and c: "task_create malloc s tasks num = Inr (Switched, s2)"
    and a: "assign_schedule (read_task (mem s)) (task_pointers tasks (unat num)) (unat num) = Inr (True, order)"
    and t: "1 \<le> t" "t \<le> unat num"
  shows "task_entry (fst (resume s2)) t = descriptor_entry (read_task (mem s) (order ! (t - 1)))"
proof -
  let ?n = "unat num" and ?rd = "read_task (mem s)"
  have cr: "creatable s" using booted_inv [OF b] by (simp add: boot_inv_def)
  then have shape: "rq_shape (run_q (dev_init s))" "length (system_tcb (dev_init s)) = 64" by (simp_all add: creatable_def)
  have n: "?n \<le> 62" using c by (auto simp: task_create_def OS_AVAIL_TASKS_def word_le_nat_alt not_less split: if_splits)
  have "length (task_pointers tasks ?n) = ?n" by (simp add: task_pointers_def)
  then have len: "?n \<le> length order" using assign_schedule_total [of "task_pointers tasks ?n" ?rd] a n by auto
  obtain s1 where s1: "allocate_tasks ?rd order ?n (dev_init s) = Inr s1" "length (system_tcb s1) = 64"
    "rq_wf (run_q s1)" "rq_abs (run_q s1) = fresh_ready ?n"
    "\<forall>i<64. system_tcb s1 ! i = (if 1 \<le> i \<and> i \<le> ?n
         then task_tcb (global_data (dev_init s)) (?rd (order ! (i - 1))) i (system_tcb (dev_init s) ! i)
         else if i = 63 then idle_tcb (global_data (dev_init s)) (system_tcb (dev_init s) ! i)
         else system_tcb (dev_init s) ! i)"
    using allocate_tasks_ok [OF shape n len, of ?rd] by blast
  have s2: "sched_init s1 = Inr s2"
    using c a s1(1) by (auto simp: task_create_def Let_def bind_eq_Inr split: if_splits)
  have ne: "rq_abs (run_q s1) \<noteq> Map.empty" using s1(4) by (auto simp: fresh_ready_def fun_eq_iff)
  have "ready_valid s1" using s1(2,4) n by (auto simp: ready_valid_def fresh_ready_def split: if_splits)
  from dispatch_nosave_ok [OF s1(3) ne this] s2 s1(4) obtain u q where u: "u < 64" "1 \<le> u \<and> u \<le> ?n \<or> u = 63"
    "s2 = ctx_switch_half (s1\<lparr>run_q := q, cur_tcb := Some u\<rparr>) u"
    using s1(2) by (auto simp: sched_init_def fresh_ready_def split: if_splits)
  then have tcbs: "system_tcb s2 = system_tcb s1" "cpu s2 = kcontext (system_tcb s1 ! u)"
    by (simp_all add: ctx_switch_half_def)
  then have "sp_lr (cpu s2) = At_launch_task \<or> sp_lr (cpu s2) = At_idle"
    using u(1,2) s1(5) by (auto simp: task_tcb_def idle_tcb_def)
  from resume_tcbs [OF this] show ?thesis
    using t n s1(5) by (simp add: tcbs task_entry_def descriptor_entry_def Let_def task_tcb_def)
qed

section \<open>A kernel just started\<close>

lemma mutex_init_fresh: "length (gtMutex s) = 32 \<Longrightarrow> gtMutex (mutex_init s) = mutex_table 0"
  by (intro nth_equalityI) (simp_all add: mutex_init_eq init_mutex_def mutex_table_def fresh_mutex_def)

text \<open>On a machine without vectors, with any memory.\<close>

lemma started_kernel:
  "\<exists>s. booted s \<and> mem s = m \<and> sys_time s = 0 \<and> gtMutex s = mutex_table 0 \<and> cur_mutex_num s = 0"
proof -
  have w: "wiring_handler s v h = Inr (- 1, s)" if "mem s = (\<lambda>_. 0)" for s v h
    using that by (simp add: wiring_handler_def Let_def load32_def)
  obtain s1 where s1: "init_timer ((app_startup blank_machine)\<lparr>global_data := 0\<rparr>) = Inr s1"
    by (simp add: init_timer_def update_timer_eq Let_def reg_read_def app_startup_def blank_machine_def)
  then have k: "kmain 0 0 0 blank_machine = Inr (mutex_init s1)"
    by (simp add: kmain_def Let_def init_interrupt_def init_swi_def w app_startup_def blank_machine_def)
  have "length (gtMutex s1) = 32" "sys_time s1 = 0"
    using s1 by (auto simp: init_timer_def update_timer_eq Let_def reg_set_def reg_clear_def reg_write_def app_startup_def
        OS_NUM_MUTEX_def split: if_splits)
  then have "gtMutex (mutex_init s1) = mutex_table 0" "sys_time (mutex_init s1) = 0"
    by (simp_all add: mutex_init_fresh mutex_init_time)
  moreover have "cur_mutex_num (mutex_init s1) = 0" by (simp add: mutex_init_def)
  moreover have "booted ((mutex_init s1)\<lparr>cpsr := 0, mem := m\<rparr>)"
    by (rule booted.io [OF booted.start [OF k, of 0]]) (simp add: io_frame_def)
  ultimately show ?thesis by (intro exI [of _ "(mutex_init s1)\<lparr>cpsr := 0, mem := m\<rparr>"]) simp
qed

text \<open>A list of task descriptors in memory.\<close>

definition task_words :: "task_t \<Rightarrow> u32 list" where
  "task_words d = [lambda d, data d, stack_pos d, C_time d, T_period d, B_time d]"

fun store_words :: "memory \<Rightarrow> u32 \<Rightarrow> u32 list \<Rightarrow> memory" where
  "store_words m a [] = m"
| "store_words m a (w # ws) = store32 (store_words m (a + 4) ws) a w"

lemma load_store32_other:
  assumes "4 \<le> k" "k < 2 ^ 32 - 3" shows "load32 (store32 m a w) (a + of_nat k) = load32 m (a + of_nat k)"
proof -
  have "a + of_nat i \<noteq> a + of_nat (k + j)" if "i < 4" "j < 4" for i j
    using assms that by (subst offset_eq_iff) auto
  from this [of 0] this [of 1] this [of 2] this [of 3]
  have "store32 m a w (a + of_nat (k + j)) = m (a + of_nat (k + j))" if "j < 4" for j
    using that by (auto simp: store32_def)
  from this [of 0] this [of 1] this [of 2] this [of 3] show ?thesis
    by (simp add: load32_def ac_simps)
qed

lemma load_words:
  "i < length ws \<Longrightarrow> 4 * length ws < 2 ^ 32 - 3 \<Longrightarrow> load32 (store_words m a ws) (a + of_nat (4 * i)) = ws ! i"
proof (induction ws arbitrary: a i)
  case (Cons w ws)
  show ?case
  proof (cases i)
    case 0
    then show ?thesis by (simp add: load_store32)
  next
    case (Suc j)
    have "load32 (store_words m a (w # ws)) (a + of_nat (4 * i)) = load32 (store_words m (a + 4) ws) (a + of_nat (4 * i))"
      using Cons.prems Suc unfolding store_words.simps by (intro load_store32_other) auto
    also have "\<dots> = load32 (store_words m (a + 4) ws) (a + 4 + of_nat (4 * j))" by (simp add: Suc algebra_simps)
    also have "\<dots> = ws ! j" using Cons.prems Suc by (intro Cons.IH) auto
    finally show ?thesis by (simp add: Suc)
  qed
qed simp

lemma task_words_nth: "i < length ds \<Longrightarrow> j < 6 \<Longrightarrow> concat (map task_words ds) ! (6 * i + j) = task_words (ds ! i) ! j"
proof (induction ds arbitrary: i)
  case (Cons d ds)
  have "length (task_words d) = 6" by (simp add: task_words_def)
  with Cons show ?case by (cases i) (auto simp: nth_append)
qed simp

lemma stored_tasks:
  assumes "24 * length ds < 2 ^ 32 - 3"
  shows "map (read_task (store_words m a (concat (map task_words ds)))) (task_pointers a (length ds)) = ds"
proof (rule nth_equalityI)
  fix i assume "i < length (map (read_task (store_words m a (concat (map task_words ds)))) (task_pointers a (length ds)))"
  then have i: "i < length ds" by (simp add: task_pointers_def)
  let ?ws = "concat (map task_words ds)"
  have len: "length ?ws = 6 * length ds"
    by (induction ds) (simp_all add: task_words_def)
  have w: "load32 (store_words m a ?ws) (a + of_nat (24 * i) + of_nat (4 * j)) = task_words (ds ! i) ! j" if "j < 6" for j
  proof -
    have "load32 (store_words m a ?ws) (a + of_nat (4 * (6 * i + j))) = ?ws ! (6 * i + j)"
      using i that assms len by (intro load_words) auto
    then show ?thesis using task_words_nth [OF i that] by (simp add: algebra_simps)
  qed
  from w [of 0] w [of 1] w [of 2] w [of 3] w [of 4] w [of 5]
  have "read_task (store_words m a ?ws) (a + of_nat (i * 24)) = ds ! i"
    by (simp add: read_task_def task_words_def mult.commute)
  then show "map (read_task (store_words m a ?ws)) (task_pointers a (length ds)) ! i = ds ! i"
    using i by (simp add: task_pointers_def sizeof_task_def)
qed (simp add: task_pointers_def)

text \<open>A kernel that was just started, with the descriptors of a program in user memory.\<close>

lemma started_with:
  assumes "length ds = n" "n \<le> 62"
  obtains s where "booted s" "map (read_task (mem s)) (task_pointers 0xa0000000 n) = ds" "sys_time s = 0"
    "gtMutex s = mutex_table 0" "cur_mutex_num s = 0"
proof -
  let ?m = "store_words (\<lambda>_. 0) 0xa0000000 (concat (map task_words ds))"
  obtain s where "booted s" "mem s = ?m" "sys_time s = 0" "gtMutex s = mutex_table 0" "cur_mutex_num s = 0"
    using started_kernel [of ?m] by (elim exE conjE) (rule that)
  moreover have "24 * length ds < 2 ^ 32 - 3" using assms by simp
  from stored_tasks [OF this, where m = "\<lambda>_. 0" and a = "0xa0000000"]
  have "map (read_task ?m) (task_pointers 0xa0000000 n) = ds" unfolding assms(1) .
  ultimately show ?thesis by (intro that [of s]) simp_all
qed

lemma tick_list_safe: "list_all safe_tick (replicate k tick_regs)"
  using tick_regs_safe by (simp add: list_all_length)

section \<open>The task set of a program\<close>

text \<open>The test of the kernel sees descriptors only, not where they lie.\<close>

lemma sort_step_map:
  assumes "\<And>x. x \<in> set xs \<Longrightarrow> rd' x = rd (h x)" "Suc j < length xs"
  shows "sort_step rd j (map h xs) = map h (sort_step rd' j xs)"
  using assms by (simp add: sort_step_def Let_def map_update)

lemma sort_inner_map:
  assumes "\<And>x. x \<in> set xs \<Longrightarrow> rd' x = rd (h x)" "i < length xs"
  shows "sort_inner rd i (map h xs) = map h (sort_inner rd' i xs)"
  using assms
proof (induction i arbitrary: xs)
  case (Suc i)
  have "set (sort_step rd' i xs) = set xs" using mset_sort_step [of i xs rd'] Suc.prems(2) by (metis Suc_eq_plus1 mset_eq_setD)
  then show ?case using Suc.IH [of "sort_step rd' i xs"] Suc.prems sort_step_map [of xs rd' rd h i] by simp
qed simp

lemma sort_outer_map:
  assumes "\<And>x. x \<in> set xs \<Longrightarrow> rd' x = rd (h x)" "i \<le> length xs"
  shows "sort_outer rd i (map h xs) = map h (sort_outer rd' i xs)"
  using assms
proof (induction i arbitrary: xs)
  case (Suc i)
  have "set (sort_inner rd' i xs) = set xs" using mset_sort_inner [of i xs rd'] Suc.prems(2) by (metis Suc_le_lessD mset_eq_setD)
  then show ?case using Suc.IH [of "sort_inner rd' i xs"] Suc.prems sort_inner_map [of xs rd' rd h i] by simp
qed simp

lemma assign_schedule_pointers:
  assumes ts: "map (read_task m) (task_pointers a (length ts)) = ts" and o: "order_of ts = Inr (ok, ps)"
    and n: "length ts < 2 ^ 32"
  shows "assign_schedule (read_task m) (task_pointers a (length ts)) (length ts) = Inr (ok, map (\<lambda>p. a + p * 24) ps)"
    and "p \<in> set ps \<Longrightarrow> read_task m (a + p * 24) = ts ! unat p" and "length ps = length ts"
proof -
  let ?xs = "map of_nat [0..<length ts] :: u32 list"
  let ?h = "\<lambda>p. a + p * 24 :: u32" and ?rd' = "\<lambda>p. ts ! unat p"
  have ptrs: "task_pointers a (length ts) = map ?h ?xs"
    by (simp add: task_pointers_def sizeof_task_def comp_def)
  have rd: "?rd' x = read_task m (?h x)" if "x \<in> set ?xs" for x
  proof -
    obtain i where i: "i < length ts" "x = of_nat i" using \<open>x \<in> set ?xs\<close> by auto
    then have "ts ! i = read_task m (task_pointers a (length ts) ! i)"
      by (subst ts [symmetric]) (simp add: task_pointers_def)
    then show ?thesis using i n by (simp add: ptrs unat_of_nat_u32)
  qed
  have sorted: "sort_outer (read_task m) (length ts) (map ?h ?xs) = map ?h (sort_outer ?rd' (length ts) ?xs)"
    using rd by (intro sort_outer_map) auto
  have set: "set (sort_outer ?rd' (length ts) ?xs) = set ?xs"
    using mset_sort_outer [of "length ts" ?xs ?rd'] by (metis length_map length_upt minus_nat.diff_0 mset_eq_setD order_refl)
  then have ub: "map (read_task m \<circ> ?h) (sort_outer ?rd' (length ts) ?xs) = map ?rd' (sort_outer ?rd' (length ts) ?xs)"
    using rd by (auto simp del: set_map)
  have ps: "ps = sort_outer ?rd' (length ts) ?xs" "ub_loop (map ?rd' ps) 0 (Fin 0) = Inr ok"
    using o by (auto simp: order_of_def assign_schedule_def Let_def bind_eq_Inr)
  then show "assign_schedule (read_task m) (task_pointers a (length ts)) (length ts) = Inr (ok, map ?h ps)"
    unfolding ptrs assign_schedule_def sorted by (simp add: ub)
  show "length ps = length ts" by (simp add: ps(1))
  show "read_task m (a + p * 24) = ts ! unat p" if "p \<in> set ps"
    using rd [of p] that set ps(1) by simp
qed

text \<open>
  A task set whose descriptors lie in user memory and that passes the test is created: its
  tasks are ready, and task t starts as the t-th descriptor of the order says.
\<close>

lemma task_set_created:
  assumes b: "booted s" and n: "n = length ts" "n \<le> 62" and m: "malloc (4 * of_nat n) \<noteq> 0"
    and ts: "map (read_task (mem s)) (task_pointers a n) = ts" and o: "order_of ts = Inr (True, ps)"
    and v: "valid_addr a (of_nat n * of_nat sizeof_task) USR_START_ADDR USR_END_ADDR"
  shows "\<exists>s2 s'. task_create malloc s a (of_nat n) = Inr (Switched, s2) \<and> resume s2 = (s', User) \<and> gtMutex s' = gtMutex s
    \<and> ready_at malloc n dv {1..n} (clock_at (sys_time s) 0) s'
    \<and> map (task_entry s') [1..<Suc n] = map (\<lambda>p. descriptor_entry (ts ! unat p)) ps"
proof -
  have un: "unat (of_nat n :: u32) = n" using n(2) by (simp add: unat_of_nat_u32)
  have "length ts < 2 ^ 32" using n by simp
  note as = assign_schedule_pointers [OF ts [unfolded n(1)] o this, folded n(1)]
  have cr: "creatable s" using booted_inv [OF b] by (simp add: boot_inv_def)
  have "\<not> of_nat OS_AVAIL_TASKS < (of_nat n :: u32)" using n(2) un by (simp add: word_less_nat_alt OS_AVAIL_TASKS_def)
  then have "task_create malloc s a (of_nat n) \<noteq> Inr (Returned r, s)" for r
    using v as(1) by (auto simp: task_create_def Let_def un bind_eq_Inr split: if_splits)
  with task_create_inv [where malloc = malloc and tasks = a, OF cr m] obtain s2 where s2: "task_create malloc s a (of_nat n) = Inr (Switched, s2)" by blast
  from created_ready [OF b m s2, of dv] obtain s' where s': "resume s2 = (s', User)" "gtMutex s' = gtMutex s"
    "ready_at malloc n dv {1..n} (clock_at (sys_time s) 0) s'" by (auto simp: un)
  have "task_entry s' t = descriptor_entry (ts ! unat (ps ! (t - 1)))" if "1 \<le> t" "t \<le> n" for t
    using created_entries [OF b s2, unfolded un, OF as(1) that] as(2) [of "ps ! (t - 1)"] as(3) that s'(1) by simp
  then have "map (task_entry s') [1..<Suc n] = map (\<lambda>p. descriptor_entry (ts ! unat p)) ps"
    using as(3) by (intro nth_equalityI) (simp_all del: upt_Suc)
  with s2 s' show ?thesis by blast
qed

section \<open>Programs on the kernel\<close>

text \<open>
  C8: Any program whose tasks wait for one device each, and hold one mutex at a time and none
  while they wait, runs on the kernel as if its tasks ran alone, one after the other: from the
  call that creates its n tasks on, all of them once, and at every tick those whose period it
  ends, from the highest priority to the lowest. No call fails, the output and the globals are
  those of these turns, and 2 n + 1 steps are enough between two ticks.
\<close>

theorem program_runs_as_turns:
  assumes "booted s" and "malloc (4 * num) \<noteq> 0" and "task_create malloc s tasks num = Inr (Switched, s2)"
    and "mutexes_made ms s" and "\<And>x. x \<in> {1..unat num} \<Longrightarrow> dv x < 4"
    and "list_all safe_tick ticks" and "unat (sys_time s) + 5 * length ticks + 500 < 2 ^ 32"
    and "turns ms dv p k (schedule (unat num) dv (length ticks)) pcs g = Inr (out, pcs', g')"
    and "2 * unat num < fuel"
  shows "\<exists>s1 s'. resume s2 = (s1, User) \<and> run_program malloc p k fuel ticks pcs g s1 = Inr (out, pcs', g', s')
    \<and> cur_tcb s' = Some 63 \<and> gtMutex s' = gtMutex s \<and> reachable malloc (unat num) (s', User)"
proof -
  obtain s1 where s1: "resume s2 = (s1, User)" "gtMutex s1 = gtMutex s"
    "ready_at malloc (unat num) dv {1..unat num} (clock_at (sys_time s) 0) s1"
    using created_ready [OF assms(1-3), of dv] by blast
  have "mutexes_made ms s1" using assms(4) mutexes_made_cong [OF s1(2)] by simp
  from run_program_turns [OF s1(3) assms(6,5) this assms(8,9,7)] obtain s' where
    "run_program malloc p k fuel ticks pcs g s1 = Inr (out, pcs', g', s')"
    "ready_at malloc (unat num) dv {} (clock_at (sys_time s) (length ticks)) s'" "gtMutex s' = gtMutex s1" by auto
  moreover from this have "reachable malloc (unat num) (s', User)" by (auto simp: ready_at_def kernel_at_def)
  ultimately show ?thesis using s1 ready_idle by (intro exI [of _ s1] exI [of _ s']) auto
qed

text \<open>Two tasks that send their numbers, for 40 ticks.\<close>

theorem program_runs_as_turns_witness:
  "\<exists>s s2 s1 pcs' s'. booted s \<and> task_create has_memory s 0xa0000000 2 = Inr (Switched, s2) \<and> resume s2 = (s1, User)
    \<and> run_program has_memory (\<lambda>t pc g r. Inr ([of_nat t], Event_wait (of_nat (t - 1)), pc, g)) 1 5
      (replicate 40 tick_regs) (\<lambda>t. ()) () s1 = Inr ([1, 2, 1, 1, 2 :: u8], pcs', (), s') \<and> cur_tcb s' = Some 63"
proof -
  let ?p = "\<lambda>t pc g r. Inr ([of_nat t :: u8], Event_wait (of_nat (t - 1)), pc, g)" and ?dv = "\<lambda>t. t - 1 :: nat"
  have n: "2 = length (dagger_tasks 0 0)" "2 \<le> (62 :: nat)" "has_memory (4 * of_nat 2) \<noteq> 0" by (simp_all add: dagger_tasks_def)
  obtain s where s: "booted s" "map (read_task (mem s)) (task_pointers 0xa0000000 2) = dagger_tasks 0 0" "sys_time s = 0"
    "gtMutex s = mutex_table 0" "cur_mutex_num s = 0" by (rule started_with [OF n(1) [symmetric] n(2)])
  have v: "valid_addr 0xa0000000 (of_nat 2 * of_nat sizeof_task) USR_START_ADDR USR_END_ADDR"
    by (simp add: valid_addr_def sizeof_task_def USR_START_ADDR_def USR_END_ADDR_def)
  obtain s2 where s2: "task_create has_memory s 0xa0000000 2 = Inr (Switched, s2)"
    using task_set_created [where malloc = has_memory, OF s(1) n s(2) dagger_order v] by auto
  have dv: "?dv x < 4" if "x \<in> {1..unat (2 :: u32)}" for x using that by auto
  have "schedule 2 ?dv 40 = [1, 2, 1, 1, 2]"
    by (simp add: schedule_def due_at_def upt_rec period_ticks_simps)
  moreover have unit_upd: "(\<lambda>t. ())(x := ()) = (\<lambda>t. ())" for x :: nat by auto
  moreover have "turns (\<lambda>_. False) ?dv ?p 1 ts (\<lambda>t. ()) () = Inr (map of_nat ts, \<lambda>t. (), ())" for ts
    by (induction ts) (simp_all add: unit_upd)
  ultimately have t: "turns (\<lambda>_. False) ?dv ?p 1 (schedule (unat (2 :: u32)) ?dv (length (replicate 40 tick_regs))) (\<lambda>t. ()) ()
      = Inr ([1, 2, 1, 1, 2], \<lambda>t. (), ())"
    by (simp del: One_nat_def turns.simps)
  show ?thesis
    using program_runs_as_turns [where malloc = has_memory, OF s(1) _ s2 _ dv tick_list_safe _ t, of 5] s(1,3) s2
    by (simp add: mutexes_made_def) blast
qed

end
