(* ===== verification/Chaser_On_Kernel.thy ===== *)
theory Chaser_On_Kernel
  imports Program_Start
begin

text \<open>
  mutex_chaser on the kernel: one pass of a task, from its lock to its wait, in whatever state
  the kernel is, and the whole run of the program from the start of the kernel to its verdict.
\<close>

section \<open>A pass\<close>

lemma reachable_at:
  "reachable malloc n (s, m) \<Longrightarrow> \<not> holding s \<Longrightarrow> \<exists>ls v t. kernel_at malloc n m ls v t s"
  using reachable_kinv [of malloc n "(s, m)"] unfolding kernel_at_def
  by (auto intro!: exI [of _ "(sys_time s, \<lambda>d. next_match (devices s ! d))"])

lemma reply_ok: "reply_to 0 ok_reply = ok_reply"
  by (simp add: reply_to_def ok_reply_def swi_stub_def)

text \<open>The pass of a task that runs alone.\<close>

lemma chaser_alone_pass:
  assumes "pc = Chaser_top cur \<or> pc = Chaser_waited cur" "ms (int cur)" "cur < 32" "length vals = 32"
  shows "\<exists>out. alone ms (chaser f dev msg diag finish str) 3 None pc vals ok_reply
    = Inr (out, dev, Chaser_waited (cur + 1), vals[cur := f (vals ! cur)])"
proof -
  obtain out where "printf no_memory (asc ''>>mutex %d'' @ [10]) [Word (of_nat cur)] = Inr out"
    using chaser_print by blast
  then show ?thesis
    using assms by (auto simp: numeral_3_eq_3 MUTEX_NUM_def reply_ok saying_def) (auto simp: ok_reply_def)
qed

text \<open>
  A pass of mutex_chaser, as mutex_chaser_result takes it for granted, is what happens on
  the kernel: in any reachable state in which the task runs and holds no mutex, its lock and its
  unlock succeed, whatever the other tasks did, its mutex has the new value, and it waits for
  its device with all mutexes released.
\<close>

theorem chaser_pass_on_kernel:
  assumes "reachable malloc n (s, User)" "cur_tcb s = Some c" "c \<noteq> 63" "\<not> holding s"
    and "\<not> bad_mutex s (int cur)" "cur < MUTEX_NUM" "length vals = MUTEX_NUM" "unat dev < 4"
    and "pc = Chaser_top cur \<or> pc = Chaser_waited cur"
  shows "\<exists>out s'. until_wait malloc (chaser f dev msg diag finish str) 3 pc vals ok_reply s
      = Inr (out, Chaser_waited (cur + 1), vals[cur := f (vals ! cur)], s')
    \<and> chaser_pass (chaser f dev msg diag finish str) pc vals
      = Inr (Chaser_waited (cur + 1), vals[cur := f (vals ! cur)])
    \<and> reachable malloc n (s', Dev_wait_window) \<and> \<not> holding s'"
proof -
  have cur: "cur < 32" "length vals = 32" using assms(6,7) by (simp_all add: MUTEX_NUM_def)
  obtain ls v t where at: "kernel_at malloc n User ls v t s" using reachable_at [OF assms(1,4)] by blast
  have v: "v_cur v \<noteq> 63" using at_cur(1) [OF at] assms(2,3) by simp
  obtain s' where s': "event_wait_enter s dev = Inr (None, s')"
    "kernel_at malloc n Dev_wait_window (ls[unat dev := v_cur v # ls ! unat dev]) (v_enqueue v) t s'"
    using at_wait [OF at v assms(8)] by blast
  have made: "mutexes_made (\<lambda>i. i = int cur) s" using assms(5) by (simp add: mutexes_made_def)
  obtain out where "alone (\<lambda>i. i = int cur) (chaser f dev msg diag finish str) 3 None pc vals ok_reply
      = Inr (out, dev, Chaser_waited (cur + 1), vals[cur := f (vals ! cur)])"
    using chaser_alone_pass [OF assms(9) _ cur] by fastforce
  from until_wait_alone [OF at v made s'(1) this, of s] s'(2) chaser_pass_eq [OF assms(9) cur]
  show ?thesis by (auto simp: kernel_at_def)
qed

text \<open>The first of two tasks takes mutex 0.\<close>

theorem chaser_pass_on_kernel_witness:
  "\<exists>s out s'. reachable has_memory 2 (s, User) \<and> cur_tcb s = Some 1
     \<and> until_wait has_memory (chaser (\<lambda>v. v + 3) 3 [] (\<lambda>_ _. Inr []) (\<lambda>_. Inr []) 49) 3 (Chaser_top 0) (replicate MUTEX_NUM 2) ok_reply s
        = Inr (out, Chaser_waited (0 + 1), (replicate MUTEX_NUM 2)[0 := 5], s')
     \<and> reachable has_memory 2 (s', Dev_wait_window)"
proof -
  obtain v s where v: "v_fresh 2 v" "run_at 2 User (replicate 4 []) v (at_ms 0) s" "\<not> bad_mutex s 0"
    using demo_start by blast
  then have r: "reachable has_memory 2 (s, User)" and h: "\<not> holding s" by (simp_all add: kernel_at_def)
  have c: "cur_tcb s = Some 1" using at_cur(1) [OF v(2)] v(1) by (auto simp: v_fresh_def)
  have "\<not> bad_mutex s (int 0)" using v(3) by simp
  from chaser_pass_on_kernel [OF r c _ h this, of "replicate MUTEX_NUM 2" 3 "Chaser_top 0" "\<lambda>v. v + 3" "[]" "\<lambda>_ _. Inr []" "\<lambda>_. Inr []" 49] r c
  show ?thesis by (auto simp: MUTEX_NUM_def)
qed

section \<open>The tasks and their turns\<close>

text \<open>Task t of the order the kernel gives them, and its device.\<close>

definition chaser_task :: "nat \<Rightarrow> chaser_pc \<Rightarrow> u32 list \<Rightarrow> reply \<Rightarrow> (chaser_pc, u32 list) step_res" where
  "chaser_task t = (if t = 1 then chaser_fun1 49 else if t = 2 then chaser_fun2 50
     else if t = 3 then chaser_fun3 51 else chaser_fun4 52)"

definition chaser_dev :: "nat \<Rightarrow> nat" where
  "chaser_dev t = (if t = 1 then 3 else if t = 2 then 0 else if t = 3 then 1 else 2)"

definition all_mutexes :: "int \<Rightarrow> bool" where
  "all_mutexes i \<longleftrightarrow> 0 \<le> i \<and> i < int OS_NUM_MUTEX"

text \<open>The verdict is printed in full, whatever the values.\<close>

lemma printf_total: "doprnt m 0 fmt args = Inr cs \<Longrightarrow> \<exists>out. printf m fmt args = Inr out"
  using vprintf_eq by (auto simp: printf_def)

lemma doprnt_d_total:
  "doprnt m 0 fmt args = Inr cs \<Longrightarrow> 37 \<notin> set pre \<Longrightarrow> \<exists>cs. doprnt m 0 (pre @ 37 # 100 # fmt) (Word w # args) = Inr cs"
  by (subst doprnt_text) (simp_all add: doprnt_d)

lemma verdict_line:
  "\<exists>out. printf no_memory (asc ''Final mutex%d value %d == result value %d'' @ [10]) [Word a, Word b, Word c] = Inr out"
proof -
  have f: "asc ''Final mutex%d value %d == result value %d'' @ [10]
      = asc ''Final mutex'' @ 37 # 100 # (asc '' value '' @ 37 # 100 # (asc '' == result value '' @ 37 # 100 # [10]))"
    by (simp add: asc_def)
  have "doprnt no_memory 0 [10] [] = Inr [10]" by (rule doprnt_plain) simp
  from doprnt_d_total [OF this, of "asc '' == result value ''" c] obtain c3 where
    "doprnt no_memory 0 (asc '' == result value '' @ 37 # 100 # [10]) [Word c] = Inr c3" by (auto simp: asc_def)
  from doprnt_d_total [OF this, of "asc '' value ''" b] obtain c2 where
    "doprnt no_memory 0 (asc '' value '' @ 37 # 100 # (asc '' == result value '' @ 37 # 100 # [10])) [Word b, Word c] = Inr c2"
    by (auto simp: asc_def)
  from doprnt_d_total [OF this, of "asc ''Final mutex''" a] show ?thesis unfolding f by (auto simp: asc_def intro: printf_total)
qed

lemma verdict_total: "\<exists>out. chaser_verdict i vals = Inr out"
proof (induction vals arbitrary: i)
  case (Cons v vals)
  obtain o1 where "printf no_memory (asc ''Final mutex%d value %d == result value %d'' @ [10])
      [Word (of_nat i), Word v, Word result_val] = Inr o1" using verdict_line by blast
  moreover obtain o2 where "chaser_verdict (i + 1) vals = Inr o2" using Cons.IH by blast
  ultimately show ?case by simp
qed simp

text \<open>
  A task that has had m turns, and the turn after it: it takes mutex m + 1, or has taken all,
  prints what it has to say, and waits for ever.
\<close>

definition chaser_place :: "nat \<Rightarrow> chaser_pc" where
  "chaser_place m = (if m = 0 then Chaser_top 1 else if m \<le> 31 then Chaser_waited (m + 1) else Chaser_idle)"

lemma chaser_turn:
  assumes fin: "finish vals = Inr said" and len: "length vals = 32"
  shows "\<exists>out. alone all_mutexes (chaser f dev msg diag finish str) 3 None (chaser_place m) vals ok_reply
    = Inr (out, dev, chaser_place (Suc m), if m < 31 then vals[Suc m := f (vals ! Suc m)] else vals)
    \<and> (m = 31 \<longrightarrow> out = said)"
proof -
  consider "m < 31" | "m = 31" | "31 < m" by linarith
  then show ?thesis
  proof cases
    case 1
    then have "all_mutexes (int (Suc m))" by (simp add: all_mutexes_def OS_NUM_MUTEX_def)
    moreover have "chaser_place m = Chaser_top (Suc m) \<or> chaser_place m = Chaser_waited (Suc m)"
      using 1 by (auto simp: chaser_place_def)
    ultimately show ?thesis
      using chaser_alone_pass [of "chaser_place m" "Suc m" all_mutexes vals f dev msg diag finish str] 1 len
      by (auto simp: chaser_place_def)
  next
    case 2
    then show ?thesis by (simp add: chaser_place_def numeral_3_eq_3 fin MUTEX_NUM_def) (simp add: ok_reply_def)
  next
    case 3
    then show ?thesis by (simp add: chaser_place_def numeral_3_eq_3) (simp add: ok_reply_def)
  qed
qed

text \<open>
  The places of the four tasks after a, b, c and d turns; with the values of User_Props this is
  the state of the program as long as each task is behind the one of higher priority.
\<close>

definition chaser_places :: "nat \<Rightarrow> nat \<Rightarrow> nat \<Rightarrow> nat \<Rightarrow> nat \<Rightarrow> chaser_pc" where
  "chaser_places a b c d t = chaser_place (if t = 1 then a else if t = 2 then b else if t = 3 then c else if t = 4 then d else 0)"

lemma chaser_places_upd:
  "(chaser_places a b c d)(1 := chaser_place (Suc a)) = chaser_places (Suc a) b c d"
  "(chaser_places a b c d)(2 := chaser_place (Suc b)) = chaser_places a (Suc b) c d"
  "(chaser_places a b c d)(3 := chaser_place (Suc c)) = chaser_places a b (Suc c) d"
  "(chaser_places a b c d)(4 := chaser_place (Suc d)) = chaser_places a b c (Suc d)"
  by (auto simp: chaser_places_def fun_eq_iff)

abbreviation chaser_turns :: "nat list \<Rightarrow> (nat \<Rightarrow> chaser_pc) \<Rightarrow> u32 list \<Rightarrow> (u8 list \<times> (nat \<Rightarrow> chaser_pc) \<times> u32 list) res" where
  "chaser_turns \<equiv> turns all_mutexes chaser_dev chaser_task 3"

lemma chaser_values_cap:
  "(\<And>k. k < 32 \<Longrightarrow> chaser_value a' b' c' d' k = chaser_value a b c d k) \<Longrightarrow> chaser_values a' b' c' d' = chaser_values a b c d"
  by (simp add: chaser_values_def)

text \<open>One turn of the task of counter m, which moves to m + 1 and changes one value, if any.\<close>

lemma chaser_turn_values:
  assumes t: "chaser_task t = chaser f dev msg diag finish str" "of_nat (chaser_dev t) = dev" "chaser_places a b c d t = chaser_place m"
    and fin: "finish (chaser_values a b c d) = Inr said"
    and val: "\<And>k. k < 32 \<Longrightarrow> chaser_value a' b' c' d' k = (if k = Suc m then f (chaser_value a b c d (Suc m)) else chaser_value a b c d k)"
  shows "\<exists>out. chaser_turns [t] (chaser_places a b c d) (chaser_values a b c d)
    = Inr (out, (chaser_places a b c d)(t := chaser_place (Suc m)), chaser_values a' b' c' d') \<and> (m = 31 \<longrightarrow> out = said)"
proof -
  have "(if m < 31 then (chaser_values a b c d)[Suc m := f (chaser_values a b c d ! Suc m)] else chaser_values a b c d)
      = chaser_values a' b' c' d'"
  proof (cases "m < 31")
    case True
    then show ?thesis using val by (simp add: chaser_values_update [of "Suc m"])
  next
    case False
    then have "chaser_values a' b' c' d' = chaser_values a b c d" using val by (intro chaser_values_cap) auto
    with False show ?thesis by simp
  qed
  with chaser_turn [of finish "chaser_values a b c d" said f dev msg diag str m] fin show ?thesis
    by (auto simp: t simp del: fun_upd_apply)
qed

lemma chaser_turn_1:
  assumes "b \<le> a" "c \<le> b" "d \<le> c"
  shows "\<exists>out. chaser_turns [1] (chaser_places a b c d) (chaser_values a b c d)
    = Inr (out, chaser_places (Suc a) b c d, chaser_values (Suc a) b c d)"
proof -
  have "\<exists>out. chaser_turns [1] (chaser_places a b c d) (chaser_values a b c d)
      = Inr (out, (chaser_places a b c d)(1 := chaser_place (Suc a)), chaser_values (Suc a) b c d) \<and> (a = 31 \<longrightarrow> out = [])"
    by (rule chaser_turn_values [where f = "\<lambda>v. v + 3"])
      (use assms in \<open>auto simp: chaser_task_def chaser_fun1_def chaser_dev_def chaser_places_def chaser_value_def\<close>)
  then show ?thesis unfolding chaser_places_upd by blast
qed

lemma chaser_turn_2:
  assumes "b < a" "c \<le> b" "d \<le> c"
  shows "\<exists>out. chaser_turns [2] (chaser_places a b c d) (chaser_values a b c d)
    = Inr (out, chaser_places a (Suc b) c d, chaser_values a (Suc b) c d)"
proof -
  have "\<exists>out. chaser_turns [2] (chaser_places a b c d) (chaser_values a b c d)
      = Inr (out, (chaser_places a b c d)(2 := chaser_place (Suc b)), chaser_values a (Suc b) c d) \<and> (b = 31 \<longrightarrow> out = [])"
    by (rule chaser_turn_values [where f = "\<lambda>v. v * 11"])
      (use assms in \<open>auto simp: chaser_task_def chaser_fun2_def chaser_dev_def chaser_places_def chaser_value_def\<close>)
  then show ?thesis unfolding chaser_places_upd by blast
qed

lemma chaser_turn_3:
  assumes "b \<le> a" "c < b" "d \<le> c"
  shows "\<exists>out. chaser_turns [3] (chaser_places a b c d) (chaser_values a b c d)
    = Inr (out, chaser_places a b (Suc c) d, chaser_values a b (Suc c) d)"
proof -
  have "\<exists>out. chaser_turns [3] (chaser_places a b c d) (chaser_values a b c d)
      = Inr (out, (chaser_places a b c d)(3 := chaser_place (Suc c)), chaser_values a b (Suc c) d) \<and> (c = 31 \<longrightarrow> out = [])"
    by (rule chaser_turn_values [where f = "\<lambda>v. v - 7"])
      (use assms in \<open>auto simp: chaser_task_def chaser_fun3_def chaser_dev_def chaser_places_def chaser_value_def\<close>)
  then show ?thesis unfolding chaser_places_upd by blast
qed

lemma chaser_turn_4:
  assumes "b \<le> a" "c \<le> b" "d < c"
  shows "\<exists>out. chaser_turns [4] (chaser_places a b c d) (chaser_values a b c d)
    = Inr (out, chaser_places a b c (Suc d), chaser_values a b c (Suc d))
    \<and> (d = 31 \<longrightarrow> chaser_verdict 0 (chaser_values a b c d) = Inr out)"
proof -
  obtain said where said: "chaser_verdict 0 (chaser_values a b c d) = Inr said" using verdict_total by blast
  have "\<exists>out. chaser_turns [4] (chaser_places a b c d) (chaser_values a b c d)
      = Inr (out, (chaser_places a b c d)(4 := chaser_place (Suc d)), chaser_values a b c (Suc d)) \<and> (d = 31 \<longrightarrow> out = said)"
    by (rule chaser_turn_values [where f = "\<lambda>v. v * 13" and finish = "chaser_verdict 0"])
      (use assms said in \<open>auto simp: chaser_task_def chaser_fun4_def chaser_dev_def chaser_places_def chaser_value_def\<close>)
  then show ?thesis unfolding chaser_places_upd using said by blast
qed

section \<open>The run\<close>

text \<open>The verdict on the final values is somewhere in the output.\<close>

definition final_values :: "u32 list" where
  "final_values = 2 # replicate 31 result_val"

definition gives_verdict :: "u8 list \<Rightarrow> bool" where
  "gives_verdict out \<longleftrightarrow> (\<exists>before verdict after. out = before @ verdict @ after \<and> chaser_verdict 0 final_values = Inr verdict)"

lemma gives_verdict_append: "gives_verdict x \<or> gives_verdict y \<Longrightarrow> gives_verdict (x @ y)"
  unfolding gives_verdict_def by (metis append.assoc)

lemma final_values: "31 \<le> a \<Longrightarrow> 31 \<le> b \<Longrightarrow> 31 \<le> c \<Longrightarrow> 31 \<le> d \<Longrightarrow> chaser_values a b c d = final_values"
  by (rule nth_equalityI)
    (auto simp: final_values_def chaser_value_def result_val_def init_val_def nth_Cons')

lemma due_chaser:
  "due_at 4 chaser_dev i = (if i mod 10 = 0 then [1] else []) @ (if i mod 20 = 0 then [2] else [])
     @ (if i mod 40 = 0 then [3] else []) @ (if i mod 100 = 0 then [4] else [])"
proof -
  have "[1..<Suc 4] = [1, 2, 3, 4 :: nat]" by (simp add: upt_rec)
  then show ?thesis by (simp add: due_at_def chaser_dev_def period_ticks_simps)
qed

abbreviation chaser_after :: "nat \<Rightarrow> nat \<Rightarrow> nat \<Rightarrow> nat \<Rightarrow> nat list \<Rightarrow> nat \<Rightarrow> nat \<Rightarrow> nat \<Rightarrow> nat \<Rightarrow> (u8 list \<Rightarrow> bool) \<Rightarrow> bool" where
  "chaser_after a b c d ts a' b' c' d' Q \<equiv> \<exists>out. chaser_turns ts (chaser_places a b c d) (chaser_values a b c d)
     = Inr (out, chaser_places a' b' c' d', chaser_values a' b' c' d') \<and> Q out"

lemma chaser_after_append:
  assumes "chaser_after a b c d xs a1 b1 c1 d1 (\<lambda>_. True)" "chaser_after a1 b1 c1 d1 ys a2 b2 c2 d2 Q"
    "\<And>x y. Q y \<Longrightarrow> Q (x @ y)"
  shows "chaser_after a b c d (xs @ ys) a2 b2 c2 d2 Q"
  using assms by (auto simp: turns_append)

lemma chaser_due_turns:
  assumes a: "a' = (if P then Suc a else a)" "b' = (if Q then Suc b else b)" "c' = (if R then Suc c else c)" "d' = (if S then Suc d else d)"
    and o: "b \<le> a" "c \<le> b" "d \<le> c" "Q \<Longrightarrow> b < a'" "R \<Longrightarrow> c < b'" "S \<Longrightarrow> d < c'"
  shows "chaser_after a b c d ((if P then [1] else []) @ (if Q then [2] else []) @ (if R then [3] else []) @ (if S then [4] else []))
    a' b' c' d' (\<lambda>out. S \<and> d = 31 \<longrightarrow> gives_verdict out)"
proof (intro chaser_after_append)
  show "chaser_after a b c d (if P then [1] else []) a' b c d (\<lambda>_. True)"
    using chaser_turn_1 [OF o(1,2,3)] a(1) by auto
  show "chaser_after a' b c d (if Q then [2] else []) a' b' c d (\<lambda>_. True)"
    using chaser_turn_2 [of b a' c d] a(2) o by auto
  have "b' \<le> a'" using a(1,2) o by auto
  then show "chaser_after a' b' c d (if R then [3] else []) a' b' c' d (\<lambda>_. True)"
    using chaser_turn_3 [of b' a' c d] a(2,3) o by auto
  have ord: "b' \<le> a'" "c' \<le> b'" using \<open>b' \<le> a'\<close> a(2,3) o by auto
  show "chaser_after a' b' c' d (if S then [4] else []) a' b' c' d' (\<lambda>out. S \<and> d = 31 \<longrightarrow> gives_verdict out)"
  proof (cases S)
    case True
    with chaser_turn_4 [OF ord, of d] o(6) obtain out where
      out: "chaser_turns [4] (chaser_places a' b' c' d) (chaser_values a' b' c' d)
        = Inr (out, chaser_places a' b' c' (Suc d), chaser_values a' b' c' (Suc d))"
      "d = 31 \<longrightarrow> chaser_verdict 0 (chaser_values a' b' c' d) = Inr out" by blast
    have "gives_verdict out" if "d = 31"
      using out(2) that final_values [of a' b' c' d] ord o(6) [OF True]
      by (auto simp: gives_verdict_def intro!: exI [of _ "[]"])
    with out True a(4) show ?thesis by auto
  qed (simp add: a(4))
qed (auto intro: gives_verdict_append)

lemma div_before:
  assumes "Suc N mod h = 0" "0 < h'" "h' \<le> h" shows "N div h < Suc N div h'"
  using div_le_mono2 [of h' h "Suc N"] assms by (simp add: div_Suc)

lemma chaser_schedule:
  "\<exists>out. chaser_turns (schedule 4 chaser_dev N) (chaser_places 0 0 0 0) (chaser_values 0 0 0 0)
    = Inr (out, chaser_places (Suc (N div 10)) (Suc (N div 20)) (Suc (N div 40)) (Suc (N div 100)),
        chaser_values (Suc (N div 10)) (Suc (N div 20)) (Suc (N div 40)) (Suc (N div 100)))
    \<and> (3100 \<le> N \<longrightarrow> gives_verdict out)"
proof (induction N)
  case 0
  have "schedule 4 chaser_dev 0 = (if True then [1] else []) @ (if True then [2] else []) @ (if True then [3] else []) @ (if True then [4] else [])"
    by (simp add: schedule_def upt_rec)
  then show ?case
    using chaser_due_turns [of "Suc 0" True 0 "Suc 0" True 0 "Suc 0" True 0 "Suc 0" True 0] by simp
next
  case (Suc N)
  let ?i = "Suc N"
  have d: "Suc (?i div h) = (if ?i mod h = 0 then Suc (Suc (N div h)) else Suc (N div h))" for h by (simp add: div_Suc)
  have le: "Suc (N div 20) \<le> Suc (N div 10)" "Suc (N div 40) \<le> Suc (N div 20)" "Suc (N div 100) \<le> Suc (N div 40)"
    by (simp_all add: div_le_mono2)
  have lt: "?i mod 20 = 0 \<Longrightarrow> Suc (N div 20) < Suc (?i div 10)" "?i mod 40 = 0 \<Longrightarrow> Suc (N div 40) < Suc (?i div 20)"
    "?i mod 100 = 0 \<Longrightarrow> Suc (N div 100) < Suc (?i div 40)"
    by (simp_all add: div_before)
  from chaser_due_turns [OF d d d d le lt] obtain out2 where two:
    "chaser_turns (due_at 4 chaser_dev ?i)
      (chaser_places (Suc (N div 10)) (Suc (N div 20)) (Suc (N div 40)) (Suc (N div 100)))
      (chaser_values (Suc (N div 10)) (Suc (N div 20)) (Suc (N div 40)) (Suc (N div 100)))
     = Inr (out2, chaser_places (Suc (?i div 10)) (Suc (?i div 20)) (Suc (?i div 40)) (Suc (?i div 100)),
        chaser_values (Suc (?i div 10)) (Suc (?i div 20)) (Suc (?i div 40)) (Suc (?i div 100)))"
    "?i mod 100 = 0 \<and> Suc (N div 100) = 31 \<longrightarrow> gives_verdict out2"
    unfolding due_chaser by blast
  obtain out1 where one: "chaser_turns (schedule 4 chaser_dev N) (chaser_places 0 0 0 0) (chaser_values 0 0 0 0)
    = Inr (out1, chaser_places (Suc (N div 10)) (Suc (N div 20)) (Suc (N div 40)) (Suc (N div 100)),
        chaser_values (Suc (N div 10)) (Suc (N div 20)) (Suc (N div 40)) (Suc (N div 100)))"
    "3100 \<le> N \<longrightarrow> gives_verdict out1" using Suc.IH by blast
  have "gives_verdict (out1 @ out2)" if "3100 \<le> ?i"
  proof (rule gives_verdict_append)
    have "3100 \<le> N \<or> N = 3099" using that by linarith
    then show "gives_verdict out1 \<or> gives_verdict out2" using one(2) two(2) by auto
  qed
  with one(1) two(1) show ?case by (auto simp: schedule_Suc turns_append)
qed

lemma saying_Nil: "saying [] x = x"
  by (cases x) (auto simp: saying_def)

text \<open>mutex_chaser keeps the promise of a program of periodic tasks.\<close>

definition chaser_inv :: "(nat \<Rightarrow> chaser_pc) \<Rightarrow> u32 list \<Rightarrow> bool" where
  "chaser_inv pcs vals \<longleftrightarrow> length vals = 32 \<and> (\<forall>t. \<exists>m. pcs t = chaser_place m)"

lemma chaser_task_alone:
  assumes "t \<in> {1..4}" "length vals = 32"
  shows "\<exists>out vals'. alone all_mutexes (chaser_task t) 3 None (chaser_place m) vals ok_reply
    = Inr (out, of_nat (chaser_dev t), chaser_place (Suc m), vals') \<and> length vals' = 32"
proof -
  have *: "\<exists>out vals'. alone all_mutexes (chaser f dev msg diag finish str) 3 None (chaser_place m) vals ok_reply
      = Inr (out, dev, chaser_place (Suc m), vals') \<and> length vals' = 32"
    if "\<exists>said. finish vals = Inr said" for f dev msg diag finish str
  proof -
    from that obtain said where "finish vals = Inr said" by blast
    from chaser_turn [where finish = finish and vals = vals, OF this assms(2), of f dev msg diag str m] show ?thesis using assms(2) by fastforce
  qed
  consider "t = 1" | "t = 2" | "t = 3" | "t = 4" using assms(1) by fastforce
  then show ?thesis
    by cases (simp_all add: chaser_task_def chaser_dev_def chaser_fun1_def chaser_fun2_def chaser_fun3_def
        chaser_fun4_def * verdict_total)
qed

interpretation chaser: periodic_program chaser_task 3 4 all_mutexes chaser_dev chaser_inv
proof
  fix t :: nat assume "t \<in> {1..4}"
  then show "chaser_dev t < 4" by (simp add: chaser_dev_def)
next
  fix t :: nat and pcs vals assume t: "t \<in> {1..4}" and i: "chaser_inv pcs vals"
  then obtain m where m: "pcs t = chaser_place m" by (auto simp: chaser_inv_def)
  from chaser_task_alone [OF t, of vals m] i obtain out vals' where
    "alone all_mutexes (chaser_task t) 3 None (pcs t) vals ok_reply
      = Inr (out, of_nat (chaser_dev t), chaser_place (Suc m), vals')" "length vals' = 32"
    unfolding m by (auto simp: chaser_inv_def)
  then show "\<exists>out pc' g'. alone all_mutexes (chaser_task t) 3 None (pcs t) vals ok_reply
      = Inr (out, of_nat (chaser_dev t), pc', g') \<and> chaser_inv (pcs(t := pc')) g'"
    using i by (intro exI [of _ out] exI [of _ "chaser_place (Suc m)"] exI [of _ vals']) (auto simp: chaser_inv_def)
qed

text \<open>The main function creates all mutexes and the task set.\<close>

lemma mutex_create_rest: "mem (snd (mutex_create s)) = mem s" "sys_time (snd (mutex_create s)) = sys_time s"
  by (simp_all add: mutex_create_def Let_def upd_mutex_def disable_interrupts_def enable_interrupts_def)

lemma chaser_main_creates:
  assumes "booted s" "gtMutex s = mutex_table j" "cur_mutex_num s = int j" "j + k = 32" "errno r \<noteq> ENOMEM" "length vals = 32"
    and "\<forall>i. Suc i < j \<longrightarrow> vals ! i = init_val"
  shows "\<exists>out s' r' vals'. run_main malloc (chaser_main tasks) (k + l) (Chaser_main j) vals r s
      = saying out (run_main malloc (chaser_main tasks) l (Chaser_main 32) vals' r' s')
    \<and> booted s' \<and> gtMutex s' = mutex_table 32 \<and> mem s' = mem s \<and> sys_time s' = sys_time s \<and> errno r' \<noteq> ENOMEM
    \<and> length vals' = 32 \<and> (\<forall>i<31. vals' ! i = init_val)"
  using assms
proof (induction k arbitrary: s j r vals)
  case 0
  then have "j = 32" by simp
  with 0 show ?case by (intro exI [of _ "[]"] exI [of _ s] exI [of _ r] exI [of _ vals]) (simp add: saying_Nil)
next
  case (Suc k)
  have j: "j < 32" using Suc.prems(4) by simp
  obtain s1 where s1: "mutex_create s = (int j, s1)" "gtMutex s1 = mutex_table (Suc j)" "cur_mutex_num s1 = int (Suc j)"
    using mutex_create_table [OF Suc.prems(2,3) j] by blast
  have s1': "mem s1 = mem s" "sys_time s1 = sys_time s" "booted s1"
    using mutex_create_rest [of s] booted.new_mutex [OF Suc.prems(1)] by (simp_all add: s1(1))
  let ?out = "if j = 0 then say ''TEST STARTING...'' else []" and ?vals = "if j = 0 then vals else vals[j - 1 := init_val]"
  have call: "kernel_call malloc [] Mutex_create s = Inr (Some (int j), s1)"
    using s1(1) j by (simp add: call_create reg_int)
  have r1: "errno (reply_to (int j) r) \<noteq> ENOMEM" using Suc.prems(5) by (simp add: reply_to_def swi_stub_def)
  have v: "\<forall>i. Suc i < Suc j \<longrightarrow> ?vals ! i = init_val"
    using Suc.prems(6,7) j by (auto simp: nth_list_update less_Suc_eq)
  have p: "chaser_main tasks (Chaser_main j) vals r = Inr (?out, Mutex_create, Chaser_main (Suc j), ?vals)"
    using j Suc.prems(5) by (auto simp: Let_def MUTEX_NUM_def)
  have jk: "Suc j + k = 32" "length ?vals = 32" using Suc.prems(4,6) by simp_all
  obtain out s' r' vals' where *:
    "run_main malloc (chaser_main tasks) (k + l) (Chaser_main (Suc j)) ?vals (reply_to (int j) r) s1
      = saying out (run_main malloc (chaser_main tasks) l (Chaser_main 32) vals' r' s')"
    "booted s'" "gtMutex s' = mutex_table 32" "mem s' = mem s" "sys_time s' = sys_time s" "errno r' \<noteq> ENOMEM"
    "length vals' = 32" "\<forall>i<31. vals' ! i = init_val"
    using Suc.IH [OF s1'(3) s1(2,3) jk(1) r1 jk(2) v] unfolding s1'(1,2) by (elim exE conjE) (rule that)
  have "run_main malloc (chaser_main tasks) (Suc k + l) (Chaser_main j) vals r s
      = saying ?out (saying out (run_main malloc (chaser_main tasks) l (Chaser_main 32) vals' r' s'))"
    using p call *(1) by (simp del: chaser_main.simps)
  also have "\<dots> = saying (?out @ out) (run_main malloc (chaser_main tasks) l (Chaser_main 32) vals' r' s')"
    by (cases "run_main malloc (chaser_main tasks) l (Chaser_main 32) vals' r' s'") auto
  finally show ?case using *(2-) by blast
qed

lemma chaser_main_done:
  assumes "booted s" "gtMutex s = mutex_table 0" "cur_mutex_num s = 0"
    and "map (read_task (mem s)) (task_pointers tasks 4) = chaser_tasks f1 f2 f3 f4"
    and "valid_addr tasks 96 USR_START_ADDR USR_END_ADDR" and "malloc 16 \<noteq> 0"
  shows "\<exists>out s1. run_main malloc (chaser_main tasks) 33 (Chaser_main 0) (replicate 32 0) ok_reply s
      = Inr (out, replicate 32 init_val, s1, User)
    \<and> ready_at malloc 4 chaser_dev {1..4} (clock_at (sys_time s) 0) s1 \<and> mutexes_made all_mutexes s1
    \<and> map (task_entry s1) [1, 2, 3, 4]
      = [(f1, 49, 0xa2500000), (f2, 50, 0xa2000000), (f3, 51, 0xa1000000), (f4, 52, 0xa1500000)]"
proof -
  have "cur_mutex_num s = int 0" "(0 :: nat) + 32 = 32" "errno ok_reply \<noteq> ENOMEM" "length (replicate 32 (0 :: u32)) = 32"
    "\<forall>i. Suc i < 0 \<longrightarrow> replicate 32 (0 :: u32) ! i = init_val"
    using assms(3) by (simp_all add: ok_reply_def errno_defs)
  from chaser_main_creates [OF assms(1,2) this, of malloc tasks 1] obtain out s' r vals where
    main: "run_main malloc (chaser_main tasks) (32 + 1) (Chaser_main 0) (replicate 32 0) ok_reply s
      = saying out (run_main malloc (chaser_main tasks) 1 (Chaser_main 32) vals r s')"
    and s': "booted s'" "gtMutex s' = mutex_table 32" "mem s' = mem s" "sys_time s' = sys_time s" "errno r \<noteq> ENOMEM"
    "length vals = 32" "\<forall>i<31. vals ! i = init_val" by blast
  have vals: "vals[31 := init_val] = replicate 32 init_val"
    using s'(6,7) by (intro nth_equalityI) (auto simp: nth_list_update)
  let ?ts = "chaser_tasks f1 f2 f3 f4"
  have n: "4 = length ?ts" by (simp add: chaser_tasks_def)
  have v: "valid_addr tasks (of_nat 4 * of_nat sizeof_task) USR_START_ADDR USR_END_ADDR"
    using assms(5) by (simp add: sizeof_task_def)
  have m: "malloc (4 * of_nat 4) \<noteq> 0" using assms(6) by simp
  have ts: "map (read_task (mem s')) (task_pointers tasks 4) = ?ts" using assms(4) s'(3) by simp
  have "4 \<le> (62 :: nat)" by simp
  from task_set_created [where malloc = malloc and dv = chaser_dev, OF s'(1) n this m ts chaser_order v] obtain s2 s1 where
    s1: "task_create malloc s' tasks (of_nat 4) = Inr (Switched, s2)" "resume s2 = (s1, User)" "gtMutex s1 = gtMutex s'"
    "ready_at malloc 4 chaser_dev {1..4} (clock_at (sys_time s') 0) s1"
    "map (task_entry s1) [1..<Suc 4] = map (\<lambda>p. descriptor_entry (?ts ! unat p)) [3, 0, 1, 2 :: u32]"
    by (elim exE conjE) (rule that)
  have "[1..<Suc 4] = [1, 2, 3, 4 :: nat]" by (simp add: upt_rec)
  with s1(5) have "map (task_entry s1) [1, 2, 3, 4] = [(f1, 49, 0xa2500000), (f2, 50, 0xa2000000), (f3, 51, 0xa1000000), (f4, 52, 0xa1500000)]"
    by (simp add: descriptor_entry_def chaser_tasks_def user_task_def)
  moreover have "mutexes_made all_mutexes s1"
    by (auto simp: mutexes_made_def all_mutexes_def bad_mutex_def s1(3) s'(2) OS_NUM_MUTEX_def made_nth made_mutex_def)
  moreover have "\<exists>o2. run_main malloc (chaser_main tasks) 1 (Chaser_main 32) vals r s' = Inr (o2, replicate 32 init_val, s1, User)"
    using s'(5) s1(1,2) vals by (simp add: Let_def MUTEX_NUM_def)
  ultimately show ?thesis using main s1(4) s'(4) by auto
qed

text \<open>
  C9: mutex_chaser from its start to its verdict, on a kernel that was just started: its main
  function makes the 32 mutexes and creates the four tasks, in the order of their periods and
  not of its array; and over any 3100 ticks or more, 15 and a half seconds, that each find the
  idle task, no call fails, every mutex but the first ends with the value the program expects,
  624, and the verdict is given on just these values.
\<close>

theorem mutex_chaser_on_kernel:
  assumes "booted s" "gtMutex s = mutex_table 0" "cur_mutex_num s = 0"
    and "map (read_task (mem s)) (task_pointers tasks 4) = chaser_tasks f1 f2 f3 f4"
    and "valid_addr tasks 96 USR_START_ADDR USR_END_ADDR" and "malloc 16 \<noteq> 0"
    and "list_all safe_tick ticks" "3100 \<le> length ticks" "unat (sys_time s) + 5 * length ticks + 500 < 2 ^ 32"
  shows "\<exists>out1 s1 out2 pcs s2.
      run_main malloc (chaser_main tasks) 33 (Chaser_main 0) (replicate 32 0) ok_reply s
        = Inr (out1, replicate 32 init_val, s1, User)
    \<and> map (task_entry s1) [1, 2, 3, 4]
        = [(f1, 49, 0xa2500000), (f2, 50, 0xa2000000), (f3, 51, 0xa1000000), (f4, 52, 0xa1500000)]
    \<and> run_program malloc chaser_task 3 9 ticks (\<lambda>t. Chaser_top 1) (replicate 32 init_val) s1 = Inr (out2, pcs, 2 # replicate 31 624, s2)
    \<and> gives_verdict out2 \<and> cur_tcb s2 = Some 63"
proof -
  from chaser_main_done [where malloc = malloc, OF assms(1-6)] obtain out1 s1 where main:
    "run_main malloc (chaser_main tasks) 33 (Chaser_main 0) (replicate 32 0) ok_reply s = Inr (out1, replicate 32 init_val, s1, User)"
    "map (task_entry s1) [1, 2, 3, 4] = [(f1, 49, 0xa2500000), (f2, 50, 0xa2000000), (f3, 51, 0xa1000000), (f4, 52, 0xa1500000)]"
    and ready: "ready_at malloc 4 chaser_dev {1..4} (clock_at (sys_time s) 0) s1" "mutexes_made all_mutexes s1"
    by (elim exE conjE) (rule that)
  have start: "(\<lambda>t. Chaser_top 1) = chaser_places 0 0 0 0" by (auto simp: chaser_places_def chaser_place_def)
  have vals: "replicate 32 init_val = chaser_values 0 0 0 0"
    by (rule nth_equalityI) (auto simp: chaser_value_def init_val_def)
  have "chaser_inv (chaser_places 0 0 0 0) (chaser_values 0 0 0 0)" by (auto simp: chaser_inv_def chaser_places_def)
  from chaser.runs_on_kernel [OF ready(1) assms(7) ready(2) this _ assms(9), of 9] obtain out2 pcs vals2 s2 where
    run: "chaser_turns (schedule 4 chaser_dev (length ticks)) (chaser_places 0 0 0 0) (chaser_values 0 0 0 0) = Inr (out2, pcs, vals2)"
    "run_program malloc chaser_task 3 9 ticks (chaser_places 0 0 0 0) (chaser_values 0 0 0 0) s1 = Inr (out2, pcs, vals2, s2)"
    "ready_at malloc 4 chaser_dev {} (clock_at (sys_time s) (length ticks)) s2" by auto
  have "31 \<le> Suc (length ticks div h)" if "0 < h" "h \<le> 100" for h
    using div_le_mono2 [OF that, of "length ticks"] assms(8) by simp
  then have "chaser_values (Suc (length ticks div 10)) (Suc (length ticks div 20)) (Suc (length ticks div 40)) (Suc (length ticks div 100)) = final_values"
    by (intro final_values) simp_all
  with chaser_schedule [of "length ticks"] run(1) assms(8) have "vals2 = 2 # replicate 31 624" "gives_verdict out2"
    by (auto simp: final_values_def result_val_def init_val_def)
  with main run(2) ready_idle [OF run(3)] show ?thesis unfolding start vals
    by (intro exI [of _ out1] exI [of _ s1] exI [of _ out2] exI [of _ pcs] exI [of _ s2]) simp
qed

theorem mutex_chaser_on_kernel_witness:
  "\<exists>s out1 s1 out2 pcs s2. booted s \<and>
      run_main has_memory (chaser_main 0xa0000000) 33 (Chaser_main 0) (replicate 32 0) ok_reply s
        = Inr (out1, replicate 32 init_val, s1, User)
    \<and> run_program has_memory chaser_task 3 9 (replicate 3100 tick_regs) (\<lambda>t. Chaser_top 1) (replicate 32 init_val) s1
        = Inr (out2, pcs, 2 # replicate 31 624, s2)
    \<and> gives_verdict out2 \<and> cur_tcb s2 = Some 63"
proof -
  let ?ts = "chaser_tasks 0 0 0 0"
  have n: "length ?ts = 4" "4 \<le> (62 :: nat)" by (simp_all add: chaser_tasks_def)
  obtain s where s: "booted s" "map (read_task (mem s)) (task_pointers 0xa0000000 4) = ?ts" "sys_time s = 0"
    "gtMutex s = mutex_table 0" "cur_mutex_num s = 0" by (rule started_with [OF n])
  have v: "valid_addr 0xa0000000 96 USR_START_ADDR USR_END_ADDR" by (simp add: valid_addr_def USR_START_ADDR_def USR_END_ADDR_def)
  have m: "has_memory 16 \<noteq> 0" by simp
  have b: "unat (sys_time s) + 5 * length (replicate 3100 tick_regs) + 500 < 2 ^ 32" by (simp add: s(3))
  have l: "3100 \<le> length (replicate 3100 tick_regs)" by simp
  show ?thesis
    using mutex_chaser_on_kernel [where malloc = has_memory, OF s(1,4,5,2) v m tick_list_safe l b] s(1)
    by (elim exE conjE) (intro exI conjI)
qed

end
