(* ===== verification/Dagger_On_Kernel.thy ===== *)
theory Dagger_On_Kernel
  imports Program_Start
begin

text \<open>
  dagger on the kernel: from the start of the kernel over any number of ticks, with all it
  prints.
\<close>

section \<open>Its tasks\<close>

text \<open>Task 1 prints 64, an at sign, for device 0, task 2 prints 60, a less-than sign, for device 1.\<close>

definition dagger_task :: "nat \<Rightarrow> dagger_pc \<Rightarrow> unit \<Rightarrow> reply \<Rightarrow> (dagger_pc, unit) step_res" where
  "dagger_task t pc g r = (if t = 1 then dagger_fun1 64 pc r else dagger_fun2 60 pc r)"

definition dagger_dev :: "nat \<Rightarrow> nat" where
  "dagger_dev t = (if t = 1 then 0 else 1)"

abbreviation no_mutex :: "int \<Rightarrow> bool" where "no_mutex \<equiv> \<lambda>_. False"

text \<open>No task ever gives up: at every turn it prints its character and waits.\<close>

definition dagger_inv :: "(nat \<Rightarrow> dagger_pc) \<Rightarrow> unit \<Rightarrow> bool" where
  "dagger_inv pcs g \<longleftrightarrow> (\<forall>t. pcs t \<noteq> Dagger_dead)"

definition dagger_char :: "nat \<Rightarrow> char" where
  "dagger_char t = (if t = 1 then CHR ''@'' else CHR ''<'')"

definition dagger_bytes :: "string \<Rightarrow> u8 list" where
  "dagger_bytes cs = concat (map putchar_bytes (asc cs))"

lemma dagger_task_alone:
  assumes "pc \<noteq> Dagger_dead"
  shows "alone no_mutex (dagger_task t) 1 None pc g ok_reply
    = Inr (dagger_bytes [dagger_char t], of_nat (dagger_dev t), Dagger_waited, ())"
  using assms by (cases pc)
    (simp_all add: dagger_task_def dagger_fun1_def dagger_fun2_def dagger_dev_def dagger_char_def dagger_bytes_def asc_def
      ok_reply_def)

interpretation dagger: periodic_program dagger_task 1 2 no_mutex dagger_dev dagger_inv
proof
  fix t :: nat assume "t \<in> {1..2}"
  then show "dagger_dev t < 4" by (simp add: dagger_dev_def)
next
  fix t :: nat and pcs g assume "dagger_inv pcs g"
  then show "\<exists>out pc' g'. alone no_mutex (dagger_task t) 1 None (pcs t) g ok_reply = Inr (out, of_nat (dagger_dev t), pc', g')
      \<and> dagger_inv (pcs(t := pc')) g'"
    using dagger_task_alone [of "pcs t" t g] by (auto simp: dagger_inv_def simp del: One_nat_def)
qed

lemma dagger_turns:
  "dagger_inv pcs g \<Longrightarrow> \<exists>pcs'. turns no_mutex dagger_dev dagger_task 1 ts pcs g = Inr (dagger_bytes (map dagger_char ts), pcs', ())"
proof (induction ts arbitrary: pcs g)
  case (Cons t ts)
  then have "dagger_inv (pcs(t := Dagger_waited)) ()" by (auto simp: dagger_inv_def)
  from Cons.IH [OF this] obtain pcs' where
    "turns no_mutex dagger_dev dagger_task 1 ts (pcs(t := Dagger_waited)) () = Inr (dagger_bytes (map dagger_char ts), pcs', ())" by blast
  moreover have "pcs t \<noteq> Dagger_dead" using Cons.prems by (simp add: dagger_inv_def)
  ultimately show ?case
    by (simp add: dagger_task_alone del: One_nat_def fun_upd_apply) (simp add: dagger_bytes_def asc_def)
qed (simp add: dagger_bytes_def asc_def)

section \<open>Its schedule\<close>

lemma due_dagger: "due_at 2 dagger_dev i = (if i mod 20 = 0 then [1] else []) @ (if i mod 40 = 0 then [2] else [])"
proof -
  have "[1..<Suc 2] = [1, 2 :: nat]" by (simp add: upt_rec)
  then show ?thesis by (simp add: due_at_def dagger_dev_def period_ticks_simps)
qed

text \<open>What it prints in the first n ticks: every 40 of them are alike.\<close>

definition dagger_output :: "nat \<Rightarrow> string" where
  "dagger_output n = ''@<'' @ concat (replicate (n div 40) ''@@<'') @ (if n mod 40 < 20 then '''' else ''@'')"

lemma dagger_output_Suc:
  "dagger_output (Suc n) = dagger_output n @ (if Suc n mod 20 = 0 then ''@'' else '''') @ (if Suc n mod 40 = 0 then ''<'' else '''')"
proof -
  have "n mod 40 < 40" by simp
  moreover have "Suc n mod 20 = 0 \<longleftrightarrow> n mod 40 = 19 \<or> n mod 40 = 39" by presburger
  moreover have "Suc n mod 40 = (if n mod 40 = 39 then 0 else Suc (n mod 40))" by (simp add: mod_Suc)
  moreover have "Suc n div 40 = (if n mod 40 = 39 then Suc (n div 40) else n div 40)" by (simp add: div_Suc mod_Suc)
  moreover have "concat (replicate (Suc k) xs) = concat (replicate k xs) @ xs" for k and xs :: string
    by (induction k) simp_all
  ultimately show ?thesis
    by (cases "n mod 40 = 39"; cases "n mod 40 = 19") (auto simp: dagger_output_def simp del: replicate.simps)
qed

lemma dagger_schedule: "map dagger_char (schedule 2 dagger_dev n) = dagger_output n"
proof (induction n)
  case 0
  show ?case by (simp add: schedule_def upt_rec dagger_char_def dagger_output_def)
next
  case (Suc n)
  then show ?case by (simp add: schedule_Suc due_dagger dagger_output_Suc dagger_char_def)
qed

section \<open>The run\<close>

text \<open>
  C10: dagger from its start, on a kernel that was just started: its main function prints
  nothing and hands over to the task with the at sign; over any number of ticks that each find
  the idle task no call fails, and what it prints is an at sign and a less-than sign at once,
  an at sign every 20 ticks, which are 100 ms, and a less-than sign after every second of these.
\<close>

theorem dagger_on_kernel:
  assumes "booted s" and "map (read_task (mem s)) (task_pointers tasks 2) = dagger_tasks f1 f2"
    and "valid_addr tasks 48 USR_START_ADDR USR_END_ADDR" and "malloc 8 \<noteq> 0"
    and "list_all safe_tick ticks" "unat (sys_time s) + 5 * length ticks + 500 < 2 ^ 32"
  shows "\<exists>s1 pcs s2.
      run_main malloc (\<lambda>pc g r. dagger_main tasks pc) 1 Main () ok_reply s = Inr ([], (), s1, User)
    \<and> map (task_entry s1) [1, 2] = [(f1, 64, 0xa2000000), (f2, 60, 0xa1000000)]
    \<and> run_program malloc dagger_task 1 5 ticks (\<lambda>t. Dagger_top) () s1
        = Inr (dagger_bytes (dagger_output (length ticks)), pcs, (), s2)
    \<and> cur_tcb s2 = Some 63"
proof -
  let ?ts = "dagger_tasks f1 f2"
  have n: "2 = length ?ts" "2 \<le> (62 :: nat)" by (simp_all add: dagger_tasks_def)
  have v: "valid_addr tasks (of_nat 2 * of_nat sizeof_task) USR_START_ADDR USR_END_ADDR"
    using assms(3) by (simp add: sizeof_task_def)
  have m: "malloc (4 * of_nat 2) \<noteq> 0" using assms(4) by simp
  from task_set_created [where malloc = malloc and dv = dagger_dev, OF assms(1) n m assms(2) dagger_order v] obtain s' s1 where
    s1: "task_create malloc s tasks (of_nat 2) = Inr (Switched, s')" "resume s' = (s1, User)"
    "ready_at malloc 2 dagger_dev {1..2} (clock_at (sys_time s) 0) s1"
    "map (task_entry s1) [1..<Suc 2] = map (\<lambda>p. descriptor_entry (?ts ! unat p)) [0, 1 :: u32]"
    by (elim exE conjE) (rule that)
  have "[1..<Suc 2] = [1, 2 :: nat]" by (simp add: upt_rec)
  with s1(4) have entries: "map (task_entry s1) [1, 2] = [(f1, 64, 0xa2000000), (f2, 60, 0xa1000000)]"
    by (simp add: descriptor_entry_def dagger_tasks_def user_task_def)
  have main: "run_main malloc (\<lambda>pc g r. dagger_main tasks pc) 1 Main () ok_reply s = Inr ([], (), s1, User)"
    using s1(1,2) by (simp add: dagger_main_def)
  have inv: "dagger_inv (\<lambda>t. Dagger_top) ()" and ms: "mutexes_made no_mutex s1"
    by (simp_all add: dagger_inv_def mutexes_made_def)
  from dagger.runs_on_kernel [OF s1(3) assms(5) ms inv _ assms(6), of 5] obtain out pcs s2 where
    run: "turns no_mutex dagger_dev dagger_task 1 (schedule 2 dagger_dev (length ticks)) (\<lambda>t. Dagger_top) () = Inr (out, pcs, ())"
    "run_program malloc dagger_task 1 5 ticks (\<lambda>t. Dagger_top) () s1 = Inr (out, pcs, (), s2)"
    "ready_at malloc 2 dagger_dev {} (clock_at (sys_time s) (length ticks)) s2" by auto
  have "out = dagger_bytes (dagger_output (length ticks))"
    using dagger_turns [OF inv, of "schedule 2 dagger_dev (length ticks)"] run(1) by (auto simp: dagger_schedule)
  with main entries run(2) ready_idle [OF run(3)] show ?thesis
    by (intro exI [of _ s1] exI [of _ pcs] exI [of _ s2]) simp
qed

theorem dagger_on_kernel_witness:
  "\<exists>s s1 pcs s2. booted s \<and> run_main has_memory (\<lambda>pc g r. dagger_main 0xa0000000 pc) 1 Main () ok_reply s = Inr ([], (), s1, User)
    \<and> run_program has_memory dagger_task 1 5 (replicate 100 tick_regs) (\<lambda>t. Dagger_top) () s1
        = Inr (dagger_bytes ''@<@@<@@<@'', pcs, (), s2)
    \<and> cur_tcb s2 = Some 63"
proof -
  let ?ts = "dagger_tasks 0 0"
  have n: "length ?ts = 2" "2 \<le> (62 :: nat)" by (simp_all add: dagger_tasks_def)
  obtain s where s: "booted s" "map (read_task (mem s)) (task_pointers 0xa0000000 2) = ?ts" "sys_time s = 0"
    "gtMutex s = mutex_table 0" "cur_mutex_num s = 0" by (rule started_with [OF n])
  have v: "valid_addr 0xa0000000 48 USR_START_ADDR USR_END_ADDR" by (simp add: valid_addr_def USR_START_ADDR_def USR_END_ADDR_def)
  have m: "has_memory 8 \<noteq> 0" by simp
  have b: "unat (sys_time s) + 5 * length (replicate 100 tick_regs) + 500 < 2 ^ 32" by (simp add: s(3))
  have out: "dagger_output (length (replicate 100 tick_regs)) = ''@<@@<@@<@''"
    by (simp add: dagger_output_def numeral_2_eq_2)
  show ?thesis
    using dagger_on_kernel [where malloc = has_memory, OF s(1,2) v m tick_list_safe b] s(1) unfolding out
    by (elim exE conjE) (intro exI conjI)
qed

end
