(* ===== verification/Simple_On_Kernel.thy ===== *)
theory Simple_On_Kernel
  imports Program_Start
begin

text \<open>
  simple_mutex on the kernel: its third task waits for its device while it holds the mutex,
  which this kernel refuses, and what comes of it.
\<close>

section \<open>A task that spins\<close>

text \<open>
  A task function p from its place pc until it spins, with its output and the kernel; k calls
  at most, none of which may leave the task.
\<close>

fun until_spin :: "(u32 \<Rightarrow> u32) \<Rightarrow> ('l \<Rightarrow> 'g \<Rightarrow> reply \<Rightarrow> ('l, 'g) step_res) \<Rightarrow> nat \<Rightarrow> 'l \<Rightarrow> 'g \<Rightarrow> reply \<Rightarrow> kstate
    \<Rightarrow> (u8 list \<times> 'l \<times> 'g \<times> kstate) res" where
  "until_spin malloc p 0 pc g r s = Inl Diverges"
| "until_spin malloc p (Suc k) pc g r s =
     bind (p pc g r) (\<lambda>(out, call, pc', g').
       if call = Spin then Inr (out, pc', g', s)
       else bind (kernel_call malloc [] call s) (\<lambda>(v, s').
         case v of None \<Rightarrow> Inl Diverges
         | Some v \<Rightarrow> saying out (until_spin malloc p k pc' g' (reply_to v r) s')))"

text \<open>Ticks of the timer over user code that makes no call.\<close>

fun spin_ticks :: "(u32 \<Rightarrow> u32) list \<Rightarrow> kstate \<Rightarrow> kstate res" where
  "spin_ticks [] s = Inr s"
| "spin_ticks (q # qs) s = bind (C_IRQ_handler (s\<lparr>periph := q\<rparr>) (irq_point User)) (\<lambda>r.
     case after_irq User r of (s', User) \<Rightarrow> spin_ticks qs s' | _ \<Rightarrow> Inl Undefined)"

text \<open>The count of the mutexes a task holds is that of the table.\<close>

lemma kinv_holding:
  assumes "kinv n ls s m" "cur_tcb s = Some c" shows "holding s \<longleftrightarrow> held (gtMutex s) c \<noteq> {}"
proof -
  have "mutex_inv c (gtMutex s) (holds_lock (system_tcb s ! c))" using kinv_cur [OF assms(1)] assms(2) by (metis option.inject)
  moreover have "finite (held (gtMutex s) c)" by (simp add: held_def)
  ultimately show ?thesis using assms(2) by (simp add: holding_def mutex_inv_def)
qed

text \<open>No tick takes the processor from a task that holds a mutex.\<close>

lemma holder_spins:
  assumes "kinv n ls s User" "irq_enabled s" "cur_tcb s = Some c" "held (gtMutex s) c \<noteq> {}" "list_all safe_tick ticks"
  shows "\<exists>s'. spin_ticks ticks s = Inr s' \<and> cur_tcb s' = Some c \<and> gtMutex s' = gtMutex s
    \<and> sys_time s' = sys_time s + 5 * of_nat (length ticks)"
  using assms
proof (induction ticks arbitrary: s ls)
  case (Cons q qs)
  let ?ls = "after_update s (sys_time s + 5) ls [0..<4]"
  have h: "holding s" using kinv_holding [OF Cons.prems(1,3)] Cons.prems(4) by simp
  have q: "tick_pending q" "unat (q (PERIPHERAL_BASE + OSTMR_OSCR_ADDR)) < 2 ^ 32 - 18432"
    using Cons.prems(5) by (simp_all add: safe_tick_def)
  obtain r s1 m1 where s1: "C_IRQ_handler (s\<lparr>periph := q\<rparr>) (irq_point User) = Inr r" "after_irq User r = (s1, m1)"
    "kinv n ?ls s1 m1" "irq_enabled s1" "sys_time s1 = sys_time s + 5" "gtMutex s1 = gtMutex s"
    "view s1 m1 ?ls = v_tick (holding s) (set (due_tasks s (sys_time s + 5) ls [0..<4])) (view s User ls)"
    using irq_tick [OF Cons.prems(1) q refl] by blast
  obtain c1 where c1: "cur_tcb s1 = Some c1" using kinv_cur [OF s1(3)] by blast
  have v: "view s1 m1 ?ls = v_fire (set (due_tasks s (sys_time s + 5) ls [0..<4])) (view s User ls)"
    using s1(7) h by (simp add: v_tick_def)
  have "v_cur (view s1 m1 ?ls) = c" "\<not> v_window (view s1 m1 ?ls)"
    unfolding v using Cons.prems(3) by (simp_all add: v_fire_def)
  then have "cur_tcb s1 = Some c" "m1 = User" using c1 by (simp_all, metis mode.exhaust)
  with Cons.IH [of ?ls s1] Cons.prems(4,5) s1 show ?case by (auto simp: algebra_simps)
qed simp

section \<open>The first turns\<close>

definition simple_dev :: "nat \<Rightarrow> nat" where
  "simple_dev t = t - 1"

text \<open>A turn on the kernel: up to the wait, and to the task that goes on.\<close>

definition take_turn :: "(u32 \<Rightarrow> u32) \<Rightarrow> ('l \<Rightarrow> 'g \<Rightarrow> reply \<Rightarrow> ('l, 'g) step_res) \<Rightarrow> nat \<Rightarrow> 'l \<Rightarrow> 'g \<Rightarrow> kstate
    \<Rightarrow> (u8 list \<times> 'l \<times> 'g \<times> kstate \<times> mode) res" where
  "take_turn malloc p k pc g s = bind (until_wait malloc p k pc g ok_reply s) (\<lambda>(out, pc', g', s1).
     bind (dev_wait_sleep s1) (\<lambda>s2. Inr (out, pc', g', resume s2)))"

lemma ready_create:
  assumes r: "ready_at malloc n dv R t s" and R: "R \<noteq> {}"
  shows "ready_at malloc n dv R t (snd (mutex_create s))"
proof -
  let ?x = "\<lparr>ex_r0 = 0, ex_r1 = 0, ex_r2 = 0, ex_r3 = 0, ex_r4 = 0, ex_r5 = 0, ex_r6 = 0, ex_r7 = 0, ex_r8 = 0,
    ex_r9 = 0, ex_r10 = 0, ex_r11 = 0, ex_r12 = 0\<rparr>" and ?s = "snd (mutex_create s)"
  obtain ls v where v: "kernel_at malloc n User ls v t s" "R \<subseteq> {1..n}" "v_cur v = Min (insert 63 R)"
    "v_ready v = insert 63 R - {v_cur v}" "\<forall>x\<in>live n. x \<noteq> v_cur v \<longrightarrow> v_point v x \<noteq> In_irq_over_dev_wait"
    "\<forall>d<4. set (ls ! d) = {x\<in>{1..n} - R. dv x = d}"
    using r unfolding ready_at_def by (elim exE conjE) (rule that)
  have "v_cur v \<noteq> 63" using Min_insert_63 [OF v(2) ready_n [OF r] R] v(3) by simp
  then have c: "cur_tcb s \<noteq> Some 63" using at_cur(1) [OF v(1)] by simp
  have k: "reachable malloc n (s, User)" "kinv n ls s User" "irq_enabled s" using v(1) by (simp_all add: kernel_at_def)
  note inv = mutex_create_inv [OF k(2,3)]
  have "system_tcb ?s = system_tcb s" by (simp add: mutex_create_def Let_def upd_mutex_def)
  then have h: "holding ?s = holding s" using inv(4) by (simp add: holding_def)
  have "res_map after_swi (swi_dispatch malloc [] MUTEX_CREATE ?x s) = Inr (?s, User)"
    by (simp add: swi_dispatch_def swi_defs Let_def after_swi_def res_map_def split: prod.split)
  then have "kstep malloc (s, User) (Swi MUTEX_CREATE ?x []) (Inr (?s, User))"
    using kstep.swi [of s MUTEX_CREATE malloc ?x "[]"] c by (simp add: IDLE_PRIO_def swi_defs)
  then have "reachable malloc n (?s, User)"
    by (rule reachable.step [OF k(1), rotated 2]) (auto simp: polite_def creates_def calls_def swi_defs)
  then have "kernel_at malloc n User ls v t ?s" using v(1) inv h by (simp add: kernel_at_def)
  with v(2-) show ?thesis unfolding ready_at_def by (intro exI [of _ ls] exI [of _ v] conjI)
qed

text \<open>A turn that ends in the wait for the device of the task.\<close>

lemma ready_take:
  assumes r: "ready_at malloc n dv R t s" and R: "R \<noteq> {}" and dv: "\<And>x. x \<in> {1..n} \<Longrightarrow> dv x < 4"
    and u: "\<And>s1. event_wait_enter s (of_nat (dv (Min R))) = Inr (None, s1)
      \<Longrightarrow> until_wait malloc p k pc g ok_reply s0 = Inr (out, pc', g', s1)"
  shows "\<exists>s'. take_turn malloc p k pc g s0 = Inr (out, pc', g', s', User) \<and> gtMutex s' = gtMutex s
    \<and> ready_at malloc n dv (R - {Min R}) t s'"
proof -
  obtain s1 s2 s' where "event_wait_enter s (of_nat (dv (Min R))) = Inr (None, s1)"
    "dev_wait_sleep s1 = Inr s2" "resume s2 = (s', User)" "gtMutex s' = gtMutex s"
    "ready_at malloc n dv (R - {Min R}) t s'"
    using ready_turn [OF r R dv] by blast
  then show ?thesis using u by (simp add: take_turn_def)
qed

text \<open>A new task set leaves the count of the mutexes alone.\<close>

lemma allocate_task_mutexes: "allocate_task rd tasks j s = Inr s' \<Longrightarrow> cur_mutex_num s' = cur_mutex_num s"
  by (auto simp: allocate_task_def Let_def bind_eq_Inr upd_tcb_def split: if_splits)

lemma allocate_loop_mutexes: "allocate_loop rd tasks n s = Inr s' \<Longrightarrow> cur_mutex_num s' = cur_mutex_num s"
  by (induction n arbitrary: s) (auto simp: bind_eq_Inr dest: allocate_task_mutexes)

lemma dev_init_mutexes: "cur_mutex_num (dev_init s) = cur_mutex_num s"
  by (simp add: dev_init_def NUM_DEVICES_def upt_rec upd_dev_def)

lemma resume_mutexes: "cur_mutex_num (fst (resume s)) = cur_mutex_num s"
  by (auto simp: resume_def launch_task_def Let_def idle_def mutex_lock_tail_def upd_mutex_def upd_tcb_def
      enable_interrupts_def split: resume_point.splits)

lemma created_mutexes:
  assumes "task_create malloc s tasks num = Inr (Switched, s2)"
  shows "cur_mutex_num (fst (resume s2)) = cur_mutex_num s"
  using assms
  by (auto simp: task_create_def allocate_tasks_def allocate_idle_def Let_def bind_eq_Inr sched_init_def dispatch_nosave_def
      ctx_switch_half_def upd_tcb_def resume_mutexes dev_init_mutexes dest!: allocate_loop_mutexes split: if_splits)

section \<open>The run\<close>

text \<open>The third task: the kernel lets it lock and unlock, not wait.\<close>

lemma simple_third:
  assumes a: "kernel_at malloc n User ls v t s" and c: "v_cur v = c" "c \<noteq> 63"
    and g: "mid g = 0" "even_t3 g \<noteq> 0" and m: "\<not> bad_mutex s 0"
  shows "\<exists>s'. until_spin malloc (simple_fun3 str) 3 Simple_start g ok_reply s
      = Inr (putchar_bytes str @ say ''Dev 2 failed'', Simple_dead, g\<lparr>even_t3 := 0\<rparr>, s')
    \<and> kinv n ls s' User \<and> irq_enabled s' \<and> cur_tcb s' = Some c \<and> held (gtMutex s') c \<noteq> {}"
proof -
  have k: "kinv n ls s User" "irq_enabled s" using a by (simp_all add: kernel_at_def)
  note cur = at_cur [OF a, unfolded c(1)]
  obtain s' where lock: "mutex_lock s 0 = Inr (Returned 0, s')"
    using critical_section [OF a _ m] c by blast
  obtain r s2 where "mutex_lock s 0 = Inr (Returned r, s2)" "kinv n ls s2 User" "irq_enabled s2" "cur_tcb s2 = Some c"
    "r = 0 \<longrightarrow> pHolding_Tcb (gtMutex s2 ! nat 0) = Some c"
    using lock_inv [OF k(1) cur(1) c(2) k(2), of 0] by blast
  with lock have s': "kinv n ls s' User" "irq_enabled s'" "cur_tcb s' = Some c" "held (gtMutex s') c \<noteq> {}"
    by (auto simp: held_def intro: exI [of _ 0])
  have len: "c < length (system_tcb s')" using kinv_cur [OF s'(1)] s'(3) by (metis option.inject)
  have "holding s'" using kinv_holding [OF s'(1,3)] s'(4) by simp
  then have "event_wait_enter s' 2 = Inr (Some (- EHOLDSLOCK), s')"
    using s'(3) len by (simp add: event_wait_enter_def get_cur_tcb_def deref_def holding_def)
  then have wait: "kernel_call malloc [] (Event_wait 2) s' = Inr (Some (- EHOLDSLOCK), s')"
    by (simp add: call_wait event_wait_def reg_int errno_defs)
  have lock': "kernel_call malloc [] (Mutex_lock 0) s = Inr (Some 0, s')"
    using lock by (simp add: call_lock reg_int)
  have "until_spin malloc (simple_fun3 str) 3 Simple_start g ok_reply s
      = Inr (putchar_bytes str @ say ''Dev 2 failed'', Simple_dead, g\<lparr>even_t3 := 0\<rparr>, s')"
    using wait lock' g by (simp add: numeral_3_eq_3 simple_top3_def user_panic_def reply_to_def swi_stub_def errno_defs)
  with s' show ?thesis by blast
qed

text \<open>
  C11: simple_mutex on a kernel that was just started does not do what it tests for. Its tasks
  print s, u and c in their first turns; the third takes the mutex and keeps it, but event_wait
  refuses a task that holds a mutex, so it panics and spins with the mutex held. It runs at the
  highest priority then: however many ticks come, and whatever devices they fire, no other task
  ever runs again. The program says that it does not work for the second part of the project.
\<close>

theorem simple_mutex_starves:
  assumes "booted s" "gtMutex s = mutex_table 0" "cur_mutex_num s = 0"
    and "map (read_task (mem s)) (task_pointers tasks 3) = simple_tasks f1 f2 f3"
    and "valid_addr tasks 72 USR_START_ADDR USR_END_ADDR" and "malloc 12 \<noteq> 0"
  shows "\<exists>s1 s2 s3 s4 g1 g2 g3.
      run_main malloc (\<lambda>pc g r. simple_main tasks pc g) 1 Main simple_start ok_reply s = Inr ([], simple_start, s1, User)
    \<and> map (task_entry s1) [1, 2, 3] = [(f1, 115, 0xa2000000), (f2, 117, 0xa1000000), (f3, 99, 0xa1200000)]
    \<and> cur_tcb s1 = Some 1
    \<and> take_turn malloc (simple_fun1 115) 2 Simple_start simple_start s1 = Inr (putchar_bytes 115, Simple_waited, g1, s2, User)
    \<and> cur_tcb s2 = Some 2
    \<and> take_turn malloc (simple_fun2 117) 1 Simple_start g1 s2 = Inr (putchar_bytes 117, Simple_waited, g2, s3, User)
    \<and> cur_tcb s3 = Some 3
    \<and> until_spin malloc (simple_fun3 99) 3 Simple_start g2 ok_reply s3
        = Inr (putchar_bytes 99 @ say ''Dev 2 failed'', Simple_dead, g3, s4)
    \<and> (\<forall>ticks. list_all safe_tick ticks \<longrightarrow> (\<exists>s5. spin_ticks ticks s4 = Inr s5 \<and> cur_tcb s5 = Some 3
         \<and> sys_time s5 = sys_time s4 + 5 * of_nat (length ticks)))"
proof -
  let ?ts = "simple_tasks f1 f2 f3" and ?t = "clock_at (sys_time s) 0"
  have n: "3 = length ?ts" "3 \<le> (62 :: nat)" by (simp_all add: simple_tasks_def)
  have v: "valid_addr tasks (of_nat 3 * of_nat sizeof_task) USR_START_ADDR USR_END_ADDR"
    using assms(5) by (simp add: sizeof_task_def)
  have m: "malloc (4 * of_nat 3) \<noteq> 0" using assms(6) by simp
  from task_set_created [where malloc = malloc and dv = simple_dev, OF assms(1) n m assms(4) simple_order v] obtain s' s1 where
    s1: "task_create malloc s tasks (of_nat 3) = Inr (Switched, s')" "resume s' = (s1, User)" "gtMutex s1 = gtMutex s"
    "ready_at malloc 3 simple_dev {1..3} ?t s1"
    "map (task_entry s1) [1..<Suc 3] = map (\<lambda>p. descriptor_entry (?ts ! unat p)) [0, 1, 2 :: u32]"
    by (elim exE conjE) (rule that)
  have "[1..<Suc 3] = [1, 2, 3 :: nat]" by (simp add: upt_rec)
  with s1(5) have entries: "map (task_entry s1) [1, 2, 3] = [(f1, 115, 0xa2000000), (f2, 117, 0xa1000000), (f3, 99, 0xa1200000)]"
    by (simp add: descriptor_entry_def simple_tasks_def user_task_def)
  have main: "run_main malloc (\<lambda>pc g r. simple_main tasks pc g) 1 Main simple_start ok_reply s = Inr ([], simple_start, s1, User)"
    using s1(1,2) by (simp add: simple_main_def)
  have sets: "Min {1 :: nat..3} = 1" "{1 :: nat..3} - {1} = {2, 3}" "Min {2, 3 :: nat} = 2" "{2, 3} - {2} = {3 :: nat}"
    by (auto intro: Min_eqI)
  have dv: "simple_dev x < 4" if "x \<in> {1..3}" for x using that by (auto simp: simple_dev_def)
  have "cur_mutex_num s1 = 0" using created_mutexes [OF s1(1)] s1(2) assms(3) by simp
  then obtain sc where sc: "mutex_create s1 = (0, sc)" "gtMutex sc = mutex_table 1"
    using mutex_create_table [of s1 0] s1(3) assms(2) by auto
  define g1 where "g1 = simple_start\<lparr>mid := 0, once := 1, even_t1 := 0\<rparr>"
  define g2 where "g2 = g1\<lparr>even_t2 := 0\<rparr>"
  have r1: "ready_at malloc 3 simple_dev {1..3} ?t sc" using ready_create [OF s1(4)] sc(1) by simp
  have "until_wait malloc (simple_fun1 115) 2 Simple_start simple_start ok_reply s1 = Inr (putchar_bytes 115, Simple_waited, g1, sw)"
    if "event_wait_enter sc (of_nat (simple_dev (Min {1..3}))) = Inr (None, sw)" for sw
    using that by (simp add: sets simple_dev_def numeral_2_eq_2 call_create sc(1) reg_int simple_top1_def simple_start_def
        reply_to_def swi_stub_def g1_def)
  from ready_take [OF r1 _ dv this] obtain s2 where
    s2: "take_turn malloc (simple_fun1 115) 2 Simple_start simple_start s1 = Inr (putchar_bytes 115, Simple_waited, g1, s2, User)"
    "gtMutex s2 = mutex_table 1" "ready_at malloc 3 simple_dev {2, 3} ?t s2" using sc(2) unfolding sets by auto
  have "until_wait malloc (simple_fun2 117) 1 Simple_start g1 ok_reply s2 = Inr (putchar_bytes 117, Simple_waited, g2, sw)"
    if "event_wait_enter s2 (of_nat (simple_dev (Min {2, 3}))) = Inr (None, sw)" for sw
    using that unfolding sets by (simp add: simple_dev_def simple_top2_def g1_def g2_def simple_start_def)
  from ready_take [OF s2(3) _ dv this] obtain s3 where
    s3: "take_turn malloc (simple_fun2 117) 1 Simple_start g1 s2 = Inr (putchar_bytes 117, Simple_waited, g2, s3, User)"
    "gtMutex s3 = mutex_table 1" "ready_at malloc 3 simple_dev {3} ?t s3" using s2(2) unfolding sets by auto
  have cur: "cur_tcb s1 = Some 1" "cur_tcb s2 = Some 2" "cur_tcb s3 = Some 3"
    using ready_cur [OF s1(4)] ready_cur [OF s2(3)] ready_cur [OF s3(3)] sets by auto
  obtain ls v3 where v3: "kernel_at malloc 3 User ls v3 ?t s3" using s3(3) by (auto simp: ready_at_def)
  have c: "v_cur v3 = 3" using at_cur(1) [OF v3] cur(3) by simp
  have b: "\<not> bad_mutex s3 0"
    by (simp add: bad_mutex_def s3(2) OS_NUM_MUTEX_def mutex_table_def made_mutex_def)
  have g: "mid g2 = 0" "even_t3 g2 \<noteq> 0" by (simp_all add: g2_def g1_def simple_start_def)
  from simple_third [OF v3 c _ g b, of 99] obtain s4 where
    s4: "until_spin malloc (simple_fun3 99) 3 Simple_start g2 ok_reply s3
      = Inr (putchar_bytes 99 @ say ''Dev 2 failed'', Simple_dead, g2\<lparr>even_t3 := 0\<rparr>, s4)"
    "kinv 3 ls s4 User" "irq_enabled s4" "cur_tcb s4 = Some 3" "held (gtMutex s4) 3 \<noteq> {}" by auto
  have spin: "\<exists>s5. spin_ticks ticks s4 = Inr s5 \<and> cur_tcb s5 = Some 3 \<and> sys_time s5 = sys_time s4 + 5 * of_nat (length ticks)"
    if "list_all safe_tick ticks" for ticks using holder_spins [OF s4(2-5) that] by blast
  show ?thesis
    by (rule exI [of _ s1], rule exI [of _ s2], rule exI [of _ s3], rule exI [of _ s4], rule exI [of _ g1], rule exI [of _ g2],
        rule exI [of _ "g2\<lparr>even_t3 := 0\<rparr>"], intro conjI allI impI)
      (fact main entries cur s2(1) s3(1) s4(1) spin)+
qed

theorem simple_mutex_starves_witness:
  "\<exists>s s1 s2 s3 s4 g1 g2 g3. booted s
    \<and> run_main has_memory (\<lambda>pc g r. simple_main 0xa0000000 pc g) 1 Main simple_start ok_reply s = Inr ([], simple_start, s1, User)
    \<and> take_turn has_memory (simple_fun1 115) 2 Simple_start simple_start s1 = Inr (putchar_bytes 115, Simple_waited, g1, s2, User)
    \<and> take_turn has_memory (simple_fun2 117) 1 Simple_start g1 s2 = Inr (putchar_bytes 117, Simple_waited, g2, s3, User)
    \<and> until_spin has_memory (simple_fun3 99) 3 Simple_start g2 ok_reply s3
        = Inr (putchar_bytes 99 @ say ''Dev 2 failed'', Simple_dead, g3, s4)
    \<and> (\<exists>s5. spin_ticks (replicate 1000 tick_regs) s4 = Inr s5 \<and> cur_tcb s5 = Some 3)"
proof -
  let ?ts = "simple_tasks 0 0 0"
  have n: "length ?ts = 3" "3 \<le> (62 :: nat)" by (simp_all add: simple_tasks_def)
  obtain s where s: "booted s" "map (read_task (mem s)) (task_pointers 0xa0000000 3) = ?ts" "sys_time s = 0"
    "gtMutex s = mutex_table 0" "cur_mutex_num s = 0" by (rule started_with [OF n])
  have v: "valid_addr 0xa0000000 72 USR_START_ADDR USR_END_ADDR" by (simp add: valid_addr_def USR_START_ADDR_def USR_END_ADDR_def)
  have m: "has_memory 12 \<noteq> 0" by simp
  obtain s1 s2 s3 s4 g1 g2 g3 where *:
    "run_main has_memory (\<lambda>pc g r. simple_main 0xa0000000 pc g) 1 Main simple_start ok_reply s = Inr ([], simple_start, s1, User)"
    "take_turn has_memory (simple_fun1 115) 2 Simple_start simple_start s1 = Inr (putchar_bytes 115, Simple_waited, g1, s2, User)"
    "take_turn has_memory (simple_fun2 117) 1 Simple_start g1 s2 = Inr (putchar_bytes 117, Simple_waited, g2, s3, User)"
    "until_spin has_memory (simple_fun3 99) 3 Simple_start g2 ok_reply s3
      = Inr (putchar_bytes 99 @ say ''Dev 2 failed'', Simple_dead, g3, s4)"
    "\<forall>ticks. list_all safe_tick ticks \<longrightarrow> (\<exists>s5. spin_ticks ticks s4 = Inr s5 \<and> cur_tcb s5 = Some 3
       \<and> sys_time s5 = sys_time s4 + 5 * of_nat (length ticks))"
    using simple_mutex_starves [where malloc = has_memory, OF s(1,4,5,2) v m] by (elim exE conjE) (rule that)
  have "\<exists>s5. spin_ticks (replicate 1000 tick_regs) s4 = Inr s5 \<and> cur_tcb s5 = Some 3" using *(5) tick_list_safe by blast
  with s(1) *(1-4) show ?thesis
    by - (rule exI [of _ s], rule exI [of _ s1], rule exI [of _ s2], rule exI [of _ s3], rule exI [of _ s4],
        rule exI [of _ g1], rule exI [of _ g2], rule exI [of _ g3], intro conjI)
qed

end
