(* ===== verification/Part1_Programs.thy ===== *)
theory Part1_Programs
  imports User_Programs
begin

text \<open>
  The versions of the task set programs under part1tests (and, word for word, under
  p4grading/part1tests). They are written for a task descriptor without a blocking time, so
  no main function sets B: its value is what the stack of the caller holds. It is an argument
  here. The task functions are those of User_Programs, except that the first one of
  mutex_chaser does not name the mutex it could not release.
\<close>

definition blocked :: "u32 \<Rightarrow> task_t \<Rightarrow> task_t" where
  "blocked B t = t\<lparr>B_time := B\<rparr>"

definition part1_dagger_tasks :: "u32 \<Rightarrow> u32 \<Rightarrow> u32 \<Rightarrow> u32 \<Rightarrow> task_t list" where
  "part1_dagger_tasks fun1 fun2 B0 B1 =
     [blocked B0 (user_task fun1 64 0xa2000000 1 PERIOD_DEV0), blocked B1 (user_task fun2 60 0xa1000000 1 PERIOD_DEV1)]"

definition part1_cyclone_tasks :: "u32 \<Rightarrow> u32 \<Rightarrow> task_t list" where
  "part1_cyclone_tasks fun1 B0 = [blocked B0 (user_task fun1 0 0xa1000000 1 PERIOD_DEV3)]"

definition part1_simple_tasks :: "u32 \<Rightarrow> u32 \<Rightarrow> u32 \<Rightarrow> u32 \<Rightarrow> u32 \<Rightarrow> u32 \<Rightarrow> task_t list" where
  "part1_simple_tasks fun1 fun2 fun3 B0 B1 B2 =
     [blocked B0 (user_task fun1 115 0xa2000000 1 PERIOD_DEV0), blocked B1 (user_task fun2 117 0xa1000000 1 PERIOD_DEV1),
      blocked B2 (user_task fun3 99 0xa1200000 1 PERIOD_DEV2)]"

definition part1_chaser_tasks :: "u32 \<Rightarrow> u32 \<Rightarrow> u32 \<Rightarrow> u32 \<Rightarrow> u32 \<Rightarrow> u32 \<Rightarrow> u32 \<Rightarrow> u32 \<Rightarrow> task_t list" where
  "part1_chaser_tasks fun1 fun2 fun3 fun4 B0 B1 B2 B3 =
     [blocked B0 (user_task fun2 50 0xa2000000 1 PERIOD_DEV0), blocked B1 (user_task fun3 51 0xa1000000 1 PERIOD_DEV1),
      blocked B2 (user_task fun4 52 0xa1500000 1 PERIOD_DEV2), blocked B3 (user_task fun1 49 0xa2500000 1 PERIOD_DEV3)]"

definition part1_stress_tasks :: "u32 \<Rightarrow> u32 \<Rightarrow> (nat \<Rightarrow> u32) \<Rightarrow> task_t list" where
  "part1_stress_tasks fun1 fun2 B =
     map (\<lambda>i. blocked (B i) (user_task fun1 (of_nat i) (0xa2000000 + 0x10000 * of_nat i) (of_nat (i + 1)) (of_nat ((i + 1) * 100))))
       [0..<NUM_TASK - 1]
     @ [blocked (B (NUM_TASK - 1))
          (user_task fun2 (of_nat (NUM_TASK - 1)) (0xa2000000 + 0x10000 * of_nat (NUM_TASK - 1)) 0 END_TIME)]"

definition part1_chaser_fun1 :: "u8 \<Rightarrow> chaser_pc \<Rightarrow> u32 list \<Rightarrow> reply \<Rightarrow> (chaser_pc, u32 list) step_res" where
  "part1_chaser_fun1 = chaser (\<lambda>v. v + 3) 3 ''Dev 3 failed''
     (\<lambda>cur err. Inr ((if err = EINVAL then say ''EINVAL'' else []) @ (if err = EPERM then say ''EPERM'' else [])))
     (\<lambda>vals. Inr [])"

lemma blocked_sel [simp]:
  "T_period (blocked B t) = T_period t" "C_time (blocked B t) = C_time t" "B_time (blocked B t) = B"
  by (simp_all add: blocked_def)

lemma blocked_user: "blocked 0 (user_task f d st C T) = user_task f d st C T"
  by (simp add: blocked_def user_task_def)

end
