(* ===== verification/Program_Props.thy ===== *)
theory Program_Props
  imports Part1_Programs User_Props
begin

text \<open>
  More properties of the user programs: what typo and longtest print, and what the missing
  blocking times of the programs of part 1 do.
\<close>

section \<open>typo\<close>

lemma digits10_chars: "c \<in> set (digit_chars 10 n) \<Longrightarrow> c \<notin> {0, 10, 37}"
  using digit_chars_range [of 10 c n] by auto

lemma digits10_short: "length (digit_chars 10 (unat (w :: u32))) < 100"
  by (rule digit_chars_short) simp

definition typo_time :: "u32 \<Rightarrow> u8 list" where
  "typo_time ms = 10 # digit_chars 10 (unat ms div 1000) @ [46] @ digit_chars 10 (unat ms mod 1000 div 100) @ [115, 10]"

lemma typo_doprnt:
  "doprnt m 0 (10 # asc ''%lu.%lus'' @ [10]) [Word e, Word d]
     = Inr (10 # digit_chars 10 (unat e) @ [46] @ digit_chars 10 (unat d) @ [115, 10])"
proof -
  have f: "10 # asc ''%lu.%lus'' @ [10] = [10] @ 37 # 108 # 117 # [46] @ 37 # 108 # 117 # [115, 10]" by (simp add: asc_def)
  have "doprnt m 0 ([46] @ 37 # 108 # 117 # [115, 10]) [Word d] = Inr ([46] @ digit_chars 10 (unat d) @ [115, 10])"
    by (subst doprnt_text) (simp_all add: doprnt_u doprnt_plain)
  then show ?thesis unfolding f by (subst doprnt_text) (simp_all add: doprnt_u)
qed

lemma sprintf_c_string:
  assumes "doprnt m 0 fmt args = Inr cs" "0 \<notin> set cs" "length cs < 2 ^ 32"
  shows "\<exists>m'. sprintf m s fmt args = Inr (int (length cs), m') \<and> c_string m' s cs"
proof -
  have "fold savechar cs \<lparr>sbuf = s, slen = 0, smax = SPRINTF_UNLIMITED, smem = m\<rparr>
      = \<lparr>sbuf = s + of_nat (length cs), slen = int (length cs), smax = SPRINTF_UNLIMITED, smem = write_bytes m s cs\<rparr>"
    by (subst savechars [where k = "length cs"]) (simp_all add: room_def SPRINTF_UNLIMITED_def)
  then show ?thesis
    using assms c_string_write [OF assms(3,2)] by (simp add: sprintf_def vsprintf_def write_bytes_end)
qed


section \<open>longtest\<close>

text \<open>The subtraction that is written not to underflow is the one of the words.\<close>

lemma longtest_sub_eq: "longtest_sub a b = a - b"
proof -
  have "(0xffffffff :: u32) = - 1" by simp
  then have "(0xffffffff - b) + 1 + a = a - b" by (simp only:) simp
  then show ?thesis by (simp only: longtest_sub_def if_cancel)
qed

text \<open>The frequency is a little too high as a double; the quotient is rounded back.\<close>

lemma clock_interval_ticks:
  assumes "18432 * j < 2 ^ 32"
  shows "clock_interval (of_nat (18432 * j)) = of_nat (5 * j)"
proof (cases "j = 0")
  case True
  then show ?thesis by (simp add: clock_interval_def q32_def fl_def)
next
  case False
  let ?f = "8106479329266893 / 2199023255552 :: rat"
  let ?x = "of_nat (18432 * j) / ?f"
  have freq: "fl 53 OSTMR_FREQ_KHZ = ?f" by (simp add: OSTMR_FREQ_KHZ_def fl_eval)
  have j: "(1 :: rat) \<le> of_nat j" using False by simp
  have "fl 53 ?x = of_nat (5 * j)"
  proof (rule fl_near)
    show "5 * j < 2 ^ 53" using assms by simp
    show "1 \<le> ?x" "?x \<le> of_nat (5 * j)" using j by simp_all
    show "(of_nat (5 * j) - ?x) * 2 ^ Suc 53 < ?x" using j by simp
  qed
  moreover have "unat (of_nat (18432 * j) :: u32) = 18432 * j" using assms by (intro unat_of_nat_u32) simp
  ultimately have "fl 53 (q32 (of_nat (18432 * j)) / fl 53 OSTMR_FREQ_KHZ) = of_nat (5 * j)"
    unfolding q32_def freq by simp
  then show ?thesis unfolding clock_interval_def by (simp del: of_nat_mult)
qed

lemma printf_u_line:
  assumes "37 \<notin> set cs" "10 \<notin> set cs" "0 \<notin> set cs" "length cs < 28"
  shows "printf m (cs @ 37 # 117 # [10]) [Word w] = Inr (cs @ digit_chars 10 (unat w) @ [10])"
proof (rule printf_short)
  show "doprnt m 0 (cs @ 37 # 117 # [10]) [Word w] = Inr (cs @ digit_chars 10 (unat w) @ [10])"
    using assms(1) by (subst doprnt_text) (simp_all add: doprnt_u doprnt_plain)
  show "0 \<notin> set (cs @ digit_chars 10 (unat w) @ [10])" using assms(3) digits10_chars [of 0 "unat w"] by auto
  have "short_lines 0 ((cs @ digit_chars 10 (unat w)) @ [10])"
    using assms(2,4) digits10_chars [of 10 "unat w"] digits10_short [of w] by (intro short_newline) auto
  then show "short_lines 0 (cs @ digit_chars 10 (unat w) @ [10])" by simp
qed

text \<open>
  When the clock of the kernel and the counter of the timer agree, longtest prints the same
  interval for both, whatever the start and also when both wrap around: 18432 counts are five
  milliseconds without any error, although the frequency it divides by has no exact double.
\<close>

theorem longtest_intervals_agree:
  assumes "18432 * j < 2 ^ 32" "word_of_int (ret r) = start_time + of_nat (5 * j)"
  shows "longtest_main m argv oscr (Long_ended start_clock start_time (start_clock + of_nat (18432 * j))) r
    = Inr (asc ''OS clock end: '' @ digit_chars 10 (unat (start_clock + of_nat (18432 * j))) @ [10]
           @ asc ''OS clock time interval: '' @ digit_chars 10 (5 * j) @ [10]
           @ asc ''Sys call time interval: '' @ digit_chars 10 (5 * j) @ [10], Exit (- 1), Long_top, ())"
proof -
  have f: "asc ''OS clock end: %u'' @ [10] = asc ''OS clock end: '' @ 37 # 117 # [10]"
    "asc ''OS clock time interval: %u'' @ [10] = asc ''OS clock time interval: '' @ 37 # 117 # [10]"
    "asc ''Sys call time interval: %u'' @ [10] = asc ''Sys call time interval: '' @ 37 # 117 # [10]"
    by (simp_all add: asc_def)
  have p: "printf m (asc ''OS clock end: '' @ 37 # 117 # [10]) [Word w] = Inr (asc ''OS clock end: '' @ digit_chars 10 (unat w) @ [10])"
    "printf m (asc ''OS clock time interval: '' @ 37 # 117 # [10]) [Word w]
      = Inr (asc ''OS clock time interval: '' @ digit_chars 10 (unat w) @ [10])"
    "printf m (asc ''Sys call time interval: '' @ 37 # 117 # [10]) [Word w]
      = Inr (asc ''Sys call time interval: '' @ digit_chars 10 (unat w) @ [10])" for w
    by (rule printf_u_line; simp add: asc_def)+
  have n: "unat (of_nat (5 * j) :: u32) = 5 * j" using assms(1) by (intro unat_of_nat_u32) simp
  have i: "clock_interval (longtest_sub (start_clock + of_nat (18432 * j)) start_clock) = of_nat (5 * j)"
    "word_of_int (ret r) - start_time = of_nat (5 * j)"
    using clock_interval_ticks [OF assms(1)] assms(2) by (simp_all add: longtest_sub_eq del: of_nat_mult)
  show ?thesis unfolding longtest_main.simps i f by (simp add: p n del: of_nat_mult)
qed

text \<open>One second, over a wrap of the counter.\<close>

theorem longtest_intervals_agree_witness:
  "longtest_main (\<lambda>_. 0) [] 0 (Long_ended 0xffffffff 5 (0xffffffff + of_nat (18432 * 200))) \<lparr>ret = 1005, errno = 0, bytes = []\<rparr>
    = Inr (asc ''OS clock end: '' @ digit_chars 10 3686399 @ [10]
           @ asc ''OS clock time interval: '' @ digit_chars 10 1000 @ [10]
           @ asc ''Sys call time interval: '' @ digit_chars 10 1000 @ [10], Exit (- 1), Long_top, ())"
  by (subst longtest_intervals_agree) simp_all

section \<open>The task sets of part 1\<close>

lemma order_of_refuses:
  assumes "\<forall>t\<in>set ts. T_period t \<noteq> 0" "t \<in> set ts" "length ts \<le> 64"
    and "1001 * unat (T_period t) \<le> 1000 * (unat (C_time t) + unat (B_time t))"
  shows "\<exists>order. order_of ts = Inr (False, order)"
proof -
  obtain i where i: "i < length ts" "t = ts ! i" using assms(2) by (auto simp: in_set_conv_nth)
  let ?rd = "\<lambda>p :: u32. ts ! unat p" and ?ps = "map of_nat [0..<length ts] :: u32 list"
  have rd: "?rd (of_nat k) = ts ! k" if "k < length ts" for k
    using that assms(3) by (simp add: unat_of_nat_u32)
  have "\<exists>order. assign_schedule ?rd ?ps (length ?ps) = Inr (False, order)"
    by (rule assign_schedule_refuses [where p = "of_nat i"]) (use assms i rd in auto)
  then show ?thesis by (simp add: order_of_def)
qed

definition part1_sets :: "u32 list \<Rightarrow> (nat \<Rightarrow> u32) \<Rightarrow> task_t list list" where
  "part1_sets fs B =
     [part1_dagger_tasks (fs ! 0) (fs ! 1) (B 0) (B 1), part1_cyclone_tasks (fs ! 0) (B 0),
      part1_simple_tasks (fs ! 0) (fs ! 1) (fs ! 2) (B 0) (B 1) (B 2),
      part1_chaser_tasks (fs ! 0) (fs ! 1) (fs ! 2) (fs ! 3) (B 0) (B 1) (B 2) (B 3)]"

text \<open>
  Whether the kernel accepts the task sets of part 1 is up to what the stack holds in the
  place of the blocking times: with zeros all are accepted in rate monotonic order, and with a
  period or more in any one of the fields the set is refused.
\<close>

theorem part1_sets_depend_on_stack:
  "map order_of (part1_sets fs (\<lambda>_. 0)) = map (\<lambda>order. Inr (True, order)) [[0, 1], [0], [0, 1, 2], [3, 0, 1, 2]]
   \<and> (\<forall>ts\<in>set (part1_sets fs B). (\<exists>t\<in>set ts. T_period t \<le> B_time t) \<longrightarrow> (\<exists>order. order_of ts = Inr (False, order)))"
proof (intro conjI ballI impI)
  show "map order_of (part1_sets fs (\<lambda>_. 0)) = map (\<lambda>order. Inr (True, order)) [[0, 1], [0], [0, 1, 2], [3, 0, 1, 2]]"
    using dagger_order cyclone_order simple_order chaser_order
    by (simp add: part1_sets_def part1_dagger_tasks_def part1_cyclone_tasks_def part1_simple_tasks_def
        part1_chaser_tasks_def blocked_user dagger_tasks_def cyclone_tasks_def simple_tasks_def chaser_tasks_def)
next
  fix ts assume ts: "ts \<in> set (part1_sets fs B)" and "\<exists>t\<in>set ts. T_period t \<le> B_time t"
  then obtain t where t: "t \<in> set ts" "T_period t \<le> B_time t" by blast
  have "length ts \<le> 64" "\<forall>t\<in>set ts. C_time t = 1 \<and> T_period t \<in> {50, 100, 200, 500}"
    using ts by (auto simp: part1_sets_def part1_dagger_tasks_def part1_cyclone_tasks_def part1_simple_tasks_def
        part1_chaser_tasks_def set_eval)
  moreover from this(2) t have "1001 * unat (T_period t) \<le> 1000 * (unat (C_time t) + unat (B_time t))"
    by (auto simp: word_le_nat_alt)
  ultimately show "\<exists>order. order_of ts = Inr (False, order)"
    using t(1) by (intro order_of_refuses [of ts t]) auto
qed

theorem part1_sets_depend_on_stack_witness:
  "\<exists>order. order_of (part1_dagger_tasks 0x8000 0x9000 0 0xa2000000) = Inr (False, order)"
proof -
  let ?fs = "[0x8000, 0x9000, 0, 0]" and ?B = "\<lambda>i :: nat. if i = 1 then 0xa2000000 else 0 :: u32"
  let ?ts = "part1_dagger_tasks 0x8000 0x9000 0 0xa2000000"
  have "?ts \<in> set (part1_sets ?fs ?B)" by (simp add: part1_sets_def)
  moreover have "\<exists>t\<in>set ?ts. T_period t \<le> B_time t"
    by (rule bexI [of _ "?ts ! 1"]) (simp_all add: part1_dagger_tasks_def set_eval)
  ultimately show ?thesis using part1_sets_depend_on_stack [of ?fs ?B] by blast
qed

end
