(* ===== verification/Hexdump_Props.thy ===== *)
theory Hexdump_Props
  imports C_Stdio_Props
begin

text \<open>
  hexdump: it returns exactly for lengths up to 2^32 - 16, and then all its lines have the
  same width.
\<close>

section \<open>The formats of a line\<close>

text \<open>Calls that succeed, and the number of bytes they send.\<close>

definition prints :: "memory \<Rightarrow> (u8 list \<times> va_list) list \<Rightarrow> nat \<Rightarrow> bool" where
  "prints m calls n \<longleftrightarrow> (\<exists>out. printf_calls m calls = Inr out \<and> length out = n)"

lemma prints_Nil [simp]: "prints m [] n \<longleftrightarrow> n = 0"
  by (auto simp: prints_def)

lemma prints_one:
  "doprnt m 0 fmt args = Inr cs \<Longrightarrow> 0 \<notin> set cs \<Longrightarrow> short_lines 0 cs \<Longrightarrow> n = length cs \<Longrightarrow> prints m [(fmt, args)] n"
  by (simp add: prints_def printf_short)

lemma prints_append: "prints m as k \<Longrightarrow> prints m bs l \<Longrightarrow> prints m (as @ bs) (k + l)"
proof (induction as arbitrary: k)
  case Nil
  then show ?case by simp
next
  case (Cons a as)
  obtain fmt args where a: "a = (fmt, args)" by (cases a)
  then obtain o1 o2 where *: "printf m fmt args = Inr o1" "printf_calls m as = Inr o2" "k = length o1 + length o2"
    using Cons.prems(1) by (auto simp: prints_def bind_eq_Inr)
  then obtain o3 where "printf_calls m (as @ bs) = Inr o3" "length o3 = length o2 + l"
    using Cons.IH [of "length o2"] Cons.prems(2) by (auto simp: prints_def)
  then show ?case using * a by (simp add: prints_def)
qed

lemma prints_concat:
  "(\<And>x. x \<in> set xs \<Longrightarrow> prints m (f x) (g x)) \<Longrightarrow> prints m (concat (map f xs)) (sum_list (map g xs))"
  by (induction xs) (auto intro: prints_append)

lemma prints_text: "0 \<notin> set cs \<Longrightarrow> 37 \<notin> set cs \<Longrightarrow> short_lines 0 cs \<Longrightarrow> prints m [(cs, [])] (length cs)"
  by (rule prints_one [OF doprnt_plain]) simp_all

lemma print_num_zeros:
  "print_num (no_spec\<lparr>padc := 48, field_length := n, longopt := k\<rparr>) False 16 u
    = Inr (pad (n - int (length (digit_chars 16 (unat u)))) 48 @ digit_chars 16 (unat u))"
proof -
  have "digits_loop MAXBUF u (of_nat 16) [] = Inr (digit_chars 16 (unat u) @ [])"
    using ll_length [of 16 u] by (intro digits_loop_eq) (simp_all add: MAXBUF_def)
  then show ?thesis by (simp add: print_num_def Let_def no_spec_def pad_def)
qed

lemma zeros_length:
  fixes w :: u32 assumes "unat w < 16 ^ n" "0 < n"
  shows "length (pad (int n - int (length (digit_chars 16 (unat w)))) 48 @ digit_chars 16 (unat w)) = n"
  using ndigits_length [of 16 "unat w" n] assms by (simp add: pad_def digit_chars_def)

lemma zeros_chars:
  "c \<in> set (pad k 48 @ digit_chars 16 n) \<Longrightarrow> c \<notin> {0, 10, 37}"
  using digit_chars_range [of 16 c n] by (auto simp: pad_def)

lemma prints_offset: "prints m [(asc ''| %08lx      '', [Word w])] 16"
proof (rule prints_one)
  let ?ds = "pad (8 - int (length (digit_chars 16 (unat w)))) 48 @ digit_chars 16 (unat w)"
  have f: "asc ''| %08lx      '' = [124, 32] @ 37 # [48, 56, 108, 120] @ [32, 32, 32, 32, 32, 32]" by (simp add: asc_def)
  have "parse_spec ([48, 56, 108, 120] @ [32, 32, 32, 32, 32, 32]) [Word w]
      = Inr (no_spec\<lparr>padc := 48, field_length := 8, longopt := 1\<rparr>, 120 # [32, 32, 32, 32, 32, 32], [Word w])"
    by (simp add: parse_spec_def starts_with_def parse_width_def parse_prec_def Let_def no_spec_def isdigit_def)
  moreover have "convert m 0 (no_spec\<lparr>padc := 48, field_length := 8, longopt := 1\<rparr>) 120 [Word w] = Inr (?ds, [])"
    using print_num_zeros [of 1 8 "ucast w"]
    by (simp add: convert_def doprnt_truncates_def print_unsigned_def unat_ucast_64 no_spec_def)
  ultimately have "doprnt m 0 (37 # [48, 56, 108, 120] @ [32, 32, 32, 32, 32, 32]) [Word w]
      = bind (doprnt m 0 [32, 32, 32, 32, 32, 32] []) (\<lambda>rest. Inr (?ds @ rest))"
    by (rule doprnt_conv)
  then have "doprnt m 0 (37 # [48, 56, 108, 120] @ [32, 32, 32, 32, 32, 32]) [Word w] = Inr (?ds @ [32, 32, 32, 32, 32, 32])"
    by (simp add: doprnt_plain)
  then show "doprnt m 0 (asc ''| %08lx      '') [Word w] = Inr ([124, 32] @ ?ds @ [32, 32, 32, 32, 32, 32])"
    unfolding f by (subst doprnt_text) simp_all
  show "16 = length ([124, 32] @ ?ds @ [32, 32, 32, 32, 32, 32])"
    using zeros_length [of w 8] unat_u32_less [of w] by simp
  then show "short_lines 0 ([124, 32] @ ?ds @ [32, 32, 32, 32, 32, 32])"
    using zeros_chars by (intro short_no_newline) fastforce+
  show "0 \<notin> set ([124, 32] @ ?ds @ [32, 32, 32, 32, 32, 32])" using zeros_chars by fastforce
qed

lemma prints_byte:
  assumes "unat w < 256" shows "prints m [(asc ''%02x'', [Word w])] 2"
proof (rule prints_one)
  let ?ds = "pad (2 - int (length (digit_chars 16 (unat w)))) 48 @ digit_chars 16 (unat w)"
  have f: "asc ''%02x'' = 37 # [48, 50, 120]" by (simp add: asc_def)
  have "parse_spec [48, 50, 120] [Word w] = Inr (no_spec\<lparr>padc := 48, field_length := 2, longopt := 0\<rparr>, 120 # [], [Word w])"
    by (simp add: parse_spec_def starts_with_def parse_width_def parse_prec_def Let_def no_spec_def isdigit_def)
  moreover have "convert m 0 (no_spec\<lparr>padc := 48, field_length := 2, longopt := 0\<rparr>) 120 [Word w] = Inr (?ds, [])"
    using print_num_zeros [of 0 2 "ucast w"]
    by (simp add: convert_def doprnt_truncates_def print_unsigned_def unat_ucast_64 no_spec_def)
  ultimately have "doprnt m 0 (37 # [48, 50, 120]) [Word w] = bind (doprnt m 0 [] []) (\<lambda>rest. Inr (?ds @ rest))"
    by (rule doprnt_conv)
  then show "doprnt m 0 (asc ''%02x'') [Word w] = Inr ?ds" unfolding f by (simp add: doprnt.simps)
  show len: "2 = length ?ds" using zeros_length [of w 2] assms by simp
  show "short_lines 0 ?ds" using zeros_chars len by (intro short_no_newline) fastforce+
  show "0 \<notin> set ?ds" using zeros_chars by fastforce
qed

lemma prints_char:
  assumes "ucast w \<noteq> (0 :: u8)" "ucast w \<noteq> (10 :: u8)" shows "prints m [(asc ''%c'', [Word w])] 1"
proof (rule prints_one)
  have f: "asc ''%c'' = 37 # [99]" by (simp add: asc_def)
  have "parse_spec [99] [Word w] = Inr (no_spec, 99 # [], [Word w])" by (rule parse_letter) (simp_all add: isdigit_def)
  then show "doprnt m 0 (asc ''%c'') [Word w] = Inr [ucast w]"
    unfolding f by (simp add: doprnt.simps convert_def)
  show "short_lines 0 [ucast w]" using assms by (simp add: PRINTF_BUFMAX_def)
qed (use assms in simp_all)

section \<open>One line\<close>

text \<open>The sixteen indices of a line whose first one is a multiple of 16 and does not wrap.\<close>

lemma line_indices:
  fixes i :: u32
  assumes "unat i mod 16 = 0" "unat i + 16 < 2 ^ 32" "k < 16"
  shows "unat (i + of_nat k) = unat i + k" "i + of_nat k < i + 16" "(i + of_nat k) mod 4 = 0 \<longleftrightarrow> k mod 4 = 0"
proof -
  have k: "unat (of_nat k :: u32) = k" using assms(3) by (intro unat_of_nat_u32) simp
  show 1: "unat (i + of_nat k) = unat i + k" using assms k by (subst unat_add_lem [THEN iffD1]) simp_all
  have "unat (i + 16) = unat i + 16" using assms(2) by (subst unat_add_lem [THEN iffD1]) simp_all
  then show "i + of_nat k < i + 16" using 1 assms(3) by (simp add: word_less_nat_alt)
  have "unat i mod 4 = 0" using assms(1) by presburger
  then have "(unat i + k) mod 4 = k mod 4" by presburger
  moreover have "(i + of_nat k) mod 4 = 0 \<longleftrightarrow> unat (i + of_nat k) mod 4 = 0"
    by (simp add: unat_eq_0 [symmetric] unat_mod del: unat_eq_0)
  ultimately show "(i + of_nat k) mod 4 = 0 \<longleftrightarrow> k mod 4 = 0" using 1 by simp
qed

lemma hex_line_prints:
  assumes "unat i mod 16 = 0" "unat i + 16 < 2 ^ 32"
  shows "prints m (hex_line m' b len i) 78"
proof -
  define js where "js = map (\<lambda>k. i + of_nat k) [0..<16]"
  note ix = line_indices [OF assms]
  have js: "takeWhile (\<lambda>j. j < i + 16) js = js"
    using ix(2) by (auto simp: takeWhile_eq_all_conv js_def)
  define f where "f j = (if j mod 4 = 0 then [(asc '' '', [])] else [])
      @ [if j \<ge> len then (asc ''  '', []) else (asc ''%02x'', [Word (ucast (m' (b + j)))])]" for j
  have "prints m (f j) (if j mod 4 = 0 then 3 else 2)" for j
  proof -
    have "unat (ucast (c :: u8) :: u32) < 256" for c
      using unsigned_less [of c, where 'a = nat] by (simp add: unsigned_ucast_eq take_bit_nat_eq_self)
    moreover have "prints m [(asc ''  '', [])] 2"
      by (rule prints_one [OF doprnt_plain]) (simp_all add: asc_def PRINTF_BUFMAX_def)
    ultimately have "prints m [if j \<ge> len then (asc ''  '', []) else (asc ''%02x'', [Word (ucast (m' (b + j)))])] 2"
      using prints_byte by simp
    moreover have "prints m (if j mod 4 = 0 then [(asc '' '', [])] else []) (if j mod 4 = 0 then 1 else 0)"
      using prints_text [of "asc '' ''" m] by (simp add: asc_def PRINTF_BUFMAX_def)
    note prints_append [OF this calculation]
    ultimately show ?thesis by (cases "j mod 4 = 0") (simp_all add: f_def numeral_3_eq_3 numeral_2_eq_2)
  qed
  then have "prints m (concat (map f js)) (sum_list (map (\<lambda>j. if j mod 4 = 0 then 3 else 2) js))"
    by (rule prints_concat)
  moreover have "map (\<lambda>j. if j mod 4 = 0 then 3 else 2) js = map (\<lambda>k. if k mod 4 = 0 then 3 else (2 :: nat)) [0..<16]"
    using ix(3) by (simp add: js_def)
  moreover have "sum_list (map (\<lambda>k. if k mod 4 = 0 then 3 else (2 :: nat)) [0..<16]) = 36" by code_simp
  ultimately have hex: "prints m (concat (map f js)) 36" by simp
  define g where "g j = (if j \<ge> len then (asc '' '', [])
      else (asc ''%c'', [Word (if isgraph (uint (m' (b + j))) then ucast (m' (b + j)) else 46)]))" for j
  have "prints m [g j] 1" for j
  proof (cases "j \<ge> len")
    case True
    then show ?thesis using prints_text [of "asc '' ''" m] by (simp add: g_def asc_def PRINTF_BUFMAX_def)
  next
    case False
    have "ucast (ucast c :: u32) = c" for c :: u8 by (rule ucast_up_ucast_id) (simp add: is_up_def source_size_def target_size_def)
    moreover have "isgraph (uint c) \<Longrightarrow> c \<noteq> 0 \<and> c \<noteq> 10" for c :: u8 by (auto simp: isgraph_def)
    ultimately show ?thesis using False prints_char by (simp add: g_def)
  qed
  then have "prints m (concat (map (\<lambda>j. [g j]) js)) (sum_list (map (\<lambda>j. 1) js))" by (rule prints_concat)
  moreover have "concat (map (\<lambda>j. [g j]) xs) = map g xs" for xs by (induction xs) simp_all
  moreover have "sum_list (map (\<lambda>j. 1) js) = (16 :: nat)" by (simp add: js_def comp_def sum_list_triv)
  ultimately have chars: "prints m (map g js) 16" by simp
  have sep: "prints m [(asc ''       '', [])] 7" "prints m [(asc '' |'' @ [10], [])] 3"
    by (rule prints_one [OF doprnt_plain]; simp add: asc_def PRINTF_BUFMAX_def)+
  have "hex_line m' b len i = [(asc ''| %08lx      '', [Word i])] @ concat (map f js) @ [(asc ''       '', [])]
      @ map g js @ [(asc '' |'' @ [10], [])]"
    unfolding hex_line_def js_def [symmetric] js Let_def f_def g_def ..
  then show ?thesis
    using prints_append [OF prints_offset prints_append [OF hex prints_append [OF sep(1) prints_append [OF chars sep(2)]]]]
    by simp
qed

section \<open>The loop\<close>

lemma hex_lines_stop: "\<not> i < len \<Longrightarrow> hex_lines m b len i = Some []"
  by (simp add: hex_lines.simps [of m b len i])

lemma hex_lines_prints:
  assumes "unat len \<le> 2 ^ 32 - 16" "unat i mod 16 = 0"
  shows "\<exists>lines. hex_lines m' b len i = Some lines \<and> prints m lines (78 * ((unat len + 15 - unat i) div 16))"
  using assms(2)
proof (induction "unat len - unat i" arbitrary: i rule: less_induct)
  case less
  show ?case
  proof (cases "i < len")
    case False
    then have "unat len \<le> unat i" by (simp add: word_less_nat_alt)
    then have "(unat len + 15 - unat i) div 16 = 0" by simp
    then show ?thesis using False by (simp add: hex_lines_stop)
  next
    case True
    then have lt: "unat i < unat len" by (simp add: word_less_nat_alt)
    have w: "unat i + 16 < 2 ^ 32" using lt assms(1) by simp
    then have no: "unat (i + 16) = unat i + 16" "unat i + 16 < 2 ^ 32" using unat_add_lem [of i 16] by simp_all
    have a: "unat (i + 16) mod 16 = 0" using no(1) less.prems by simp
    have d: "unat len - unat (i + 16) < unat len - unat i" using no lt by linarith
    obtain lines where l: "hex_lines m' b len (i + 16) = Some lines"
      "prints m lines (78 * ((unat len + 15 - unat (i + 16)) div 16))"
      using less.hyps [OF d a] by (elim exE conjE)
    have "78 + 78 * ((unat len + 15 - unat (i + 16)) div 16) = 78 * ((unat len + 15 - unat i) div 16)"
      using no lt by (simp add: div_if)
    then have "prints m (hex_line m' b len i @ lines) (78 * ((unat len + 15 - unat i) div 16))"
      using prints_append [OF hex_line_prints [OF less.prems no(2)] l(2)] by simp
    then show ?thesis using True l(1) by (simp add: hex_lines.simps [of m' b len i])
  qed
qed

text \<open>Above the bound the index wraps to 0 and the loop starts again.\<close>

lemma hex_lines_diverges:
  assumes "unat len > 2 ^ 32 - 16" "unat i mod 16 = 0"
  shows "hex_lines m b len i = None"
proof -
  have "unat len > 2 ^ 32 - 16 \<longrightarrow> unat i mod 16 \<noteq> 0" if "hex_lines m b len i = Some lines" for lines
  proof (rule hex_lines.raw_induct [rotated, OF that], intro impI notI)
    fix hl and m :: memory and b len i :: u32 and lines
    assume IH: "\<And>m b len i lines. hl m b len i = Some lines \<Longrightarrow> unat len > 2 ^ 32 - 16 \<longrightarrow> unat i mod 16 \<noteq> 0"
      and body: "(if i < len then Option.bind (hl m b len (i + 16)) (\<lambda>rest. Some (hex_line m b len i @ rest)) else Some []) = Some lines"
      and len: "unat len > 2 ^ 32 - 16" and i: "unat i mod 16 = 0"
    have "unat i < 4294967296" using unat_u32_less [of i] by simp
    then have "unat i \<le> 4294967280" using i by presburger
    then have "i < len" using len by (simp add: word_less_nat_alt)
    moreover have "unat (i + 16) mod 16 = 0" using i by (simp add: unat_word_ariths mod_mod_cancel)
    ultimately show False using IH [of m b len "i + 16"] body len by (auto simp: bind_eq_Some_conv)
  qed
  then show ?thesis using assms by (cases "hex_lines m b len i") auto
qed



end
