(* ===== verification/C_String_Term.thy ===== *)
theory C_String_Term
  imports C_String_Props C_Stdlib
begin

text \<open>
  Which of the loops over strings end: all that only read, from every address, if there is a
  null anywhere in memory; without one strlen runs around the address space forever.
\<close>

section \<open>Every address starts a string\<close>

lemma c_string_map:
  "m (a + of_nat k) = 0 \<Longrightarrow> (\<And>i. i < k \<Longrightarrow> m (a + of_nat i) \<noteq> 0)
     \<Longrightarrow> c_string m a (map (\<lambda>i. m (a + of_nat i)) [0..<k])"
proof (induction k arbitrary: a)
  case (Suc k)
  have "m (a + 1 + of_nat i) \<noteq> 0" if "i < k" for i
    using Suc.prems(2) [of "Suc i"] that by (simp add: add.assoc)
  then have "c_string m (a + 1) (map (\<lambda>i. m (a + 1 + of_nat i)) [0..<k])"
    using Suc.prems(1) by (intro Suc.IH) (simp_all add: add.assoc)
  moreover have "[0..<Suc k] = 0 # map Suc [0..<k]" by (simp add: upt_conv_Cons map_Suc_upt del: upt_Suc)
  ultimately show ?case using Suc.prems(2) [of 0] by (simp add: comp_def add.assoc del: upt_Suc)
qed simp

lemma string_at:
  assumes "m x = 0" shows "\<exists>cs. c_string m a cs"
proof -
  define k where "k = (LEAST k. m (a + of_nat k) = 0)"
  have "m (a + of_nat (unat (x - a))) = 0" using assms by simp
  then have "m (a + of_nat k) = 0" unfolding k_def by (rule LeastI)
  moreover have "m (a + of_nat i) \<noteq> 0" if "i < k" for i using that not_less_Least unfolding k_def by blast
  ultimately show ?thesis using c_string_map by blast
qed

section \<open>Loops that end at the null\<close>

lemma skip_space_ends: "c_string m p cs \<Longrightarrow> \<exists>p' ds. skip_space m p = Some p' \<and> c_string m p' ds"
proof (induction cs arbitrary: p)
  case Nil
  then have "\<not> isspace (uint (m p))" by (simp add: isspace_def)
  then show ?case using Nil by (simp add: skip_space.simps [of m p]) (metis c_string.simps(1))
next
  case (Cons c cs)
  show ?case
  proof (cases "isspace (uint (m p))")
    case True
    then show ?thesis using Cons by (simp add: skip_space.simps [of m p])
  next
    case False
    then show ?thesis using Cons.prems by (simp add: skip_space.simps [of m p]) (metis c_string.simps(2))
  qed
qed

lemma number_loop_ends: "c_string m p cs \<Longrightarrow> number_loop m p base v \<noteq> None"
proof (induction cs arbitrary: p v)
  case Nil
  then have "digit_value base (m p) = None" by (simp add: digit_value_def)
  then show ?case by (simp add: number_loop.simps [of m p])
next
  case (Cons c cs)
  then have "c_string m (p + 1) cs" by simp
  then show ?case using Cons.IH by (cases "digit_value base (m p)") (simp_all add: number_loop.simps [of m p])
qed

lemma atol_loop_ends: "c_string m p cs \<Longrightarrow> atol_loop m p n \<noteq> None"
proof (induction cs arbitrary: p n)
  case Nil
  then show ?case by (simp add: atol_loop.simps [of m p] isdigit_def)
next
  case (Cons c cs)
  then have "c_string m (p + 1) cs" by simp
  then show ?case using Cons.IH by (simp add: atol_loop.simps [of m p])
qed

lemma strchr_ends: "c_string m a cs \<Longrightarrow> strchr m a c \<noteq> None"
proof (induction cs arbitrary: a)
  case Nil
  then show ?case by (simp add: strchr.simps [of m a])
next
  case (Cons d cs)
  then have "c_string m (a + 1) cs" by simp
  then show ?case using Cons.IH by (simp add: strchr.simps [of m a])
qed

lemma strrchr_loop_ends: "c_string m a cs \<Longrightarrow> strrchr_loop m a c save \<noteq> None"
proof (induction cs arbitrary: a save)
  case Nil
  then show ?case by (simp add: strrchr_loop.simps [of m a])
next
  case (Cons d cs)
  then have "c_string m (a + 1) cs" by simp
  then show ?case using Cons.IH by (simp add: strrchr_loop.simps [of m a])
qed

lemma strlen_diverges:
  assumes "\<And>x. m x \<noteq> 0" shows "strlen_loop m a = None"
proof -
  have "\<exists>x. m x = 0" if "strlen_loop m a = Some e" for e
    by (rule strlen_loop.raw_induct [rotated, OF that]) (auto split: if_splits)
  then show ?thesis using assms by (cases "strlen_loop m a") auto
qed

text \<open>
  C32: strlen returns exactly when there is a null anywhere in memory. Then every other
  function that only reads strings returns too, from every address: the comparison, the
  searches, the spans and the number parsers.
\<close>

theorem string_functions_terminate:
  "(strlen m a \<noteq> None \<longleftrightarrow> (\<exists>x. m x = 0))
   \<and> ((\<exists>x. m x = 0) \<longrightarrow>
       strcmp m a b \<noteq> None \<and> strchr m a c \<noteq> None \<and> strrchr m a c \<noteq> None \<and> strstr m a b \<noteq> None
     \<and> strspn m a b \<noteq> None \<and> strcspn m a b \<noteq> None \<and> strpbrk m a b \<noteq> None
     \<and> atoi m a \<noteq> None \<and> strtol m a base \<noteq> None \<and> strtoul m a base \<noteq> None)"
proof (cases "\<exists>x. m x = 0")
  case False
  then show ?thesis using strlen_diverges [of m a] by (simp add: strlen_def)
next
  case True
  then obtain x where x: "m x = 0" ..
  obtain cs ds where s: "c_string m a cs" "c_string m b ds" using string_at [of m x] x by blast
  have n: "number_loop m p bs v \<noteq> None" for p bs v using string_at [of m x p] x number_loop_ends by blast
  obtain p' where p': "skip_space m a = Some p'" using skip_space_ends [OF s(1)] by blast
  have "strtol m a base \<noteq> None" "strtoul m a base \<noteq> None"
    by (simp_all add: strtol_def strtoul_def p' Let_def n split: prod.splits del: not_None_eq)
  moreover have "strchr m a c \<noteq> None" "strrchr m a c \<noteq> None"
    using strchr_ends [OF s(1)] strrchr_loop_ends [OF s(1)] by (simp_all add: strrchr_def)
  moreover have "strcmp m a b \<noteq> None" "strspn m a b \<noteq> None" "strcspn m a b \<noteq> None" "strpbrk m a b \<noteq> None"
    "strstr m a b \<noteq> None" "strlen m a \<noteq> None"
    using s by (simp_all add: strcmp_eq strspn_loop_eq strcspn_loop_eq strpbrk_eq strspn_def strcspn_def strstr_def strlen_eq)
  moreover have "atoi m a \<noteq> None" using atol_loop_ends [OF s(1)] by (simp add: atoi_def atol_def)
  ultimately show ?thesis using True by blast
qed

theorem string_functions_terminate_witness:
  "strlen two_words 7 \<noteq> None \<and> strcmp two_words 7 0x100 \<noteq> None \<and> strlen (\<lambda>_. 1) 7 = None"
proof -
  have "two_words 0 = 0" by (simp add: two_words_def)
  then have "\<exists>x. two_words x = 0" ..
  then show ?thesis
    using string_functions_terminate [where m = two_words and a = 7 and b = "0x100"]
      string_functions_terminate [where m = "\<lambda>_. 1" and a = 7] by auto
qed

end
