(* ===== verification/Spec2Isabelle.thy ===== *)
theory Spec2Isabelle
  imports Kernel_Types Kernel_Liveness Vector_Props UB_Bound Chaser_On_Kernel Dagger_On_Kernel Simple_On_Kernel Program_Props Hexdump_Props C_String_Term
begin

text \<open>
  A verification of the Gravel kernel, a real-time kernel for an ARM board with the U-Boot
  boot loader, of the C library its programs are linked with, and of the programs.

  \<^bold>\<open>The program.\<close> src/kernel is the kernel: main.c starts it and hands over to a user program,
  which passes the descriptors of a task set to task_create (syscall/proc.c). The set is
  ordered and tested by sched/ub_test.c; sched/sched.c makes a tcb for each task, its priority
  is its place in the order; sched/run_queue.c keeps the ready ones in a bitmap trie and
  sched/ctx_switch.c switches to the most urgent. Tasks wait for four periodic devices
  (device.c), which the timer interrupt (kernel_helpers.c, syscall/time.c) fires every some
  ticks of five milliseconds, and share mutexes (lock/mutex.c) under the highest locker
  protocol: a holder runs at priority 0. read and write are in syscall/io.c. src/tasks/libc is
  the library: strings, numbers, printf and sscanf, and the stubs of the system calls. The
  other directories of src/tasks are programs; src/part1tests has older copies of some of them.

  \<^bold>\<open>The theories of the kernel.\<close> Gravel_Prelude has the machine integers, the results that carry
  a failure of the kernel as a value (res: Inl an error, Inr a result) and the constants of
  config.h and errno.h. Kernel_State is the record of all static variables of the C files, of
  the registers and of memory; a tcb pointer is an index into system_tcb or None. Then one
  theory for each file: Run_Queue (run_queue.c), Sched (sched.c, ctx_switch.c), Mutex (mutex.c),
  Device (device.c), UB_Test (ub_test.c, over the rounded arithmetic of Soft_Float), Timer
  (time.c), Syscall_IO (io.c, over Memory), Syscalls (proc.c, kernel_helpers.c, main.c) and
  Int_Math (math.c, memcheck.c). A definition has the name of the C function where it can.

  Ready_Queue_Spec and Waiting_Line_Spec are the two interfaces inside the kernel, as locales:
  a map whose least key is taken, and a first-come first-served line; Run_Queue and Mutex
  interpret them on the code and the dispatchers and the mutexes use their facts. Sched_Spec is
  the specification of the whole: which task runs, which are ready, which wait, and where each
  suspended one resumes, without any data structure. Kernel_System puts the operations
  together in a step relation (system calls, interrupts, the sleep, user code), states the
  invariant kinv and proves it for each operation; Kernel_Run proves it for each step and for
  all states a run reaches, from kmain on, and that each step is a sequence of steps of the
  specification. Kernel_Props, Kernel_Types and Kernel_Liveness hold the properties of runs:
  no polite step fails; only the running task holds mutexes, so a lock never blocks; no task
  gets lost unless an interrupt comes in the window of dev_wait; what a tick does; the ranges
  of all pointers; when a waiting task wakes. UB_Bound compares the table of the test with the
  bound of Liu and Layland, Vector_Props the wiring of the exception vectors with its undoing.

  \<^bold>\<open>The theories of the library and the programs.\<close> C_String and C_Stdlib (libc/string,
  libc/stdlib, ctype.h), Printf (doprnt.c), C_Stdio (printf, sprintf, puts, hexdump, sscanf) hold the
  functions; C_String_Props, C_String_Term, Printf_Props, C_Stdio_Props and Hexdump_Props what they
  compute and whether they return. User_Programs and Part1_Programs have the task functions of
  the programs, as step functions from one system call to the next; User_Props runs sys_err and
  mutex_chaser on them, the first over the dispatcher of the kernel itself, and Program_Props
  has typo, longtest and the task sets of part 1.

  \<^bold>\<open>Programs on the kernel.\<close> The last group of theories puts the two halves together: the task
  functions of User_Programs make their calls to the model of the kernel, from its start to the
  output of the program. Kernel_Turns has what one wait, one sleep and one tick do to a kernel in
  a known state of the specification. Programs_On_Kernel runs a task function up to its wait
  (until_wait), Program_Runs the ready tasks of a program in turn and then its ticks
  (run_program); both also have the same without a kernel (alone, turns), and the locale
  periodic_program is the contract under which the two agree: every turn, taken alone, reaches
  its wait with no mutex held. Program_Start runs main functions (run_main), follows the
  descriptors of a task set from user memory through task_create to the entry contexts of the
  tasks, and has the refinement as program_runs_as_turns. Chaser_On_Kernel and Dagger_On_Kernel
  interpret the locale on mutex_chaser and dagger and prove what these do from a kernel that was
  just started: the final values and the verdict of the one, all output of the other. In these
  runs each tick finds the idle task: the turns between two ticks take less than five
  milliseconds. Simple_On_Kernel has a program outside the contract: a task of simple_mutex that
  waits with the mutex held is refused, and starves the others.

  \<^bold>\<open>How the code is read.\<close> char is unsigned, int, long and pointers have 32 bits and arithmetic
  wraps, as on the machine; what C leaves undefined and the code can meet is an error (an index
  out of an array, a null pointer, a conversion of a float that is too large). float and double
  are exact rationals rounded to 24 and 53 bits after each operation, to even on a tie; no value
  is near their overflow. A context is saved as the place where it resumes (resume_point), of
  which the code has six. A function that calls a dispatcher may leave its thread: its result
  says so (Switched), and resume runs the rest of it when the thread is switched to.

  \<^bold>\<open>Bounds and fuel.\<close> Loops are structural recursions or recursions with a termination proof;
  those that run until they meet a null byte, and that of hexdump, are partial functions into
  option, None if they never return, and C_String_Term and Hexdump_Props say when that is.
  The loop over a sleep queue ends on every queue, also on a cyclic one, because it clears each
  link it follows; its measure counts the links. The digits of a number have the room of the buffer of doprnt.
  Between two ticks the n tasks of a program take at most two steps each, so 2 n + 1 steps are
  enough (run_tasks); a turn of mutex_chaser makes at most three calls, of dagger one, and the
  main function of mutex_chaser 33.
  read and sleep take the characters and the clock readings to come as lists and are None
  while they wait. The permitted steps (polite) use a known system call, create a task set only
  without a mutex and with a malloc that succeeds, and come when the counter of the timer is
  at least one tick away from its wrap-around.

  \<^bold>\<open>Not modelled.\<close> The entry code of the exceptions (asm_handler.S, arm/int_asm.S, kernel_asm.S,
  start.S) is in the step relation by its effect only: registers are saved and restored, and
  interrupts are off in the kernel. An interrupt in a system call that has them on counts as one
  before or after the call; the window of dev_wait, where that is not so, is a mode of its own.
  U-Boot is not in the repository: malloc is a parameter, its input and output are two streams
  of characters. What the kernel prints for debugging is left out. Headers that only declare,
  the patch directory and the build files have nothing to model.
\<close>

end
